(* ===== verification/Prelude.thy ===== *)
theory Prelude
  imports Main "HOL-Library.Word"
begin

text \<open>
  Shared vocabulary of the development: the machine types of an LP64 Linux target (the platform
  of src/aesd-char-driver and src/server), the C conversions between them, pointers and the heap
  of byte blocks, and the list facts the components share.

  An unsigned C integer is a word of its width.  A signed C \<open>int\<close>, \<open>ssize_t\<close> or \<open>loff_t\<close> is the
  HOL integer it denotes; each conversion to or from an unsigned type is written out with the
  functions below, which truncate or sign-extend as gcc does.  A C character is HOL's \<open>char\<close>
  (exactly one byte), so C strings read as in the source.
\<close>

section \<open>Collections of facts\<close>

named_theorems c_conv \<comment> \<open>C integer conversions on values in range\<close>
named_theorems ring_simps \<comment> \<open>arithmetic of the ring indices\<close>

section \<open>Machine integers\<close>

type_synonym u8 = "8 word"
type_synonym u32 = "32 word"
type_synonym u64 = "64 word"

type_synonym byte = char

definition nl :: byte where
  "nl = CHR 0x0A"

text \<open>\<open>(int) x\<close> for an unsigned \<open>size_t x\<close>: keep the low 32 bits, read as two's complement.\<close>

definition int_of_size :: "u64 \<Rightarrow> int" where
  "int_of_size x = sint (ucast x :: 32 word)"

text \<open>\<open>(size_t) i\<close> for a signed \<open>i\<close>: reduce modulo \<open>2 ^ 64\<close>.\<close>

definition size_of_int :: "int \<Rightarrow> u64" where
  "size_of_int i = word_of_int i"

lemma unat_size_of_int [c_conv]:
  "0 \<le> i \<Longrightarrow> i < 2 ^ 64 \<Longrightarrow> unat (size_of_int i) = nat i"
  by (simp add: size_of_int_def unat_eq_nat_uint uint_word_of_int)

lemma unat_size_of_nat [c_conv]: "n < 2 ^ 64 \<Longrightarrow> unat (size_of_int (int n)) = n"
  by (simp add: size_of_int_def unat_of_nat)

lemma size_of_int_of_nat [c_conv]: "size_of_int (int n) = of_nat n"
  by (simp add: size_of_int_def)

lemma size_of_int_0 [simp]: "size_of_int 0 = 0"
  by (simp add: size_of_int_def)

lemma int_of_size_small [c_conv]:
  assumes "unat x < 2 ^ 31"
  shows "int_of_size x = int (unat x)"
proof -
  have lt: "unat x < 2147483648" using assms by simp
  have "unat (ucast x :: 32 word) = unat x"
    using lt by (simp add: unsigned_ucast_eq take_bit_nat_eq_self_iff)
  then have "uint (ucast x :: 32 word) = int (unat x)"
    by (metis uint_nat)
  moreover have "uint x < 2147483648"
    using lt by (metis of_nat_less_iff of_nat_numeral uint_nat)
  moreover have "- 2147483648 \<le> uint x"
    using uint_ge_0 [of x] by linarith
  ultimately show ?thesis
    by (simp add: int_of_size_def sint_uint signed_take_bit_int_eq_self_iff)
qed

lemma int_of_size_0 [simp]: "int_of_size 0 = 0"
  by (simp add: int_of_size_def)

lemma unat_add_small [c_conv]:
  fixes x y :: u64
  assumes "unat x + unat y < 2 ^ 64"
  shows "unat (x + y) = unat x + unat y"
  using assms by (simp add: unat_word_ariths)

lemma unat_sub_one [c_conv]:
  fixes x :: u64
  assumes "x \<noteq> 0"
  shows "unat (x - 1) = unat x - 1"
  using assms by (simp add: unat_minus_one)

lemma unat_pos_iff: "(0 < unat x) = (x \<noteq> (0 :: 'a :: len word))"
  by (simp add: unat_gt_0)

section \<open>Error numbers of the Linux headers\<close>

abbreviation (input) EINTR :: int where "EINTR \<equiv> 4"
abbreviation (input) EBADF :: int where "EBADF \<equiv> 9"
abbreviation (input) ENOMEM :: int where "ENOMEM \<equiv> 12"
abbreviation (input) EFAULT :: int where "EFAULT \<equiv> 14"
abbreviation (input) EINVAL :: int where "EINVAL \<equiv> 22"
abbreviation (input) ENOTTY :: int where "ENOTTY \<equiv> 25"
abbreviation (input) ERESTARTSYS :: int where "ERESTARTSYS \<equiv> 512"

section \<open>Pointers and the heap\<close>

text \<open>
  A pointer returned by an allocator is a number, 0 is \<open>NULL\<close>; the heap maps the start address of
  every live block to its bytes.  A pointer into a block is the block with an offset.
\<close>

type_synonym ptr = nat
type_synonym heap = "ptr \<rightharpoonup> byte list"

abbreviation (input) NULL :: ptr where "NULL \<equiv> 0"

text \<open>Freeing a list of pointers with a partial deallocator, which is undefined on a bad pointer.\<close>

fun free_all :: "(ptr \<Rightarrow> 's \<Rightarrow> 's option) \<Rightarrow> ptr list \<Rightarrow> 's \<Rightarrow> 's option" where
  "free_all fr [] s = Some s"
| "free_all fr (p # ps) s = Option.bind (fr p s) (free_all fr ps)"

lemma free_all_Nil [simp]: "free_all fr [] = Some"
  by (rule ext) simp

lemma free_all_append:
  "free_all fr (ps @ qs) s = Option.bind (free_all fr ps s) (free_all fr qs)"
  by (induction ps arbitrary: s) (auto split: Option.bind_splits)

section \<open>The first occurrence of a separator\<close>

lemma takeWhile_first: "x \<notin> set a \<Longrightarrow> takeWhile (\<lambda>c. c \<noteq> x) (a @ x # b) = a"
  by (induction a) auto

lemma dropWhile_first: "x \<notin> set a \<Longrightarrow> dropWhile (\<lambda>c. c \<noteq> x) (a @ x # b) = x # b"
  by (induction a) auto

section \<open>The last entries of a list\<close>

definition last_n :: "nat \<Rightarrow> 'a list \<Rightarrow> 'a list" where
  "last_n n xs = drop (length xs - n) xs"

lemma length_last_n [simp]: "length (last_n n xs) = min n (length xs)"
  by (simp add: last_n_def)

lemma last_n_short [simp]: "length xs \<le> n \<Longrightarrow> last_n n xs = xs"
  by (simp add: last_n_def)

lemma last_n_Nil [simp]: "last_n n [] = []"
  by (simp add: last_n_def)

lemma last_n_snoc_full:
  "0 < n \<Longrightarrow> length xs = n \<Longrightarrow> last_n n (xs @ [x]) = tl xs @ [x]"
  by (simp add: last_n_def drop_Suc tl_append2 Suc_diff_le)

lemma last_n_last_n_append: "last_n n (last_n n xs @ ys) = last_n n (xs @ ys)"
proof (cases "length xs \<le> n")
  case False
  then have "last_n n xs @ ys = drop (length xs - n) (xs @ ys)"
    by (simp add: last_n_def)
  with False show ?thesis
    by (simp add: last_n_def add.commute)
qed simp

section \<open>Rings\<close>

text \<open>
  A ring of \<open>n\<close> slots read from slot \<open>o\<close> is \<open>rotate o\<close> of the slots.  Storing into the slot \<open>k\<close>
  positions after \<open>o\<close> is storing at position \<open>k\<close> of the rotated list.
\<close>

lemma ring_index_inj [ring_simps]:
  fixes n :: nat
  assumes "i < n" and "k < n"
  shows "(m + i) mod n = (m + k) mod n \<longleftrightarrow> i = k"
proof -
  have "distinct (rotate m [0..<n])" by simp
  then have "rotate m [0..<n] ! i = rotate m [0..<n] ! k \<longleftrightarrow> i = k"
    using assms by (subst nth_eq_iff_index_eq) auto
  then show ?thesis
    using assms by (simp add: nth_rotate)
qed

lemma mod_twice: "a < 2 * n \<Longrightarrow> a mod n = (if a < n then a else a - n)" for a n :: nat
  by (simp add: mod_if)

lemma ring_distance:
  fixes i out n :: nat
  assumes "out < n" and "i < n"
  shows "(out + (i + n - out) mod n) mod n = i"
  using assms by (cases "i < out") (auto simp add: mod_twice)

lemma ring_distance_inv:
  fixes k out n :: nat
  assumes "out < n" and "k < n"
  shows "((out + k) mod n + n - out) mod n = k"
  using assms by (cases "out + k < n") (simp_all add: mod_twice)

lemma ring_meet:
  fixes k out n :: nat
  assumes "out < n" and "k < n"
  shows "(out + Suc k) mod n = out \<longleftrightarrow> Suc k = n"
  using assms by (cases "out + Suc k < n") (auto simp add: mod_twice)

lemma rotate_replicate [simp]: "rotate m (replicate n x) = replicate n x"
  by (rule nth_equalityI) (auto simp: nth_rotate)

lemma sum_list_rotate [simp]: "sum_list (rotate m xs) = sum_list xs"
  for xs :: "'a :: comm_monoid_add list"
proof -
  have "sum_list (rotate1 xs) = sum_list xs" for xs :: "'a list"
    by (cases xs) (simp_all add: add.commute)
  then show ?thesis by (induction m) simp_all
qed

lemma rotate_update [ring_simps]:
  assumes "k < length xs"
  shows "rotate m (xs[(m + k) mod length xs := v]) = (rotate m xs)[k := v]"
proof (rule nth_equalityI)
  fix i
  assume "i < length (rotate m (xs[(m + k) mod length xs := v]))"
  then have i: "i < length xs" by simp
  then have "(m + i) mod length xs < length xs" and "(m + k) mod length xs < length xs"
    by (auto intro: mod_less_divisor)
  then show "rotate m (xs[(m + k) mod length xs := v]) ! i = (rotate m xs)[k := v] ! i"
    using i assms ring_index_inj [OF i assms, of m] by (auto simp add: nth_rotate nth_list_update)
qed simp

end
