(* ===== verification/Lines.thy ===== *)
theory Lines
  imports Prelude
begin

text \<open>
  The abstract view of a log of lines: bytes cut at newlines into complete lines and an incomplete
  rest, and what a write adds to the last ten lines held.  The driver is proved against it.
\<close>

section \<open>Complete lines and the rest\<close>

text \<open>Cutting bytes into complete lines, each with its newline, and the incomplete rest.\<close>

function split_lines :: "byte list \<Rightarrow> byte list list \<times> byte list" where
  "split_lines bs =
     (if nl \<in> set bs
      then let (ls, rest) = split_lines (tl (dropWhile (\<lambda>c. c \<noteq> nl) bs))
           in ((takeWhile (\<lambda>c. c \<noteq> nl) bs @ [nl]) # ls, rest)
      else ([], bs))"
  by pat_completeness auto
termination
proof (relation "measure length")
  fix bs :: "byte list"
  assume "nl \<in> set bs"
  then have "dropWhile (\<lambda>c. c \<noteq> nl) bs \<noteq> []" by (auto simp: dropWhile_eq_Nil_conv)
  then show "(tl (dropWhile (\<lambda>c. c \<noteq> nl) bs), bs) \<in> measure length"
    using length_dropWhile_le [of "\<lambda>c. c \<noteq> nl" bs]
    by (cases "dropWhile (\<lambda>c. c \<noteq> nl) bs") auto
qed simp

declare split_lines.simps [simp del]

lemma split_lines_none: "nl \<notin> set bs \<Longrightarrow> split_lines bs = ([], bs)"
  by (simp add: split_lines.simps)

lemma split_lines_first:
  assumes "nl \<notin> set a"
  shows "split_lines (a @ nl # b) = (let (ls, rest) = split_lines b in ((a @ [nl]) # ls, rest))"
  by (simp add: split_lines.simps [of "a @ nl # b"] takeWhile_first [OF assms]
      dropWhile_first [OF assms])

lemma split_lines_concat: "split_lines bs = (ls, rest) \<Longrightarrow> concat ls @ rest = bs"
proof (induction bs arbitrary: ls rule: split_lines.induct)
  case (1 bs)
  show ?case
  proof (cases "nl \<in> set bs")
    case True
    obtain a b where bs: "bs = a @ nl # b" and a: "nl \<notin> set a"
      using split_list_first [OF True] by blast
    obtain ls' where r: "split_lines b = (ls', rest)" and ls: "ls = (a @ [nl]) # ls'"
      using 1(2) by (auto simp: bs split_lines_first [OF a] Let_def split: prod.splits)
    have "tl (dropWhile (\<lambda>c. c \<noteq> nl) bs) = b"
      by (simp add: bs dropWhile_first [OF a])
    with 1(1) [OF True, of ls'] r have "concat ls' @ rest = b" by simp
    then show ?thesis by (simp add: bs ls)
  next
    case False
    then show ?thesis using 1(2) by (simp add: split_lines_none)
  qed
qed

text \<open>What a write should do to the lines held and the line being collected.\<close>

definition accept_bytes ::
  "byte list list \<Rightarrow> byte list \<Rightarrow> byte list \<Rightarrow> byte list list \<times> byte list" where
  "accept_bytes lines pend bs =
     (let (ls, rest) = split_lines (pend @ bs) in (last_n 10 (lines @ ls), rest))"

lemma accept_none: "nl \<notin> set pend \<Longrightarrow> nl \<notin> set bs \<Longrightarrow> length lines \<le> 10 \<Longrightarrow>
    accept_bytes lines pend bs = (lines, pend @ bs)"
  by (simp add: accept_bytes_def split_lines_none)

lemma accept_one:
  assumes "nl \<notin> set pend" and "nl \<notin> set a" and "nl \<notin> set b"
  shows "accept_bytes lines pend (a @ nl # b) = (last_n 10 (lines @ [pend @ a @ [nl]]), b)"
proof -
  have "split_lines ((pend @ a) @ nl # b) = ([(pend @ a) @ [nl]], b)"
    using assms by (subst split_lines_first) (auto simp: split_lines_none)
  then show ?thesis by (simp add: accept_bytes_def)
qed

lemma split_lines_append:
  "split_lines (xs @ ys) =
     (let (ls, r) = split_lines xs; (ls', r') = split_lines (r @ ys) in (ls @ ls', r'))"
proof (induction xs rule: split_lines.induct)
  case (1 xs)
  show ?case
  proof (cases "nl \<in> set xs")
    case True
    then obtain a b where xs: "xs = a @ nl # b" and a: "nl \<notin> set a"
      using split_list_first by metis
    have "tl (dropWhile (\<lambda>c. c \<noteq> nl) xs) = b" by (simp add: xs dropWhile_first [OF a])
    with 1 [OF True] show ?thesis
      by (simp add: xs split_lines_first [OF a] Let_def split: prod.splits)
  next
    case False
    then show ?thesis by (simp add: split_lines_none [of xs] split: prod.splits)
  qed
qed

lemma split_lines_rest: "split_lines bs = (ls, r) \<Longrightarrow> nl \<notin> set r"
proof (induction bs arbitrary: ls rule: split_lines.induct)
  case (1 bs)
  then show ?case
    by (cases "nl \<in> set bs") (auto simp: split_lines.simps [of bs] split: prod.splits)
qed

lemma accept_append:
  "accept_bytes lines pend xs = (lines1, pend1) \<Longrightarrow>
     accept_bytes lines1 pend1 ys = accept_bytes lines pend (xs @ ys)"
  by (auto simp: accept_bytes_def split_lines_append [of "pend @ xs" ys, simplified]
      last_n_last_n_append split: prod.splits)

lemma accept_rest: "accept_bytes lines pend xs = (lines1, pend1) \<Longrightarrow> nl \<notin> set pend1"
  by (auto simp: accept_bytes_def dest: split_lines_rest split: prod.splits)

end
