(* ===== verification/Interfaces.thy ===== *)
theory Interfaces
  imports Lines
begin

text \<open>
  The interfaces between components, one locale each: the operations the client calls are its
  parameters, the laws the provider promises its assumptions, and the client's lemmas are proved
  once inside it.  Every locale is interpreted on the model of the code in the theory of the
  component that provides it.
\<close>

section \<open>A bounded history that overwrites its oldest entry\<close>

text \<open>
  The contract of \<open>aesd_circular_buffer_add_entry\<close> as its caller sees it: adding to a full
  history evicts the oldest entry and hands its pointer back, so that the caller can free it.
\<close>

fun add_run :: "('b \<Rightarrow> 'e \<Rightarrow> 'r \<times> 'b) \<Rightarrow> 'b \<Rightarrow> 'e list \<Rightarrow> 'r list \<times> 'b" where
  "add_run add b [] = ([], b)"
| "add_run add b (e # es) =
     (let (r, b') = add b e; (rs, b'') = add_run add b' es in (r # rs, b''))"

locale history_log =
  fixes abs :: "'b \<Rightarrow> 'e list"
    and invar :: "'b \<Rightarrow> bool"
    and add :: "'b \<Rightarrow> 'e \<Rightarrow> 'r \<times> 'b"
    and handle :: "'e \<Rightarrow> 'r"
    and none :: 'r
    and cap :: nat
  assumes cap_pos: "0 < cap"
    and abs_bound: "invar b \<Longrightarrow> length (abs b) \<le> cap"
    and add_invar: "invar b \<Longrightarrow> invar (snd (add b e))"
    and add_abs: "invar b \<Longrightarrow>
      abs (snd (add b e)) = (if length (abs b) = cap then tl (abs b) else abs b) @ [e]"
    and add_result: "invar b \<Longrightarrow>
      fst (add b e) = (if length (abs b) = cap then handle (hd (abs b)) else none)"
begin

lemma add_last_n: "invar b \<Longrightarrow> abs (snd (add b e)) = last_n cap (abs b @ [e])"
  using abs_bound [of b] cap_pos
  by (cases "length (abs b) = cap") (simp_all add: add_abs last_n_snoc_full)

lemma run_invar: "invar b \<Longrightarrow> invar (snd (add_run add b es))"
  by (induction es arbitrary: b) (auto simp: split_beta add_invar Let_def)

lemma run_abs: "invar b \<Longrightarrow> abs (snd (add_run add b es)) = last_n cap (abs b @ es)"
proof (induction es arbitrary: b)
  case Nil
  then show ?case by (simp add: abs_bound)
next
  case (Cons e es)
  have "abs (snd (add_run add b (e # es))) = abs (snd (add_run add (snd (add b e)) es))"
    by (simp add: split_beta Let_def)
  also have "\<dots> = last_n cap (last_n cap (abs b @ [e]) @ es)"
    using Cons by (simp add: add_invar add_last_n)
  finally show ?case by (simp add: last_n_last_n_append)
qed

text \<open>
  Nothing is lost and nothing is handed back twice: the results of a run are \<open>none\<close> until the
  history is full and then the handles of exactly the evicted entries, oldest first.
\<close>

lemma run_results:
  "invar b \<Longrightarrow> fst (add_run add b es) =
     replicate (min (length es) (cap - length (abs b))) none
     @ map handle (take (length (abs b) + length es - cap) (abs b @ es))"
proof (induction es arbitrary: b)
  case Nil
  then show ?case using abs_bound [of b] by simp
next
  case (Cons e es)
  let ?b = "snd (add b e)"
  have split: "fst (add_run add b (e # es)) = fst (add b e) # fst (add_run add ?b es)"
    by (simp add: split_beta Let_def)
  have IH: "fst (add_run add ?b es) =
     replicate (min (length es) (cap - length (abs ?b))) none
     @ map handle (take (length (abs ?b) + length es - cap) (abs ?b @ es))"
    using Cons by (simp add: add_invar)
  show ?case
  proof (cases "length (abs b) = cap")
    case True
    then obtain x xs where x: "abs b = x # xs"
      using cap_pos by (cases "abs b") auto
    show ?thesis
      using True x Cons.prems unfolding split IH by (simp add: add_abs add_result)
  next
    case False
    then have less: "length (abs b) < cap"
      using abs_bound [OF Cons.prems] by simp
    then have "cap - length (abs b) = Suc (cap - Suc (length (abs b)))" by simp
    with False less show ?thesis
      using Cons.prems unfolding split IH by (simp add: add_abs add_result)
  qed
qed

end

section \<open>A log that is written in pieces\<close>

text \<open>
  The contract of the driver's write as a user program sees it.  A piece with at most one newline
  is either refused or taken as a whole; the log then holds the last ten complete lines of
  everything written, and the incomplete line.
\<close>

fun send_all :: "(byte list \<Rightarrow> 's \<Rightarrow> (int \<times> 's) option) \<Rightarrow> byte list list \<Rightarrow> 's \<Rightarrow> (bool \<times> 's) option" where
  "send_all send [] s = Some (True, s)"
| "send_all send (b # bs) s =
     Option.bind (send b s) (\<lambda>(r, s'). if r < 0 then Some (False, s') else send_all send bs s')"

locale line_log =
  fixes rep :: "'s \<Rightarrow> byte list list \<Rightarrow> byte list \<Rightarrow> bool"
    and send :: "byte list \<Rightarrow> 's \<Rightarrow> (int \<times> 's) option"
  assumes send_accepts: "rep s lines pend \<Longrightarrow> count_list bs nl \<le> 1 \<Longrightarrow> length bs < 2 ^ 64 \<Longrightarrow>
      accept_bytes lines pend bs = (lines', pend') \<Longrightarrow>
      \<exists>r s'. send bs s = Some (r, s') \<and> (r < 0 \<or> r = int (length bs) \<and> rep s' lines' pend')"
    and rep_bound: "rep s lines pend \<Longrightarrow> length lines \<le> 10"
    and rep_pend: "rep s lines pend \<Longrightarrow> nl \<notin> set pend"
begin

lemma send_all_accepts:
  assumes "rep s lines pend" and "\<forall>b\<in>set bs. count_list b nl \<le> 1 \<and> length b < 2 ^ 64"
    and "accept_bytes lines pend (concat bs) = (lines', pend')"
  shows "\<exists>ok s'. send_all send bs s = Some (ok, s') \<and> (ok \<longrightarrow> rep s' lines' pend')"
  using assms
proof (induction bs arbitrary: s lines pend)
  case Nil
  then show ?case
    using accept_none [OF rep_pend [OF Nil(1)], of "[]" lines] rep_bound by auto
next
  case (Cons b bs)
  obtain lines1 pend1 where acc: "accept_bytes lines pend b = (lines1, pend1)" by fastforce
  obtain r s1 where b: "send b s = Some (r, s1)"
    and r: "r < 0 \<or> r = int (length b) \<and> rep s1 lines1 pend1"
    using send_accepts [OF Cons(2) _ _ acc] Cons(3) by auto
  show ?case
  proof (cases "r < 0")
    case True
    then show ?thesis using b by auto
  next
    case False
    with r have "rep s1 lines1 pend1" by simp
    moreover have "accept_bytes lines1 pend1 (concat bs) = (lines', pend')"
      using Cons(4) by (simp add: accept_append [OF acc])
    ultimately show ?thesis using Cons(1) [of s1 lines1 pend1] Cons(3) b False by auto
  qed
qed

end

section \<open>A stream that is read in pieces\<close>

text \<open>
  The contract of a blocking \<open>read\<close> as a loop over it sees it.  A read of a positive number of
  bytes returns some next bytes of the stream, or 0 at its end, or -1 with \<open>errno\<close>; after
  \<open>EINTR\<close> nothing was consumed, and interruptions run out; after any other error the state is
  \<open>bad\<close>.
\<close>

locale byte_source =
  fixes src :: "'s \<Rightarrow> byte list \<Rightarrow> bool"
    and intr :: "'s \<Rightarrow> nat"
    and bad :: "'s \<Rightarrow> bool"
    and read :: "nat \<Rightarrow> 's \<Rightarrow> (int \<times> int \<times> byte list \<times> 's) option"
  assumes read_step: "src s rest \<Longrightarrow> 0 < n \<Longrightarrow> n < 2 ^ 31 \<Longrightarrow> \<exists>r e bs s'. read n s = Some (r, e, bs, s') \<and>
    (r = -1 \<and> (if e = EINTR then src s' rest \<and> intr s' < intr s else bad s') \<or>
     r = 0 \<and> rest = [] \<or>
     0 < r \<and> r \<le> int n \<and> nat r \<le> length rest \<and> bs = take (nat r) rest \<and>
       src s' (drop (nat r) rest) \<and> intr s' \<le> intr s)"

section \<open>A stream that is written in pieces\<close>

text \<open>
  The contract of a blocking \<open>write\<close> or \<open>send\<close>: a nonempty piece that \<open>fits\<close> is taken up to some
  positive length, or refused with -1 and \<open>errno\<close>; after \<open>EINTR\<close> nothing was taken, and
  interruptions run out.  \<open>snk s acc\<close> says that \<open>acc\<close> is what the sink has taken.
\<close>

locale byte_sink =
  fixes snk :: "'s \<Rightarrow> byte list \<Rightarrow> bool"
    and intr :: "'s \<Rightarrow> nat"
    and bad :: "'s \<Rightarrow> bool"
    and fits :: "byte list \<Rightarrow> bool"
    and put :: "byte list \<Rightarrow> 's \<Rightarrow> (int \<times> int \<times> 's) option"
  assumes put_step: "snk s acc \<Longrightarrow> fits bs \<Longrightarrow> bs \<noteq> [] \<Longrightarrow> length bs < 2 ^ 31 \<Longrightarrow>
      \<exists>r e s'. put bs s = Some (r, e, s') \<and>
        (r = -1 \<and> (if e = EINTR then snk s' acc \<and> intr s' < intr s else bad s') \<or>
         0 < r \<and> nat r \<le> length bs \<and> snk s' (acc @ take (nat r) bs) \<and> intr s' \<le> intr s)"
    and fits_drop: "fits bs \<Longrightarrow> fits (drop n bs)"

text \<open>
  Reading from one and writing to the other: neither disturbs the other's view, and a failed write
  counts as an error whatever its cause, because the copying loop does not retry it.
\<close>

locale byte_copy =
  source: byte_source src intr bad read + sink: byte_sink snk intr bad fits put
  for src :: "'s \<Rightarrow> byte list \<Rightarrow> bool" and intr :: "'s \<Rightarrow> nat" and bad :: "'s \<Rightarrow> bool"
    and read :: "nat \<Rightarrow> 's \<Rightarrow> (int \<times> int \<times> byte list \<times> 's) option"
    and snk :: "'s \<Rightarrow> byte list \<Rightarrow> bool" and fits :: "byte list \<Rightarrow> bool"
    and put :: "byte list \<Rightarrow> 's \<Rightarrow> (int \<times> int \<times> 's) option" +
  assumes read_keeps: "snk s acc \<Longrightarrow> 0 < n \<Longrightarrow> n < 2 ^ 31 \<Longrightarrow> read n s = Some (r, e, bs, s') \<Longrightarrow> snk s' acc"
    and put_keeps: "src s rest \<Longrightarrow> bs \<noteq> [] \<Longrightarrow> length bs < 2 ^ 31 \<Longrightarrow> put bs s = Some (r, e, s') \<Longrightarrow> src s' rest"
    and put_bad: "snk s acc \<Longrightarrow> bs \<noteq> [] \<Longrightarrow> length bs < 2 ^ 31 \<Longrightarrow> put bs s = Some (-1, e, s') \<Longrightarrow> bad s'"
    and fits_all: "fits bs"

section \<open>A bounded first-in first-out queue\<close>

text \<open>
  The contract of the timestamp queue between the alarm handler and the threads that log: a full
  queue refuses, an empty one has nothing to give, and no element is lost, doubled or reordered.
\<close>

locale bounded_fifo =
  fixes abs :: "'q \<Rightarrow> 'a list"
    and invar :: "'q \<Rightarrow> bool"
    and good :: "'a \<Rightarrow> bool"
    and enq :: "'q \<Rightarrow> 'a \<Rightarrow> bool \<times> 'q"
    and deq :: "'q \<Rightarrow> 'a option \<times> 'q"
    and cap :: nat
  assumes enq_step: "invar q \<Longrightarrow> good x \<Longrightarrow> enq q x = (ok, q') \<Longrightarrow>
      invar q' \<and> (if length (abs q) < cap then ok \<and> abs q' = abs q @ [x] else \<not> ok \<and> abs q' = abs q)"
    and deq_step: "invar q \<Longrightarrow> deq q = (r, q') \<Longrightarrow> invar q' \<and>
      (case abs q of [] \<Rightarrow> r = None \<and> abs q' = [] | x # xs \<Rightarrow> r = Some x \<and> abs q' = xs)"
    and abs_bound: "invar q \<Longrightarrow> length (abs q) \<le> cap"
begin

text \<open>What is accepted goes to the back, what comes out was at the front.\<close>

lemma enq_fifo:
  assumes "invar q" and "good x" and "enq q x = (ok, q')"
  shows "invar q' \<and> abs q' = abs q @ (if ok then [x] else [])"
  using enq_step [OF assms] by (auto split: if_splits)

lemma deq_fifo:
  assumes "invar q" and "deq q = (r, q')"
  shows "invar q' \<and> abs q = (case r of None \<Rightarrow> [] | Some x \<Rightarrow> [x]) @ abs q'"
  using deq_step [OF assms] by (auto split: list.splits)

end

section \<open>A list of nodes that is edited while it is walked\<close>

text \<open>
  The contract of the tail queue as the server uses it: nodes are appended, removed wherever they
  are, and the loop reads a node's successor before its body may remove the node.
\<close>

partial_function (option) foreach_safe ::
  "('n \<Rightarrow> 's \<Rightarrow> 'n option option) \<Rightarrow> ('n \<Rightarrow> 's \<Rightarrow> 's option) \<Rightarrow> 'n option \<Rightarrow> 's \<Rightarrow> 's option" where
  "foreach_safe next_of body var s =
     (case var of
        None \<Rightarrow> Some s
      | Some v \<Rightarrow> Option.bind (next_of v s) (\<lambda>tvar.
          Option.bind (body v s) (\<lambda>s1. foreach_safe next_of body tvar s1)))"

declare foreach_safe.simps [code]

definition head_of :: "'n list \<Rightarrow> 'n option" where
  "head_of ns = (case ns of [] \<Rightarrow> None | n # _ \<Rightarrow> Some n)"

lemma head_of_simps [simp]: "head_of [] = None" "head_of (n # ns) = Some n"
  by (simp_all add: head_of_def)

locale node_list =
  fixes nodes :: "'q \<Rightarrow> 'n list \<Rightarrow> bool"
    and allocated :: "'q \<Rightarrow> 'n set"
    and first :: "'q \<Rightarrow> 'n option"
    and succ_of :: "'n \<Rightarrow> 'q \<Rightarrow> 'n option option"
    and insert_tail :: "'n \<Rightarrow> 'q \<Rightarrow> 'q option"
    and remove :: "'n \<Rightarrow> 'q \<Rightarrow> 'q option"
  assumes nodes_wf: "nodes q ns \<Longrightarrow> distinct ns \<and> set ns \<subseteq> allocated q"
    and first_law: "nodes q ns \<Longrightarrow> first q = head_of ns"
    and next_law: "nodes q (xs @ n # ys) \<Longrightarrow> succ_of n q = Some (head_of ys)"
    and insert_law: "nodes q ns \<Longrightarrow> n \<notin> set ns \<Longrightarrow> n \<in> allocated q \<Longrightarrow>
      \<exists>q'. insert_tail n q = Some q' \<and> nodes q' (ns @ [n]) \<and> allocated q' = allocated q"
    and remove_law: "nodes q (xs @ n # ys) \<Longrightarrow>
      \<exists>q'. remove n q = Some q' \<and> nodes q' (xs @ ys) \<and> allocated q' = allocated q"
begin

text \<open>
  The loop over a state with the queue inside it.  \<open>J s xs ys\<close> says that \<open>ys\<close> are still to visit and
  \<open>xs\<close> are the visited ones that are still in the queue.
\<close>

lemma foreach_safe_inv:
  assumes queue: "\<And>s xs ys. J s xs ys \<Longrightarrow> nodes (queue s) (xs @ ys)"
    and body: "\<And>s xs n ys. J s xs (n # ys) \<Longrightarrow>
      \<exists>s'. body n s = Some s' \<and> (if keep n then J s' (xs @ [n]) ys else J s' xs ys)"
  shows "J s xs ys \<Longrightarrow>
    \<exists>s'. foreach_safe (\<lambda>n s. succ_of n (queue s)) body (head_of ys) s = Some s' \<and> J s' (xs @ filter keep ys) []"
proof (induction ys arbitrary: s xs)
  case Nil
  then show ?case by (simp add: foreach_safe.simps)
next
  case (Cons n ys)
  obtain s1 where b: "body n s = Some s1" and J: "J s1 (if keep n then xs @ [n] else xs) ys"
    using body [OF Cons.prems] by (auto split: if_splits)
  have "succ_of n (queue s) = Some (head_of ys)" by (rule next_law [OF queue [OF Cons.prems]])
  then show ?case using Cons.IH [OF J] b by (auto simp: foreach_safe.simps split: if_splits)
qed

end

end
