(* ===== verification/SocketIo.thy ===== *)
theory SocketIo
  imports Interfaces
begin

text \<open>
  The transfer loops of the socket server and of the writer utility: \<open>dump_content\<close> and
  \<open>echo_file_socket\<close> of src/server/aesdsocket.c.  The system calls they loop over are parameters;
  a call gives its result, \<open>errno\<close> and the new state, and \<open>None\<close> if the callee crashes.  The loops
  may run forever in principle, so they are partial functions; inside the locales they are proved
  to return.
\<close>

section \<open>Writing everything\<close>

text \<open>
  \<open>dump_content(fd, string, write_len)\<close>: the string is the memory the pointer gives access to.
\<close>

partial_function (option) dump_content ::
  "(byte list \<Rightarrow> 's \<Rightarrow> (int \<times> int \<times> 's) option) \<Rightarrow> byte list \<Rightarrow> int \<Rightarrow> 's \<Rightarrow> (int \<times> 's) option" where
  "dump_content wr string write_len s =
     (if write_len = 0 then Some (0, s)
      else Option.bind (wr (take (nat write_len) string) s) (\<lambda>(ret, errno, s1).
        if ret = 0 then Some (0, s1)
        else if ret = -1
        then if errno = EINTR then dump_content wr string write_len s1 else Some (-1, s1)
        else dump_content wr (drop (nat ret) string) (write_len - ret) s1))"

declare dump_content.simps [code]

section \<open>Copying a file to a socket\<close>

definition BUF_SIZE_UNIT :: nat where
  "BUF_SIZE_UNIT = 1024"

text \<open>The inner loop: send the bytes read; -1 if a \<open>send\<close> fails.\<close>

partial_function (option) send_loop ::
  "(byte list \<Rightarrow> 's \<Rightarrow> (int \<times> int \<times> 's) option) \<Rightarrow> byte list \<Rightarrow> 's \<Rightarrow> (int \<times> 's) option" where
  "send_loop snd_call bytes s =
     (if bytes = [] then Some (0, s)
      else Option.bind (snd_call bytes s) (\<lambda>(num_bytes_sent, errno, s1).
        if num_bytes_sent = -1 then Some (-1, s1)
        else send_loop snd_call (drop (nat num_bytes_sent) bytes) s1))"

declare send_loop.simps [code]

partial_function (option) echo_file_socket ::
  "(nat \<Rightarrow> 's \<Rightarrow> (int \<times> int \<times> byte list \<times> 's) option) \<Rightarrow>
   (byte list \<Rightarrow> 's \<Rightarrow> (int \<times> int \<times> 's) option) \<Rightarrow> 's \<Rightarrow> (int \<times> 's) option" where
  "echo_file_socket rd snd_call s =
     Option.bind (rd BUF_SIZE_UNIT s) (\<lambda>(ret, errno, bytes, s1).
       if ret = 0 then Some (0, s1)
       else if ret = -1
       then if errno = EINTR then echo_file_socket rd snd_call s1 else Some (-1, s1)
       else Option.bind (send_loop snd_call bytes s1) (\<lambda>(r, s2).
         if r = -1 then Some (-1, s2) else echo_file_socket rd snd_call s2))"

declare echo_file_socket.simps [code]

section \<open>They return, and transfer everything\<close>

context byte_sink
begin

text \<open>
  \<open>dump_content\<close> always returns; when it returns 0 the sink has taken the whole string, once, and
  otherwise a write has failed.
\<close>

lemma dump_content_returns:
  assumes "snk s acc" and "fits (take n string)" and "n \<le> length string" and "n < 2 ^ 31"
  shows "\<exists>r s'. dump_content put string (int n) s = Some (r, s') \<and>
    (r = 0 \<and> snk s' (acc @ take n string) \<or> r = -1 \<and> bad s')"
  using assms
proof (induction "n + intr s" arbitrary: n string s acc rule: less_induct)
  case less
  show ?case
  proof (cases "n = 0")
    case True
    then show ?thesis using less.prems by (simp add: dump_content.simps)
  next
    case False
    then have ne: "take n string \<noteq> []" using less.prems by (cases string) auto
    have len: "length (take n string) = n" using less.prems by simp
    obtain r e s1 where put: "put (take n string) s = Some (r, e, s1)"
      and r: "r = -1 \<and> (if e = EINTR then snk s1 acc \<and> intr s1 < intr s else bad s1) \<or>
         0 < r \<and> nat r \<le> n \<and> snk s1 (acc @ take (nat r) string) \<and> intr s1 \<le> intr s"
      using put_step [OF less.prems(1,2) ne] less.prems(4) unfolding len
      by (fastforce simp: min.absorb1)
    have step: "dump_content put string (int n) s =
        (if r = 0 then Some (0, s1)
         else if r = -1 then if e = EINTR then dump_content put string (int n) s1 else Some (-1, s1)
         else dump_content put (drop (nat r) string) (int n - r) s1)"
      using put False by (simp add: dump_content.simps [of put string "int n"])
    show ?thesis
    proof (cases "r = -1")
      case r1: True
      show ?thesis
      proof (cases "e = EINTR")
        case True
        with r r1 have "snk s1 acc" and "intr s1 < intr s" by auto
        then show ?thesis
          using less.hyps [of n s1 acc string] less.prems step r1 True by fastforce
      qed (use step r1 r in simp)
    next
      case ok: False
      with r have pos: "0 < r" "nat r \<le> n" and s1: "snk s1 (acc @ take (nat r) string)" "intr s1 \<le> intr s"
        by auto
      have "int n - r = int (n - nat r)" using pos by simp
      then have run: "dump_content put string (int n) s = dump_content put (drop (nat r) string) (int (n - nat r)) s1"
        using step pos by simp
      have "fits (take (n - nat r) (drop (nat r) string))"
        using fits_drop [OF less.prems(2), of "nat r"] pos by (simp add: drop_take)
      moreover have "n - nat r + intr s1 < n + intr s" using pos s1 by linarith
      moreover have "n - nat r \<le> length (drop (nat r) string)" "n - nat r < 2 ^ 31"
        using less.prems(3,4) by auto
      ultimately obtain r' s' where "dump_content put (drop (nat r) string) (int (n - nat r)) s1 = Some (r', s')"
        and "r' = 0 \<and> snk s' ((acc @ take (nat r) string) @ take (n - nat r) (drop (nat r) string)) \<or>
          r' = -1 \<and> bad s'"
        using less.hyps [OF _ s1(1)] by blast
      moreover have "(acc @ take (nat r) string) @ take (n - nat r) (drop (nat r) string) = acc @ take n string"
        using pos by (metis append.assoc take_add le_add_diff_inverse)
      ultimately show ?thesis using run by auto
    qed
  qed
qed

text \<open>The same for the sending loop; what every call keeps (\<open>P\<close>) the loop keeps.\<close>

lemma send_loop_returns:
  assumes "snk s acc" and "fits bs" and "length bs < 2 ^ 31" and "P s"
    and keeps: "\<And>bs s r e s'. P s \<Longrightarrow> bs \<noteq> [] \<Longrightarrow> length bs < 2 ^ 31 \<Longrightarrow> put bs s = Some (r, e, s') \<Longrightarrow> P s'"
    and err: "\<And>bs s e s' acc. snk s acc \<Longrightarrow> bs \<noteq> [] \<Longrightarrow> length bs < 2 ^ 31 \<Longrightarrow>
      put bs s = Some (-1, e, s') \<Longrightarrow> bad s'"
  shows "\<exists>r s'. send_loop put bs s = Some (r, s') \<and> P s' \<and>
    (r = 0 \<and> snk s' (acc @ bs) \<and> intr s' \<le> intr s \<or> r = -1 \<and> bad s')"
  using assms(1-4)
proof (induction "length bs" arbitrary: bs s acc rule: less_induct)
  case less
  show ?case
  proof (cases "bs = []")
    case True
    then show ?thesis using less.prems by (simp add: send_loop.simps)
  next
    case False
    then obtain r e s1 where put: "put bs s = Some (r, e, s1)"
      and r: "r = -1 \<or> 0 < r \<and> nat r \<le> length bs \<and> snk s1 (acc @ take (nat r) bs) \<and> intr s1 \<le> intr s"
      using put_step [OF less.prems(1,2) _ less.prems(3)] by blast
    have P1: "P s1" by (rule keeps [OF less.prems(4) False less.prems(3) put])
    show ?thesis
    proof (cases "r = -1")
      case True
      then show ?thesis
        using put False P1 err [OF less.prems(1) False less.prems(3)] by (simp add: send_loop.simps [of put bs])
    next
      case ok: False
      with r have "0 < r" "nat r \<le> length bs" and s1: "snk s1 (acc @ take (nat r) bs)" "intr s1 \<le> intr s"
        by auto
      have "length (drop (nat r) bs) < length bs" "length (drop (nat r) bs) < 2 ^ 31"
        using \<open>0 < r\<close> False less.prems(3) by auto
      then obtain r' s' where "send_loop put (drop (nat r) bs) s1 = Some (r', s')"
        and "P s'" and "r' = 0 \<and> snk s' ((acc @ take (nat r) bs) @ drop (nat r) bs) \<and> intr s' \<le> intr s1 \<or>
          r' = -1 \<and> bad s'"
        using less.hyps [OF _ s1(1) fits_drop [OF less.prems(2)] _ P1] by blast
      then show ?thesis
        using put ok False s1 by (auto simp: send_loop.simps [of put bs])
    qed
  qed
qed

end

context byte_copy
begin

text \<open>
  \<open>echo_file_socket\<close> always returns; when it returns 0 the socket has got the rest of the file, and
  otherwise a call has failed.
\<close>

lemma echo_returns:
  assumes "src s rest" and "snk s acc"
  shows "\<exists>r s'. echo_file_socket read put s = Some (r, s') \<and>
    (r = 0 \<and> snk s' (acc @ rest) \<or> r = -1 \<and> bad s')"
  using assms
proof (induction "length rest + intr s" arbitrary: rest s acc rule: less_induct)
  case less
  obtain r e bs s1 where rd: "read BUF_SIZE_UNIT s = Some (r, e, bs, s1)"
    and r: "r = -1 \<and> (if e = EINTR then src s1 rest \<and> intr s1 < intr s else bad s1) \<or> r = 0 \<and> rest = [] \<or>
      0 < r \<and> r \<le> int BUF_SIZE_UNIT \<and> nat r \<le> length rest \<and> bs = take (nat r) rest \<and>
      src s1 (drop (nat r) rest) \<and> intr s1 \<le> intr s"
    using source.read_step [OF less.prems(1), of BUF_SIZE_UNIT] by (auto simp: BUF_SIZE_UNIT_def)
  have s1: "snk s1 acc" by (rule read_keeps [OF less.prems(2) _ _ rd]) (simp_all add: BUF_SIZE_UNIT_def)
  from r show ?case
  proof (elim disjE conjE)
    assume "r = -1" and e: "if e = EINTR then src s1 rest \<and> intr s1 < intr s else bad s1"
    then show ?thesis
      using less.hyps [of rest s1 acc] s1 rd
      by (cases "e = EINTR") (auto simp: echo_file_socket.simps [of read put s])
  next
    assume "r = 0" and "rest = []"
    then show ?thesis using rd s1 by (simp add: echo_file_socket.simps [of read put s])
  next
    assume pos: "0 < r" "nat r \<le> length rest" and bs: "bs = take (nat r) rest"
      and src: "src s1 (drop (nat r) rest)" "intr s1 \<le> intr s" and small: "r \<le> int BUF_SIZE_UNIT"
    have "length bs < 2 ^ 31" using small pos bs by (simp add: BUF_SIZE_UNIT_def)
    then obtain q s2 where send: "send_loop put bs s1 = Some (q, s2)"
      and src2: "src s2 (drop (nat r) rest)"
      and q: "q = 0 \<and> snk s2 (acc @ bs) \<and> intr s2 \<le> intr s1 \<or> q = -1 \<and> bad s2"
      using sink.send_loop_returns [OF s1 fits_all, of bs "\<lambda>s. src s (drop (nat r) rest)"] src(1)
        put_keeps put_bad by blast
    have unfold: "echo_file_socket read put s = (if q = -1 then Some (-1, s2) else echo_file_socket read put s2)"
      using rd pos send by (simp add: echo_file_socket.simps [of read put s])
    show ?thesis
    proof (cases "q = -1")
      case False
      with q src2 have s2: "snk s2 (acc @ bs)" "intr s2 \<le> intr s1" "src s2 (drop (nat r) rest)" by auto
      have "length (drop (nat r) rest) + intr s2 < length rest + intr s"
        using s2(2) src(2) pos by simp
      from less.hyps [OF this s2(3,1)] show ?thesis
        using bs unfold False by simp
    qed (use q unfold in simp)
  qed
qed

end

section \<open>A file\<close>

text \<open>
  \<open>write(2)\<close> on a file, as documented: it takes some of the bytes asked for, or is interrupted having
  taken none, or fails; \<open>content\<close> is what has been written, and \<open>failed\<close> records a failure.
\<close>

definition write_ok ::
  "(byte list \<Rightarrow> 's \<Rightarrow> (int \<times> int \<times> 's) option) \<Rightarrow> ('s \<Rightarrow> byte list) \<Rightarrow> ('s \<Rightarrow> nat) \<Rightarrow> ('s \<Rightarrow> bool) \<Rightarrow> bool" where
  "write_ok wr content pending failed \<longleftrightarrow> (\<forall>bs s. bs \<noteq> [] \<longrightarrow> length bs < 2 ^ 31 \<longrightarrow>
     (\<exists>r e s'. wr bs s = Some (r, e, s') \<and>
        (r = -1 \<and> (if e = EINTR then content s' = content s \<and> pending s' < pending s else failed s') \<or>
         0 < r \<and> nat r \<le> length bs \<and> content s' = content s @ take (nat r) bs \<and> pending s' \<le> pending s)))"

interpretation file_sink: byte_sink
  "\<lambda>s acc. write_ok wr content pending failed \<and> content s = c0 @ acc" pending failed "\<lambda>_. True" wr
  for wr content pending failed c0
proof
  fix s acc and bs :: "byte list"
  assume w: "write_ok wr content pending failed \<and> content s = c0 @ acc" and bs: "bs \<noteq> []" "length bs < 2 ^ 31"
  then obtain r e s' where "wr bs s = Some (r, e, s')"
    and "r = -1 \<and> (if e = EINTR then content s' = content s \<and> pending s' < pending s else failed s') \<or>
         0 < r \<and> nat r \<le> length bs \<and> content s' = content s @ take (nat r) bs \<and> pending s' \<le> pending s"
    unfolding write_ok_def by blast
  with w show "\<exists>r e s'. wr bs s = Some (r, e, s') \<and>
      (r = -1 \<and> (if e = EINTR then (write_ok wr content pending failed \<and> content s' = c0 @ acc) \<and> pending s' < pending s
         else failed s') \<or>
       0 < r \<and> nat r \<le> length bs \<and> (write_ok wr content pending failed \<and> content s' = c0 @ acc @ take (nat r) bs) \<and>
       pending s' \<le> pending s)"
    by (cases "e = EINTR") simp_all
qed simp

text \<open>\<open>dump_content\<close> to a file returns, and unless a write failed the file has all of it.\<close>

lemma dump_to_file:
  assumes "write_ok wr content pending failed" and "n \<le> length string" and "n < 2 ^ 31"
  shows "\<exists>r s'. dump_content wr string (int n) s = Some (r, s') \<and>
    (r = 0 \<and> content s' = content s @ take n string \<or> r = -1 \<and> failed s')"
  using file_sink.dump_content_returns [of wr content pending failed s "content s" "[]" n string] assms by auto

end
