(* ===== verification/TimeQueue.thy ===== *)
theory TimeQueue
  imports Interfaces
begin

unbundle bit_operations_syntax

text \<open>
  The timestamp queue of src/server/aesdsocket.c (compiled when the log is a file): the ring of
  eight strings, \<open>nextPtr\<close>, enqueue, dequeue step by step, the alarm handler that formats a time and
  enqueues it, and what happens when it interrupts a dequeue.  A C string is the bytes of its
  array up to the first NUL.
\<close>

section \<open>C strings\<close>

definition NUL :: byte where "NUL = CHR 0x00"

definition c_str :: "byte list \<Rightarrow> byte list" where
  "c_str arr = takeWhile (\<lambda>c. c \<noteq> NUL) arr"

text \<open>\<open>strncpy\<close> into an array that is at least \<open>n\<close> long: copy up to \<open>n\<close> bytes, pad with NULs.\<close>

definition strncpy :: "byte list \<Rightarrow> byte list \<Rightarrow> nat \<Rightarrow> byte list" where
  "strncpy dst src n =
     (let s = take n (c_str src) in s @ replicate (n - length s) NUL @ drop n dst)"

lemma c_str_no_nul: "NUL \<notin> set (c_str arr)"
  by (auto simp: c_str_def dest: set_takeWhileD)

lemma c_str_pad: "NUL \<notin> set s \<Longrightarrow> c_str (s @ NUL # rest) = s"
  by (simp add: c_str_def takeWhile_first)

lemma c_str_id: "NUL \<notin> set s \<Longrightarrow> c_str s = s"
  by (auto simp: c_str_def takeWhile_eq_all_conv)

lemma length_strncpy [simp]: "n \<le> length dst \<Longrightarrow> length (strncpy dst src n) = length dst"
  by (simp add: strncpy_def Let_def)

lemma c_str_strncpy:
  assumes "length (c_str src) < n"
  shows "c_str (strncpy dst src n) = c_str src"
proof -
  have "replicate (n - length (c_str src)) NUL = NUL # replicate (n - length (c_str src) - 1) NUL"
    using assms by (cases "n - length (c_str src)") simp_all
  then show ?thesis
    using assms c_str_pad [OF c_str_no_nul, of src] by (simp add: strncpy_def Let_def)
qed

section \<open>The queue\<close>

definition CIRCULAR_BUF_DEPTH :: u32 where
  "CIRCULAR_BUF_DEPTH = 8"

text \<open>An element \<open>circular_buf_data_t\<close> is its array \<open>time_string\<close> of 100 bytes.\<close>

type_synonym circular_buf_data_t = "byte list"

record circular_buf_metadata_t =
  wptr :: u32
  rptr :: u32
  queue_empty :: bool
  queue_full :: bool
  time_buf :: "circular_buf_data_t list"

definition initialize_circular_buf :: "circular_buf_metadata_t \<Rightarrow> circular_buf_metadata_t" where
  "initialize_circular_buf q = q\<lparr>wptr := 0, rptr := 0, queue_full := False, queue_empty := True\<rparr>"

definition nextPtr :: "u32 \<Rightarrow> u32" where
  "nextPtr p = (p + 1) AND (CIRCULAR_BUF_DEPTH - 1)"

definition enqueue_data_into_circ_buf ::
  "byte list \<Rightarrow> circular_buf_metadata_t \<Rightarrow> int \<times> circular_buf_metadata_t" where
  "enqueue_data_into_circ_buf data q =
     (if queue_full q then (-1, q)
      else let q1 = q\<lparr>time_buf := (time_buf q)[unat (wptr q) := strncpy (time_buf q ! unat (wptr q)) data 80],
                      wptr := nextPtr (wptr q), queue_empty := False\<rparr>
           in (0, if wptr q1 = rptr q1 then q1\<lparr>queue_full := True\<rparr> else q1))"

text \<open>
  \<open>dequeue_data_from_circ_buf\<close> is interruptible: its steps after the test of \<open>queue_empty\<close>, each on the
  array \<open>buf\<close> (at least 80 bytes), the outcome of the test \<open>wptr == rptr\<close>, which is a step of its own, and
  the queue.  Uninterrupted, they run one after the other; the second result is \<open>buf\<close> after the call.
\<close>

definition dequeue_steps ::
  "(byte list \<times> bool \<times> circular_buf_metadata_t \<Rightarrow> byte list \<times> bool \<times> circular_buf_metadata_t) list" where
  "dequeue_steps =
     [\<lambda>(b, t, q). (strncpy b (time_buf q ! unat (rptr q)) 80, t, q),
      \<lambda>(b, t, q). (b, t, q\<lparr>rptr := nextPtr (rptr q)\<rparr>),
      \<lambda>(b, t, q). (b, t, q\<lparr>queue_full := False\<rparr>),
      \<lambda>(b, t, q). (b, wptr q = rptr q, q),
      \<lambda>(b, t, q). (b, t, if t then q\<lparr>queue_empty := True\<rparr> else q)]"

definition dequeue_data_from_circ_buf ::
  "byte list \<Rightarrow> circular_buf_metadata_t \<Rightarrow> int \<times> byte list \<times> circular_buf_metadata_t" where
  "dequeue_data_from_circ_buf buf q =
     (if queue_empty q then (-1, buf, q)
      else let (b, t, q1) = fold (\<lambda>f. f) dequeue_steps (buf, False, q) in (0, b, q1))"

text \<open>
  The same call when the alarm handler enqueues \<open>data\<close> after \<open>i\<close> of these steps (after the test of
  \<open>queue_empty\<close> when that ends the call): what the enqueue returns, and what the dequeue does.
\<close>

definition dequeue_interrupted :: "nat \<Rightarrow> byte list \<Rightarrow> byte list \<Rightarrow> circular_buf_metadata_t \<Rightarrow>
    int \<times> int \<times> byte list \<times> circular_buf_metadata_t" where
  "dequeue_interrupted i data buf q =
     (if queue_empty q then let (e, q1) = enqueue_data_into_circ_buf data q in (e, -1, buf, q1)
      else let (b, t, q1) = fold (\<lambda>f. f) (take i dequeue_steps) (buf, False, q);
               (e, q2) = enqueue_data_into_circ_buf data q1;
               (b, t, q3) = fold (\<lambda>f. f) (drop i dequeue_steps) (b, t, q2)
           in (e, 0, b, q3))"

lemma dequeue_data: "dequeue_data_from_circ_buf buf q =
     (if queue_empty q then (-1, buf, q)
      else let b = strncpy buf (time_buf q ! unat (rptr q)) 80;
               q1 = q\<lparr>rptr := nextPtr (rptr q), queue_full := False\<rparr>
           in (0, b, if wptr q1 = rptr q1 then q1\<lparr>queue_empty := True\<rparr> else q1))"
  by (simp add: dequeue_data_from_circ_buf_def dequeue_steps_def Let_def)

section \<open>The alarm handler\<close>

text \<open>\<open>sprintf\<close> with \<open>%d\<close> and \<open>%02d\<close>.\<close>

fun digits :: "nat \<Rightarrow> byte list" where
  "digits n = (if n < 10 then [char_of (48 + n)] else digits (n div 10) @ [char_of (48 + n mod 10)])"

declare digits.simps [simp del]

definition fmt_d :: "int \<Rightarrow> byte list" where
  "fmt_d i = (if i < 0 then CHR ''-'' # digits (nat (- i)) else digits (nat i))"

definition fmt_02d :: "int \<Rightarrow> byte list" where
  "fmt_02d i =
     (let s = fmt_d i in
      if 2 \<le> length s then s else replicate (2 - length s) (CHR ''0'') @ s)"

record tm =
  tm_year :: int
  tm_mon :: int
  tm_mday :: int
  tm_hour :: int
  tm_min :: int
  tm_sec :: int

definition timestamp :: "tm \<Rightarrow> byte list" where
  "timestamp info =
     ''timestamp: '' @ fmt_d (tm_year info + 1900) @ ''/'' @ fmt_02d (tm_mon info + 1) @ ''/'' @
     fmt_02d (tm_mday info) @ '' - '' @ fmt_02d (tm_hour info) @ '':'' @ fmt_02d (tm_min info) @
     '':'' @ fmt_02d (tm_sec info) @ [nl]"

text \<open>
  \<open>info\<close> is what \<open>localtime_r\<close> returned.  The text goes into a buffer of 80 bytes with its NUL:
  \<open>None\<close> if it does not fit.
\<close>

definition alarmhandler :: "tm \<Rightarrow> circular_buf_metadata_t \<Rightarrow> circular_buf_metadata_t option" where
  "alarmhandler info q =
     (if length (timestamp info) < 80
      then Some (snd (enqueue_data_into_circ_buf (timestamp info @ [NUL]) q))
      else None)"

section \<open>The queue as a list\<close>

definition tq_count :: "circular_buf_metadata_t \<Rightarrow> nat" where
  "tq_count q =
     (if queue_full q then 8 else (unat (wptr q) + 8 - unat (rptr q)) mod 8)"

definition tq_ring :: "circular_buf_metadata_t \<Rightarrow> circular_buf_data_t list" where
  "tq_ring q = rotate (unat (rptr q)) (time_buf q)"

definition tq_live :: "circular_buf_metadata_t \<Rightarrow> byte list list" where
  "tq_live q = map c_str (take (tq_count q) (tq_ring q))"

definition tq_inv :: "circular_buf_metadata_t \<Rightarrow> bool" where
  "tq_inv q \<longleftrightarrow>
     length (time_buf q) = 8 \<and> (\<forall>s\<in>set (time_buf q). length s = 100) \<and>
     unat (wptr q) < 8 \<and> unat (rptr q) < 8 \<and>
     (queue_full q \<longrightarrow> wptr q = rptr q \<and> \<not> queue_empty q) \<and>
     (queue_empty q \<longleftrightarrow> wptr q = rptr q \<and> \<not> queue_full q) \<and>
     (\<forall>s\<in>set (tq_live q). length s < 80)"

lemma unat_nextPtr: "unat (nextPtr p) = (unat p + 1) mod 8"
proof -
  have "CIRCULAR_BUF_DEPTH - 1 = mask 3" by (simp add: CIRCULAR_BUF_DEPTH_def mask_numeral)
  then have "nextPtr p = take_bit 3 (p + 1)" by (simp add: nextPtr_def take_bit_eq_mask)
  then have "unat (nextPtr p) = take_bit 3 (unat (p + 1))"
    by (simp only: unsigned_take_bit_eq)
  then have "unat (nextPtr p) = unat (p + 1) mod 8" by (simp add: take_bit_eq_mod)
  also have "unat (p + 1) = (unat p + 1) mod 2 ^ 32" by (simp add: unat_word_ariths)
  also have "(unat p + 1) mod 2 ^ 32 mod 8 = (unat p + 1) mod 8" by (simp add: mod_mod_cancel)
  finally show ?thesis .
qed

lemma ptr_eq: "p = r \<longleftrightarrow> unat p = unat r" for p r :: u32
  by (simp add: word_unat_eq_iff)

lemma tq_count_le: "tq_count q \<le> 8"
proof -
  have "(unat (wptr q) + 8 - unat (rptr q)) mod 8 < 8" by (rule mod_less_divisor) simp
  then show ?thesis by (simp add: tq_count_def)
qed

lemma tq_count_full: "tq_count q = 8 \<longleftrightarrow> queue_full q"
proof -
  have "(unat (wptr q) + 8 - unat (rptr q)) mod 8 < 8" by (rule mod_less_divisor) simp
  then show ?thesis by (auto simp: tq_count_def)
qed

lemma tq_count_empty:
  assumes "tq_inv q"
  shows "tq_count q = 0 \<longleftrightarrow> queue_empty q"
proof -
  have w: "unat (wptr q) < 8" and r: "unat (rptr q) < 8" using assms by (simp_all add: tq_inv_def)
  have "(unat (wptr q) + 8 - unat (rptr q)) mod 8 = 0 \<longleftrightarrow> unat (wptr q) = unat (rptr q)"
  proof
    assume "(unat (wptr q) + 8 - unat (rptr q)) mod 8 = 0"
    with ring_distance [OF r w] show "unat (wptr q) = unat (rptr q)" using r by simp
  qed simp
  then show ?thesis using assms by (auto simp: tq_inv_def tq_count_def ptr_eq)
qed

lemma tq_wptr:
  assumes "tq_inv q"
  shows "unat (wptr q) = (unat (rptr q) + tq_count q) mod 8"
proof -
  have w: "unat (wptr q) < 8" and r: "unat (rptr q) < 8" using assms by (simp_all add: tq_inv_def)
  show ?thesis
    using ring_distance [OF r w] assms r by (auto simp: tq_count_def tq_inv_def)
qed

lemma length_tq_live: "tq_inv q \<Longrightarrow> length (tq_live q) = tq_count q"
  using tq_count_le [of q] by (simp add: tq_live_def tq_ring_def tq_inv_def)

text \<open>Moving a pointer on: how the number of elements changes.\<close>

lemma next_meets:
  assumes r: "r < 8" and k: "k < 8"
  shows "((r + k) mod 8 + 1) mod 8 = r \<longleftrightarrow> Suc k = 8"
proof -
  have "((r + k) mod 8 + 1) mod 8 = (r + Suc k) mod 8" by (simp add: mod_Suc_eq)
  then show ?thesis using ring_meet [OF r k] by simp
qed

lemma enqueue_live:
  assumes inv: "tq_inv q" and room: "\<not> queue_full q" and small: "length (c_str data) < 80"
    and q': "enqueue_data_into_circ_buf data q = (res, q')"
  shows "res = 0 \<and> tq_inv q' \<and> tq_live q' = tq_live q @ [c_str data]"
proof -
  let ?r = "unat (rptr q)" and ?k = "tq_count q" and ?w = "unat (wptr q)"
  let ?s = "strncpy (time_buf q ! ?w) data 80"
  have len: "length (time_buf q) = 8" "\<forall>s\<in>set (time_buf q). length s = 100"
    and r: "?r < 8" and w8: "?w < 8" using inv by (simp_all add: tq_inv_def)
  have k: "?k < 8" using tq_count_le [of q] tq_count_full [of q] room by linarith
  have w: "?w = (?r + ?k) mod 8" by (rule tq_wptr [OF inv])
  have rq: "rptr q' = rptr q" and wq: "wptr q' = nextPtr (wptr q)" and "res = 0"
    and fq: "queue_full q' \<longleftrightarrow> nextPtr (wptr q) = rptr q" and eq: "queue_empty q' = False"
    and tq: "time_buf q' = (time_buf q)[?w := ?s]"
    using q' room by (auto simp: enqueue_data_into_circ_buf_def Let_def split: if_splits)
  have s100: "length ?s = 100" using len w8 by simp
  have meet: "nextPtr (wptr q) = rptr q \<longleftrightarrow> Suc ?k = 8"
    using next_meets [OF r k] w by (simp add: ptr_eq unat_nextPtr)
  have count: "tq_count q' = Suc ?k"
  proof (cases "Suc ?k = 8")
    case False
    then have "(((?r + Suc ?k) mod 8) + 8 - ?r) mod 8 = Suc ?k"
      using k by (intro ring_distance_inv [OF r]) simp
    moreover have "unat (wptr q') = (?r + Suc ?k) mod 8"
      by (simp add: wq unat_nextPtr w mod_Suc_eq)
    moreover have "\<not> queue_full q'" using fq meet False by blast
    ultimately show ?thesis by (simp only: tq_count_def if_False rq)
  qed (use meet fq in \<open>simp add: tq_count_def\<close>)
  have "tq_ring q' = (tq_ring q)[?k := ?s]"
    using rotate_update [of ?k "time_buf q" ?r ?s] len k w by (simp add: tq_ring_def rq tq)
  then have "take (Suc ?k) (tq_ring q') = take ?k (tq_ring q) @ [?s]"
    using k len by (simp add: tq_ring_def take_Suc_conv_app_nth)
  then have live: "tq_live q' = tq_live q @ [c_str data]"
    using c_str_strncpy [OF small] by (simp add: tq_live_def count)
  have "\<forall>s\<in>set (time_buf q'). length s = 100"
    using len s100 by (auto simp: tq dest: set_update_subset_insert [THEN subsetD])
  moreover have "unat (wptr q') < 8" by (simp add: wq unat_nextPtr)
  moreover have "wptr q' = rptr q' \<longleftrightarrow> queue_full q'" using wq rq fq by simp
  ultimately have "tq_inv q'"
    using inv live small r len unfolding tq_inv_def by (simp add: rq tq eq)
  with live \<open>res = 0\<close> show ?thesis by simp
qed

lemma dequeue_live:
  assumes inv: "tq_inv q" and some: "\<not> queue_empty q" and buf: "80 \<le> length buf"
    and q': "dequeue_data_from_circ_buf buf q = (res, b, q')"
  shows "res = 0 \<and> tq_inv q' \<and> tq_live q = c_str b # tq_live q' \<and> length b = length buf"
proof -
  let ?r = "unat (rptr q)" and ?k = "tq_count q" and ?w = "unat (wptr q)"
  have len: "length (time_buf q) = 8" and r: "?r < 8" and w8: "?w < 8"
    using inv by (simp_all add: tq_inv_def)
  have k: "0 < ?k" "?k \<le> 8" using tq_count_empty [OF inv] some tq_count_le by auto
  have w: "?w = (?r + ?k) mod 8" by (rule tq_wptr [OF inv])
  have rq: "rptr q' = nextPtr (rptr q)" and wq: "wptr q' = wptr q" and "res = 0"
    and fq: "queue_full q' = False" and eq: "queue_empty q' \<longleftrightarrow> wptr q = nextPtr (rptr q)"
    and tq: "time_buf q' = time_buf q" and b: "b = strncpy buf (time_buf q ! ?r) 80"
    using q' some by (auto simp: dequeue_data Let_def split: if_splits)
  have r': "unat (rptr q') = (?r + 1) mod 8" by (simp add: rq unat_nextPtr)
  obtain j where j: "?k = Suc j" using k by (cases ?k) auto
  have w': "?w = ((?r + 1) mod 8 + j) mod 8"
    using w j by (metis Suc_eq_plus1 add.assoc add.commute mod_add_left_eq)
  have "tq_count q' = ((((?r + 1) mod 8 + j) mod 8) + 8 - (?r + 1) mod 8) mod 8"
    by (simp only: tq_count_def fq wq r' w' if_False)
  also have "\<dots> = j" using k j by (intro ring_distance_inv) simp_all
  finally have count: "tq_count q' = j" .
  have ring: "tq_ring q = time_buf q ! ?r # butlast (tq_ring q')"
  proof -
    obtain a xs where "rotate ?r (time_buf q) = a # xs"
      using len by (cases "rotate ?r (time_buf q)") auto
    moreover have "rotate ((?r + 1) mod 8) (time_buf q) = rotate1 (rotate ?r (time_buf q))"
      using len by (metis Suc_eq_plus1 rotate_Suc rotate_conv_mod)
    moreover have "rotate ?r (time_buf q) ! 0 = time_buf q ! ?r"
      using len r by (subst nth_rotate) simp_all
    ultimately show ?thesis by (simp add: tq_ring_def tq r')
  qed
  have "length (tq_ring q') = 8" using len by (simp add: tq_ring_def tq)
  then have "take j (butlast (tq_ring q')) = take j (tq_ring q')"
    using j k by (simp add: take_butlast)
  then have live: "tq_live q = c_str (time_buf q ! ?r) # tq_live q'"
    by (simp add: tq_live_def count j ring)
  have small: "length (c_str (time_buf q ! ?r)) < 80"
    using inv live by (simp add: tq_inv_def)
  have "wptr q' = rptr q' \<longleftrightarrow> queue_empty q'" using wq rq eq by simp
  moreover have "unat (rptr q') < 8" by (simp add: r')
  ultimately have "tq_inv q'"
    using inv live unfolding tq_inv_def by (simp add: wq tq fq)
  then show ?thesis
    using live c_str_strncpy [OF small] \<open>res = 0\<close> buf by (simp add: b)
qed

section \<open>The contract\<close>

definition tq_enq :: "circular_buf_metadata_t \<Rightarrow> byte list \<Rightarrow> bool \<times> circular_buf_metadata_t" where
  "tq_enq q s = (let (r, q') = enqueue_data_into_circ_buf (s @ [NUL]) q in (r = 0, q'))"

definition tq_deq :: "circular_buf_metadata_t \<Rightarrow> byte list option \<times> circular_buf_metadata_t" where
  "tq_deq q = (let (r, b, q') = dequeue_data_from_circ_buf (replicate 80 NUL) q
               in (if r = 0 then Some (c_str b) else None, q'))"

definition tq_string :: "byte list \<Rightarrow> bool" where
  "tq_string s \<longleftrightarrow> NUL \<notin> set s \<and> length s < 80"

lemma c_str_terminated: "NUL \<notin> set s \<Longrightarrow> c_str (s @ [NUL]) = s"
  by (rule c_str_pad)

interpretation tq: bounded_fifo tq_live tq_inv tq_string tq_enq tq_deq 8
proof
  fix q s ok q'
  assume inv: "tq_inv q" and s: "tq_string s" and e: "tq_enq q s = (ok, q')"
  obtain res where en: "enqueue_data_into_circ_buf (s @ [NUL]) q = (res, q')" and ok: "ok = (res = 0)"
    using e by (auto simp: tq_enq_def split: prod.splits)
  have str: "c_str (s @ [NUL]) = s" using s by (simp add: tq_string_def c_str_terminated)
  show "tq_inv q' \<and> (if length (tq_live q) < 8 then ok \<and> tq_live q' = tq_live q @ [s]
      else \<not> ok \<and> tq_live q' = tq_live q)"
  proof (cases "queue_full q")
    case True
    then show ?thesis
      using en ok inv tq_count_full [of q] by (auto simp: enqueue_data_into_circ_buf_def length_tq_live)
  next
    case False
    have "length (tq_live q) < 8"
      using False tq_count_full [of q] tq_count_le [of q] by (simp add: length_tq_live [OF inv])
    then show ?thesis
      using enqueue_live [OF inv False _ en] s ok str by (simp add: tq_string_def)
  qed
next
  fix q r q'
  assume inv: "tq_inv q" and d: "tq_deq q = (r, q')"
  obtain res b where de: "dequeue_data_from_circ_buf (replicate 80 NUL) q = (res, b, q')"
    and r: "r = (if res = 0 then Some (c_str b) else None)"
    using d by (auto simp: tq_deq_def split: prod.splits)
  show "tq_inv q' \<and> (case tq_live q of [] \<Rightarrow> r = None \<and> tq_live q' = [] | x # xs \<Rightarrow> r = Some x \<and> tq_live q' = xs)"
  proof (cases "queue_empty q")
    case True
    then have "tq_live q = []"
      using tq_count_empty [OF inv] by (simp add: tq_live_def)
    then show ?thesis using True de r inv by (auto simp: dequeue_data)
  next
    case False
    then show ?thesis using dequeue_live [OF inv False _ de] r by simp
  qed
next
  fix q
  assume "tq_inv q"
  then show "length (tq_live q) \<le> 8" using tq_count_le by (simp add: length_tq_live)
qed

text \<open>At program start the queue is static memory, all zero, and then initialised.\<close>

definition static_queue :: circular_buf_metadata_t where
  "static_queue = \<lparr>wptr = 0, rptr = 0, queue_empty = False, queue_full = False,
     time_buf = replicate 8 (replicate 100 NUL)\<rparr>"

lemma initial_queue: "tq_inv (initialize_circular_buf static_queue)"
  "tq_live (initialize_circular_buf static_queue) = []"
  by (simp_all add: tq_inv_def tq_live_def tq_count_def initialize_circular_buf_def static_queue_def)

section \<open>The handler between the statements of a dequeue\<close>

lemma nextPtr_inj:
  assumes "unat p < 8" and "unat r < 8" and "nextPtr p = nextPtr r"
  shows "p = r"
proof -
  have "(unat p + 1) mod 8 = (unat r + 1) mod 8"
    using arg_cong [OF assms(3), of unat] by (simp only: unat_nextPtr)
  then have "unat p = unat r" using assms(1,2) by (cases "unat p = 7"; cases "unat r = 7") auto
  then show ?thesis by (simp add: ptr_eq)
qed

lemma nextPtr_neq: "unat p < 8 \<Longrightarrow> nextPtr p \<noteq> p"
  using unat_nextPtr [of p] by (auto simp: ptr_eq) presburger

text \<open>Anywhere but before the last test of a full queue, the handler might as well have run before.\<close>

lemma dequeue_interrupted_first:
  assumes inv: "tq_inv q" and some: "\<not> queue_empty q" and i: "i < 3 \<or> i = 3 \<and> \<not> queue_full q"
    and e: "enqueue_data_into_circ_buf data q = (r, q1)"
  shows "dequeue_interrupted i data buf q = (r, dequeue_data_from_circ_buf buf q1)"
proof (cases "queue_full q")
  case True
  with i have "i = 0 \<or> i = 1 \<or> i = 2" by linarith
  then show ?thesis
    using e True some
    by (elim disjE) (simp_all add: dequeue_interrupted_def dequeue_data_from_circ_buf_def dequeue_steps_def
        enqueue_data_into_circ_buf_def)
next
  case False
  have w: "unat (wptr q) < 8" "unat (rptr q) < 8" "length (time_buf q) = 8" using inv by (simp_all add: tq_inv_def)
  have apart: "wptr q \<noteq> rptr q" using inv some False by (simp add: tq_inv_def)
  then have "unat (rptr q) \<noteq> unat (wptr q)" by (simp add: ptr_eq)
  note simps = dequeue_interrupted_def dequeue_data_from_circ_buf_def dequeue_steps_def
    enqueue_data_into_circ_buf_def Let_def
  have n: "nextPtr (wptr q) \<noteq> nextPtr (rptr q)" using nextPtr_inj [OF w(1,2)] apart by blast
  from i have "i = 0 \<or> i = 1 \<or> i = 2 \<or> i = 3" by linarith
  then show ?thesis
    using e False some n \<open>unat (rptr q) \<noteq> unat (wptr q)\<close>
    by (elim disjE) (auto simp: simps split: if_splits)
qed

lemma dequeue_interrupted_last:
  assumes i: "5 \<le> i \<or> i = 4 \<and> wptr q \<noteq> nextPtr (rptr q) \<or> queue_empty q"
    and d: "dequeue_data_from_circ_buf buf q = (r, b, q1)" and e: "enqueue_data_into_circ_buf data q1 = (e, q2)"
  shows "dequeue_interrupted i data buf q = (e, r, b, q2)"
proof (cases "queue_empty q \<or> 5 \<le> i")
  case True
  then show ?thesis
    using d e by (auto simp: dequeue_interrupted_def dequeue_data_from_circ_buf_def dequeue_steps_def Let_def
        split: prod.splits)
next
  case False
  then have "i = 4" "wptr q \<noteq> nextPtr (rptr q)" using i by auto
  then show ?thesis
    using d e False by (auto simp: dequeue_interrupted_def dequeue_data_from_circ_buf_def dequeue_steps_def Let_def
        split: prod.splits)
qed

text \<open>
  Between that test and \<open>queue_empty = true\<close>, after the last string was taken, the handler's string is
  queued, but the queue is then marked empty: it is late, hidden from dequeues until the next alarm.
\<close>

definition tq_late :: "circular_buf_metadata_t \<Rightarrow> bool" where
  "tq_late q \<longleftrightarrow> queue_empty q \<and> tq_inv (q\<lparr>queue_empty := False\<rparr>) \<and> length (tq_live q) = 1"

lemma dequeue_interrupted_late:
  assumes some: "\<not> queue_empty q" and last: "wptr q = nextPtr (rptr q)" and inv: "tq_inv q"
    and d: "dequeue_data_from_circ_buf buf q = (r, b, q1)" and e: "enqueue_data_into_circ_buf data q1 = (e, q2)"
  shows "dequeue_interrupted 4 data buf q = (e, r, b, q2\<lparr>queue_empty := True\<rparr>)"
proof -
  have "\<not> queue_full q" using inv last nextPtr_neq [of "rptr q"] by (auto simp: tq_inv_def)
  then show ?thesis
    using some last d e
    by (auto simp: dequeue_interrupted_def dequeue_data_from_circ_buf_def dequeue_steps_def
        enqueue_data_into_circ_buf_def Let_def)
qed

text \<open>
  Before the last test of a full queue it does harm: the pointers meet again while \<open>queue_full\<close> is already
  false, the handler's string takes the free place and sets \<open>queue_full\<close>, and the test then sets
  \<open>queue_empty\<close> too.  In such a queue no call does anything any more.
\<close>

definition tq_stuck :: "circular_buf_metadata_t \<Rightarrow> bool" where
  "tq_stuck q \<longleftrightarrow> queue_full q \<and> queue_empty q"

lemma dequeue_interrupted_stuck:
  assumes inv: "tq_inv q" and full: "queue_full q" and d: "dequeue_interrupted 3 data buf q = (e, r, b, q')"
  shows "e = 0 \<and> r = 0 \<and> b = strncpy buf (time_buf q ! unat (rptr q)) 80 \<and> tq_stuck q'"
proof -
  have "unat (rptr q) < 8" "wptr q = rptr q" "\<not> queue_empty q" using inv full by (simp_all add: tq_inv_def)
  then show ?thesis
    using d nextPtr_neq [of "rptr q"]
    by (auto simp: dequeue_interrupted_def dequeue_steps_def enqueue_data_into_circ_buf_def Let_def tq_stuck_def)
qed

section \<open>Alarms and dequeues in any order\<close>

text \<open>
  What happens to the queue: the handler enqueues a string, a thread dequeues, or a thread dequeues and
  the handler interrupts it after \<open>i\<close> statements.  A step gives the strings accepted and given out.
\<close>

datatype tq_event = Alarm "byte list" | Dequeue | Dequeue_alarm nat "byte list"

fun tq_step :: "tq_event \<Rightarrow> circular_buf_metadata_t \<Rightarrow> byte list list \<times> byte list list \<times> circular_buf_metadata_t" where
  "tq_step (Alarm s) q =
     (let (e, q1) = enqueue_data_into_circ_buf (s @ [NUL]) q in (if e = 0 then [s] else [], [], q1))"
| "tq_step Dequeue q =
     (let (r, b, q1) = dequeue_data_from_circ_buf (replicate 80 NUL) q
      in ([], if r = 0 then [c_str b] else [], q1))"
| "tq_step (Dequeue_alarm i s) q =
     (let (e, r, b, q1) = dequeue_interrupted i (s @ [NUL]) (replicate 80 NUL) q
      in (if e = 0 then [s] else [], if r = 0 then [c_str b] else [], q1))"

fun tq_run :: "circular_buf_metadata_t \<Rightarrow> tq_event list \<Rightarrow>
    byte list list \<times> byte list list \<times> circular_buf_metadata_t" where
  "tq_run q [] = ([], [], q)"
| "tq_run q (x # xs) =
     (let (a, b, q1) = tq_step x q; (ins, outs, q2) = tq_run q1 xs in (a @ ins, b @ outs, q2))"

fun event_string :: "tq_event \<Rightarrow> bool" where
  "event_string (Alarm s) = tq_string s"
| "event_string Dequeue = True"
| "event_string (Dequeue_alarm i s) = tq_string s"

text \<open>The event that is fatal to the queue.\<close>

fun fatal :: "circular_buf_metadata_t \<Rightarrow> tq_event \<Rightarrow> bool" where
  "fatal q (Dequeue_alarm i s) = (i = 3 \<and> queue_full q)"
| "fatal q x = False"

lemma alarm_step: "tq_step (Alarm s) q = (let (ok, q1) = tq_enq q s in (if ok then [s] else [], [], q1))"
  by (auto simp: tq_enq_def split: prod.splits)

lemma dequeue_step: "tq_step Dequeue q = (let (r, q1) = tq_deq q in ([], case r of None \<Rightarrow> [] | Some x \<Rightarrow> [x], q1))"
  by (auto simp: tq_deq_def split: prod.splits)

lemma alarm_step_fifo:
  assumes "tq_inv q" and "tq_string s" and "tq_step (Alarm s) q = (a, b, q')"
  shows "tq_inv q' \<and> tq_live q @ a = b @ tq_live q'"
proof -
  obtain ok q1 where "tq_enq q s = (ok, q1)" by fastforce
  with assms tq.enq_fifo [OF assms(1,2) this] show ?thesis
    by (auto simp only: alarm_step Let_def prod.case append_Nil)
qed

lemma dequeue_step_fifo:
  assumes "tq_inv q" and "tq_step Dequeue q = (a, b, q')"
  shows "tq_inv q' \<and> tq_live q @ a = b @ tq_live q'"
proof -
  obtain r q1 where "tq_deq q = (r, q1)" by fastforce
  with assms tq.deq_fifo [OF assms(1) this] show ?thesis
    by (auto simp only: dequeue_step Let_def prod.case append_Nil2)
qed

lemma step_two: "tq_run q [x, y] = (a, b, q') \<longleftrightarrow>
    (\<exists>a1 b1 q1 a2 b2. tq_step x q = (a1, b1, q1) \<and> tq_step y q1 = (a2, b2, q') \<and> a = a1 @ a2 \<and> b = b1 @ b2)"
  by (auto split: prod.splits)

text \<open>
  An interrupted dequeue is one of the two orders of the calls, unless it is fatal or makes the string late.
\<close>

definition hides :: "circular_buf_metadata_t \<Rightarrow> nat \<Rightarrow> bool" where
  "hides q i \<longleftrightarrow> i = 4 \<and> \<not> queue_empty q \<and> wptr q = nextPtr (rptr q)"

lemma interrupted_step:
  assumes "tq_inv q" and "\<not> fatal q (Dequeue_alarm i s)" and "\<not> hides q i"
  shows "tq_step (Dequeue_alarm i s) q = tq_run q [Alarm s, Dequeue] \<or>
    tq_step (Dequeue_alarm i s) q = tq_run q [Dequeue, Alarm s]"
proof (cases "4 \<le> i \<or> queue_empty q")
  case True
  then have late: "5 \<le> i \<or> i = 4 \<and> wptr q \<noteq> nextPtr (rptr q) \<or> queue_empty q"
    using assms(3) by (auto simp: hides_def)
  obtain r b q1 where d: "dequeue_data_from_circ_buf (replicate 80 NUL) q = (r, b, q1)" by (metis prod_cases3)
  obtain e q2 where e: "enqueue_data_into_circ_buf (s @ [NUL]) q1 = (e, q2)" by fastforce
  from dequeue_interrupted_last [OF late d e] d e show ?thesis by simp
next
  case False
  with assms(2) have i: "i < 3 \<or> i = 3 \<and> \<not> queue_full q" by auto
  obtain e q1 where e: "enqueue_data_into_circ_buf (s @ [NUL]) q = (e, q1)" by fastforce
  from dequeue_interrupted_first [OF assms(1) _ i e] False e show ?thesis by (simp split: prod.splits)
qed

lemma two_steps_fifo:
  assumes inv: "tq_inv q" and s: "tq_string s" and run: "tq_run q xs = (a, b, q')"
    and xs: "xs = [Alarm s, Dequeue] \<or> xs = [Dequeue, Alarm s]"
  shows "tq_inv q' \<and> tq_live q @ a = b @ tq_live q'"
proof -
  have one: "tq_inv q' \<and> tq_live q @ a = b @ tq_live q'"
    if "tq_inv q" "tq_step x q = (a, b, q')" "x = Alarm s \<or> x = Dequeue" for q x a b q'
    using that alarm_step_fifo [OF _ s] dequeue_step_fifo by metis
  from xs run obtain x y a1 b1 q1 a2 b2 where st: "tq_step x q = (a1, b1, q1)" "tq_step y q1 = (a2, b2, q')"
    and ab: "a = a1 @ a2" "b = b1 @ b2" and xy: "x = Alarm s \<or> x = Dequeue" "y = Alarm s \<or> y = Dequeue"
    unfolding step_two by (elim disjE) (simp only: step_two, blast)+
  from one [OF inv st(1) xy(1)] have q1: "tq_inv q1" "tq_live q @ a1 = b1 @ tq_live q1" by auto
  from one [OF q1(1) st(2) xy(2)] q1(2) show ?thesis by (metis ab append_assoc)
qed

lemma tq_live_flag: "tq_live (q\<lparr>queue_empty := e\<rparr>) = tq_live q"
  by (simp add: tq_live_def tq_count_def tq_ring_def)

lemma hidden_step:
  assumes inv: "tq_inv q" and h: "hides q i" and s: "tq_string s"
    and st: "tq_step (Dequeue_alarm i s) q = (a, b, q')"
  shows "tq_late q' \<and> tq_live q @ a = b @ tq_live q'"
proof -
  have i: "i = 4" and some: "\<not> queue_empty q" and last: "wptr q = nextPtr (rptr q)" using h by (simp_all add: hides_def)
  obtain r c q1 where d: "dequeue_data_from_circ_buf (replicate 80 NUL) q = (r, c, q1)" by (metis prod_cases3)
  obtain e q2 where e: "enqueue_data_into_circ_buf (s @ [NUL]) q1 = (e, q2)" by fastforce
  have q1: "r = 0" "tq_inv q1" "tq_live q = c_str c # tq_live q1"
    using dequeue_live [OF inv some _ d] by simp_all
  have "queue_empty q1" using d some last by (auto simp: dequeue_data Let_def)
  then have "\<not> queue_full q1" "tq_live q1 = []"
    using q1(2) tq_count_empty [OF q1(2)] by (auto simp: tq_inv_def tq_live_def)
  moreover have "c_str (s @ [NUL]) = s" "length s < 80" using s by (simp_all add: tq_string_def c_str_terminated)
  ultimately have q2: "e = 0" "tq_inv q2" "tq_live q2 = [s]" using enqueue_live [OF q1(2) _ _ e] by simp_all
  have "\<not> queue_empty q2" using tq_count_empty [OF q2(2)] q2(3) by (auto simp: tq_live_def)
  then have "q2\<lparr>queue_empty := False\<rparr> = q2" by (cases q2) simp
  then have "tq_late (q2\<lparr>queue_empty := True\<rparr>)" using q2 by (simp add: tq_late_def tq_live_flag)
  then show ?thesis
    using st dequeue_interrupted_late [OF some last inv d e] q1 q2 \<open>tq_live q1 = []\<close> by (auto simp: i tq_live_flag)
qed

text \<open>A late string is in its place: the next alarm shows it again.\<close>

lemma late_step:
  assumes late: "tq_late q" and x: "event_string x" and st: "tq_step x q = (a, b, q')"
  shows "tq_live q @ a = b @ tq_live q' \<and> (if x = Dequeue then q' = q else tq_inv q')"
proof -
  let ?q = "q\<lparr>queue_empty := False\<rparr>"
  have inv: "tq_inv ?q" and empty: "queue_empty q" and one: "length (tq_live q) = 1" using late by (simp_all add: tq_late_def)
  have "\<not> queue_full q" using length_tq_live [OF inv] one by (auto simp: tq_live_flag tq_count_def)
  then have "enqueue_data_into_circ_buf data q = enqueue_data_into_circ_buf data ?q" for data
    by (simp add: enqueue_data_into_circ_buf_def)
  then have "tq_step (Alarm s) q = tq_step (Alarm s) ?q" for s by simp
  then have alarm: "tq_inv q' \<and> tq_live q @ a = b @ tq_live q'"
    if "tq_string s" "tq_step (Alarm s) q = (a, b, q')" for s
    using alarm_step_fifo [OF inv that(1)] that(2) by (simp only: tq_live_flag)
  have "tq_step (Dequeue_alarm i s) q = tq_step (Alarm s) q" for i s
    using empty by (simp add: dequeue_interrupted_def split: prod.splits)
  then show ?thesis
    using alarm x st empty by (cases x) (simp_all add: dequeue_data_from_circ_buf_def)
qed

text \<open>A sound queue: well formed, or with one string that is late.\<close>

definition tq_sound :: "circular_buf_metadata_t \<Rightarrow> bool" where
  "tq_sound q \<longleftrightarrow> tq_inv q \<or> tq_late q"

fun late_alarm :: "tq_event \<Rightarrow> bool" where
  "late_alarm (Dequeue_alarm i s) = (i = 4)"
| "late_alarm x = False"

lemma step_fifo:
  assumes inv: "tq_inv q" and x: "event_string x" "\<not> fatal q x" and st: "tq_step x q = (a, b, q')"
  shows "(tq_inv q' \<or> tq_late q' \<and> late_alarm x) \<and> tq_live q @ a = b @ tq_live q'"
proof (cases x)
  case (Alarm s)
  then show ?thesis using alarm_step_fifo [OF inv] x st by auto
next
  case Dequeue
  then show ?thesis using dequeue_step_fifo [OF inv] st by auto
next
  case (Dequeue_alarm i s)
  then have s: "tq_string s" using x by simp
  show ?thesis
  proof (cases "hides q i")
    case True
    then have "i = 4" by (simp add: hides_def)
    then show ?thesis using hidden_step [OF inv True s] st Dequeue_alarm by simp
  next
    case False
    with interrupted_step [OF inv _ False] x st Dequeue_alarm have "tq_run q [Alarm s, Dequeue] = (a, b, q') \<or>
        tq_run q [Dequeue, Alarm s] = (a, b, q')" by metis
    then show ?thesis using two_steps_fifo [OF inv s] by blast
  qed
qed

lemma sound_step:
  assumes "tq_sound q" and "event_string x" and "\<not> fatal q x" and "tq_step x q = (a, b, q')"
  shows "tq_sound q' \<and> tq_live q @ a = b @ tq_live q' \<and> (tq_inv q' \<or> tq_late q \<or> late_alarm x)"
proof (cases "tq_inv q")
  case True
  with step_fifo [OF True assms(2-4)] show ?thesis by (auto simp: tq_sound_def)
next
  case False
  then have late: "tq_late q" using assms(1) by (simp add: tq_sound_def)
  with late_step [OF late assms(2,4)] show ?thesis by (auto simp: tq_sound_def split: if_splits)
qed

lemma late_not_inv: "tq_late q \<Longrightarrow> \<not> tq_inv q"
  using tq_count_empty [of q] by (auto simp: tq_late_def tq_live_def)

lemma late_not_fatal: "tq_late q \<Longrightarrow> \<not> fatal q x"
  using length_tq_live [of "q\<lparr>queue_empty := False\<rparr>"]
  by (cases x) (auto simp: tq_late_def tq_live_flag tq_count_def)

lemma step_fatal:
  assumes inv: "tq_inv q" and x: "fatal q x" and st: "tq_step x q = (a, b, q')"
  shows "tq_stuck q' \<and> (\<exists>lost. tq_live q @ a = b @ lost \<and> length lost = 8)"
proof -
  from x obtain s where x: "x = Dequeue_alarm 3 s" and full: "queue_full q" by (cases x) auto
  obtain e r c q1 where d: "dequeue_interrupted 3 (s @ [NUL]) (replicate 80 NUL) q = (e, r, c, q1)"
    by (metis prod_cases4)
  note stuck = dequeue_interrupted_stuck [OF inv full d]
  have "\<not> queue_empty q" using inv full by (simp add: tq_inv_def)
  with dequeue_live [OF inv this, of "replicate 80 NUL"] stuck obtain rest where
    live: "tq_live q = c_str c # rest"
    by (force simp: dequeue_data Let_def)
  then have "length rest = 7" using length_tq_live [OF inv] full by (simp add: tq_count_def)
  then have "tq_live q @ a = b @ (rest @ [s]) \<and> length (rest @ [s]) = 8"
    using st stuck live by (auto simp: x d)
  then show ?thesis using st stuck by (auto simp: x d)
qed

lemma step_stuck: "tq_stuck q \<Longrightarrow> tq_step x q = ([], [], q)"
  by (cases x) (simp_all add: tq_stuck_def enqueue_data_into_circ_buf_def dequeue_data_from_circ_buf_def
      dequeue_interrupted_def)

lemma run_stuck: "tq_stuck q \<Longrightarrow> tq_run q xs = ([], [], q)"
  by (induction xs) (simp_all add: step_stuck)

lemma inv_not_stuck: "tq_inv q \<Longrightarrow> \<not> tq_stuck q"
  by (auto simp: tq_inv_def tq_stuck_def)

text \<open>A run from a well-formed queue: it gets stuck exactly at a fatal event.\<close>

definition meets_fatal :: "circular_buf_metadata_t \<Rightarrow> tq_event list \<Rightarrow> bool" where
  "meets_fatal q xs \<longleftrightarrow> (\<exists>pre x post. xs = pre @ x # post \<and> fatal (snd (snd (tq_run q pre))) x)"

lemma fatal_iff: "fatal q x \<longleftrightarrow> (\<exists>s. x = Dequeue_alarm 3 s) \<and> queue_full q"
  by (cases x) auto

lemma meets_fatal_iff: "meets_fatal q xs \<longleftrightarrow>
    (\<exists>pre s post. xs = pre @ Dequeue_alarm 3 s # post \<and> queue_full (snd (snd (tq_run q pre))))"
  unfolding meets_fatal_def fatal_iff by metis

lemma meets_fatal_Nil: "\<not> meets_fatal q []"
  by (simp add: meets_fatal_def)

lemma meets_fatal_Cons:
  assumes "tq_step x q = (a, b, q1)"
  shows "meets_fatal q (x # xs) \<longleftrightarrow> fatal q x \<or> meets_fatal q1 xs"
proof
  assume "meets_fatal q (x # xs)"
  then obtain pre y post where xs: "x # xs = pre @ y # post" and f: "fatal (snd (snd (tq_run q pre))) y"
    by (auto simp: meets_fatal_def)
  show "fatal q x \<or> meets_fatal q1 xs"
  proof (cases pre)
    case Nil
    then show ?thesis using xs f by simp
  next
    case (Cons z pre1)
    then have "xs = pre1 @ y # post" "fatal (snd (snd (tq_run q1 pre1))) y"
      using xs f assms by (auto split: prod.splits)
    then show ?thesis unfolding meets_fatal_def by blast
  qed
next
  assume "fatal q x \<or> meets_fatal q1 xs"
  then show "meets_fatal q (x # xs)"
  proof
    assume "fatal q x"
    then show ?thesis unfolding meets_fatal_def by (intro exI [of _ "[]"] exI [of _ x] exI [of _ xs]) simp
  next
    assume "meets_fatal q1 xs"
    then obtain pre y post where "xs = pre @ y # post" "fatal (snd (snd (tq_run q1 pre))) y"
      by (auto simp: meets_fatal_def)
    then show ?thesis
      using assms unfolding meets_fatal_def
      by (intro exI [of _ "x # pre"] exI [of _ y] exI [of _ post]) (cases "tq_run q1 pre", simp)
  qed
qed

lemma run_fifo:
  assumes "tq_sound q" and "\<forall>x\<in>set xs. event_string x" and "tq_run q xs = (ins, outs, q')"
  shows "\<exists>waiting. tq_live q @ ins = outs @ waiting \<and>
    (if meets_fatal q xs then length waiting = 8 \<and> tq_stuck q'
     else tq_sound q' \<and> tq_live q' = waiting \<and> (tq_inv q' \<or> tq_late q \<or> (\<exists>x\<in>set xs. late_alarm x)))"
  using assms
proof (induction xs arbitrary: q ins outs)
  case Nil
  then show ?case by (auto simp: meets_fatal_Nil tq_sound_def)
next
  case (Cons x xs)
  obtain a b q1 where st: "tq_step x q = (a, b, q1)" by (metis prod_cases3)
  obtain ins1 outs1 where run: "tq_run q1 xs = (ins1, outs1, q')" and eq: "ins = a @ ins1" "outs = b @ outs1"
    using Cons.prems(3) st by (auto split: prod.splits)
  show ?case
  proof (cases "fatal q x")
    case True
    then have "tq_inv q" using Cons.prems(1) late_not_fatal by (auto simp: tq_sound_def)
    from step_fatal [OF this True st] obtain lost where
      "tq_stuck q1" "tq_live q @ a = b @ lost" "length lost = 8" by blast
    then show ?thesis using True run eq by (auto simp: meets_fatal_Cons [OF st] run_stuck)
  next
    case False
    have "event_string x" using Cons.prems(2) by simp
    from sound_step [OF Cons.prems(1) this False st] have q1: "tq_sound q1" "tq_live q @ a = b @ tq_live q1"
      "tq_inv q1 \<or> tq_late q \<or> late_alarm x" by auto
    have "\<forall>x\<in>set xs. event_string x" using Cons.prems(2) by simp
    from Cons.IH [OF q1(1) this run] obtain waiting where w: "tq_live q1 @ ins1 = outs1 @ waiting"
      "if meets_fatal q1 xs then length waiting = 8 \<and> tq_stuck q'
       else tq_sound q' \<and> tq_live q' = waiting \<and> (tq_inv q' \<or> tq_late q1 \<or> (\<exists>x\<in>set xs. late_alarm x))"
      by blast
    have "tq_live q @ ins = outs @ waiting" using w(1) q1(2) eq by (metis append_assoc)
    moreover have "\<not> tq_late q1" if "tq_inv q1"
      using that late_not_inv by blast
    ultimately show ?thesis using w(2) q1(3) False
      by (intro exI [of _ waiting]) (auto simp: meets_fatal_Cons [OF st] split: if_splits)
  qed
qed

section \<open>The formatted time\<close>

lemma digits_length: "n < 10 ^ Suc k \<Longrightarrow> length (digits n) \<le> Suc k"
proof (induction k arbitrary: n)
  case 0
  then show ?case by (simp add: digits.simps)
next
  case (Suc k)
  have "n div 10 < 10 ^ Suc k" using Suc.prems by (simp add: less_mult_imp_div_less)
  with Suc.IH show ?case by (simp add: digits.simps [of n])
qed

lemma digit_not_nul: "n < 10 \<Longrightarrow> char_of (48 + n) \<noteq> NUL" for n :: nat
proof
  assume "n < 10" and "char_of (48 + n) = NUL"
  then have "(of_char (char_of (48 + n)) :: nat) = of_char NUL" by simp
  with \<open>n < 10\<close> show False by (simp add: NUL_def)
qed

lemma digits_no_nul: "NUL \<notin> set (digits n)"
proof (induction n rule: digits.induct)
  case (1 n)
  have "n mod 10 < 10" by simp
  with 1 digit_not_nul [of n] digit_not_nul [of "n mod 10"] show ?case
    by (auto simp: digits.simps [of n])
qed

lemma fmt_no_nul: "NUL \<notin> set (fmt_d i)" "NUL \<notin> set (fmt_02d i)"
proof -
  show "NUL \<notin> set (fmt_d i)" using digits_no_nul by (auto simp: fmt_d_def) (simp add: NUL_def)
  then show "NUL \<notin> set (fmt_02d i)" by (auto simp: fmt_02d_def Let_def) (simp_all add: NUL_def)
qed

lemma fmt_d_length: "- (10 ^ Suc k) < i \<Longrightarrow> i < 10 ^ Suc k \<Longrightarrow> length (fmt_d i) \<le> Suc (Suc k)"
proof -
  assume b: "- (10 ^ Suc k) < i" "i < 10 ^ Suc k"
  have "nat \<bar>i\<bar> < 10 ^ Suc k" using b by (simp add: nat_less_iff abs_less_iff)
  then have "length (digits (nat \<bar>i\<bar>)) \<le> Suc k" by (rule digits_length)
  then show ?thesis by (cases "i < 0") (simp_all add: fmt_d_def)
qed

lemma fmt_02d_length: "0 \<le> i \<Longrightarrow> i < 100 \<Longrightarrow> length (fmt_02d i) \<le> 2"
proof -
  assume b: "0 \<le> i" "i < 100"
  then have "length (digits (nat i)) \<le> Suc 1" by (intro digits_length) simp
  then show ?thesis using b by (simp add: fmt_02d_def fmt_d_def Let_def)
qed

text \<open>The fields \<open>localtime_r\<close> produces: calendar ranges, and a year that fits an \<open>int\<close>.\<close>

definition tm_valid :: "tm \<Rightarrow> bool" where
  "tm_valid t \<longleftrightarrow> - (2 ^ 31) \<le> tm_year t + 1900 \<and> tm_year t + 1900 < 2 ^ 31 \<and>
     0 \<le> tm_mon t \<and> tm_mon t < 12 \<and> 1 \<le> tm_mday t \<and> tm_mday t \<le> 31 \<and>
     0 \<le> tm_hour t \<and> tm_hour t < 24 \<and> 0 \<le> tm_min t \<and> tm_min t < 60 \<and> 0 \<le> tm_sec t \<and> tm_sec t \<le> 60"

lemma timestamp_string:
  assumes "tm_valid t"
  shows "tq_string (timestamp t)"
proof -
  have "length (fmt_d (tm_year t + 1900)) \<le> Suc (Suc 9)"
    using assms by (intro fmt_d_length) (auto simp: tm_valid_def)
  moreover have "length (fmt_02d (tm_mon t + 1)) \<le> 2" "length (fmt_02d (tm_mday t)) \<le> 2"
    "length (fmt_02d (tm_hour t)) \<le> 2" "length (fmt_02d (tm_min t)) \<le> 2" "length (fmt_02d (tm_sec t)) \<le> 2"
    using assms by (auto simp: tm_valid_def intro!: fmt_02d_length)
  ultimately have "length (timestamp t) < 80" by (simp add: timestamp_def)
  moreover have "NUL \<notin> set (timestamp t)"
    using fmt_no_nul by (auto simp: timestamp_def) (simp_all add: NUL_def nl_def)
  ultimately show ?thesis by (simp add: tq_string_def)
qed

text \<open>Only the alarm handler enqueues: what waits in the queue are timestamps.\<close>

definition is_timestamp :: "byte list \<Rightarrow> bool" where
  "is_timestamp s \<longleftrightarrow> (\<exists>t. tm_valid t \<and> s = timestamp t)"

definition tq_stamps :: "circular_buf_metadata_t \<Rightarrow> bool" where
  "tq_stamps q \<longleftrightarrow> tq_inv q \<and> (\<forall>s\<in>set (tq_live q). is_timestamp s)"

lemma initial_stamps: "tq_stamps (initialize_circular_buf static_queue)"
  by (simp add: tq_stamps_def initial_queue)

lemma alarmhandler_enqueues:
  assumes "tq_inv q" and "tm_valid t"
  shows "\<exists>q'. alarmhandler t q = Some q' \<and> tq_inv q' \<and>
    tq_live q' = (if length (tq_live q) < 8 then tq_live q @ [timestamp t] else tq_live q)"
proof -
  have str: "tq_string (timestamp t)" by (rule timestamp_string [OF assms(2)])
  obtain ok q' where e: "tq_enq q (timestamp t) = (ok, q')" by fastforce
  then have "snd (enqueue_data_into_circ_buf (timestamp t @ [NUL]) q) = q'"
    by (auto simp: tq_enq_def split: prod.splits)
  with str have "alarmhandler t q = Some q'" by (simp add: alarmhandler_def tq_string_def)
  with tq.enq_step [OF assms(1) str e] show ?thesis by (auto split: if_splits)
qed

lemma alarmhandler_stamps:
  assumes "tq_stamps q" and "tm_valid t" and "alarmhandler t q = Some q'"
  shows "tq_stamps q'"
  using alarmhandler_enqueues [of q t] assms by (auto simp: tq_stamps_def is_timestamp_def split: if_splits)

lemma dequeue_stamps:
  assumes "tq_stamps q" and "\<not> queue_empty q" and "80 \<le> length buf"
    and "dequeue_data_from_circ_buf buf q = (res, b, q')"
  shows "res = 0 \<and> tq_stamps q' \<and> is_timestamp (c_str b) \<and> length b = length buf"
  using dequeue_live [OF _ assms(2-4)] assms(1) by (auto simp: tq_stamps_def)

section \<open>Properties\<close>

text \<open>
  C21: alarms and dequeues in any order, a dequeue interrupted at most once, by a handler that runs to its
  end between any two of its steps.  The strings accepted are the ones that came out, in order, each once,
  and then at most eight others.  In two cases the interrupted dequeue does harm.  If the handler ever ran
  between \<open>queue_full = false\<close> and the test \<open>wptr == rptr\<close> of a dequeue from a full queue, exactly eight
  accepted strings are lost, and from then on no alarm is accepted and no dequeue given anything.
  Otherwise the strings that did not come out are the ones queued, and the queue is well formed, but for
  the handler running between that test and \<open>queue_empty = true\<close>: after it, one accepted string may be
  queued in a queue that is marked empty, so that dequeues do not see it until the next alarm.
\<close>

theorem timestamp_queue_interrupted:
  assumes "\<forall>x\<in>set xs. event_string x"
    and "tq_run (initialize_circular_buf static_queue) xs = (ins, outs, q)"
  shows "\<exists>waiting. ins = outs @ waiting \<and> length waiting \<le> 8 \<and>
    (if \<exists>pre s post. xs = pre @ Dequeue_alarm 3 s # post \<and>
          queue_full (snd (snd (tq_run (initialize_circular_buf static_queue) pre)))
     then length waiting = 8 \<and> (\<forall>x. tq_step x q = ([], [], q))
     else tq_live q = waiting \<and>
       (tq_inv q \<or> (\<exists>s. Dequeue_alarm 4 s \<in> set xs) \<and>
          length waiting = 1 \<and> queue_empty q \<and> tq_inv (q\<lparr>queue_empty := False\<rparr>)))"
proof -
  let ?q = "initialize_circular_buf static_queue"
  have bound: "length (tq_live q) \<le> 8" if "tq_inv q" using tq.abs_bound that by blast
  have start: "tq_sound ?q" "tq_late ?q = False" using initial_queue(1) late_not_inv by (auto simp: tq_sound_def)
  have alarm: "(\<exists>x\<in>set xs. late_alarm x) \<longleftrightarrow> (\<exists>s. Dequeue_alarm 4 s \<in> set xs)"
    by (metis late_alarm.elims(2) late_alarm.simps(1))
  from run_fifo [OF start(1) assms, unfolded alarm start(2) initial_queue(2) append_Nil]
  obtain waiting where "ins = outs @ waiting"
    "if meets_fatal ?q xs then length waiting = 8 \<and> tq_stuck q
     else tq_sound q \<and> tq_live q = waiting \<and> (tq_inv q \<or> (\<exists>s. Dequeue_alarm 4 s \<in> set xs))"
    by (simp only: simp_thms) blast
  then show ?thesis
    unfolding meets_fatal_iff using bound step_stuck [of q]
    by (intro exI [of _ waiting]) (simp only: split: if_splits, auto simp: tq_sound_def tq_late_def)
qed

theorem timestamp_queue_interrupted_witness:
  "\<exists>q. tq_run (initialize_circular_buf static_queue)
        [Alarm ''ab'', Dequeue_alarm 3 ''c'', Dequeue_alarm 1 ''d'', Dequeue_alarm 4 ''e'', Dequeue] =
      ([''ab'', ''c'', ''d'', ''e''], [''ab'', ''c'', ''d''], q) \<and>
    tq_live q = [''e''] \<and> queue_empty q \<and> tq_inv (q\<lparr>queue_empty := False\<rparr>) \<and>
   (\<exists>waiting q1. tq_run (initialize_circular_buf static_queue)
        (replicate 8 (Alarm ''a'') @ [Dequeue_alarm 3 ''b'', Dequeue, Alarm ''e'']) =
          (replicate 8 ''a'' @ [''b''], [''a''], q1) \<and>
        replicate 8 ''a'' @ [''b''] = [''a''] @ waiting \<and> length waiting = 8 \<and> (\<forall>x. tq_step x q1 = ([], [], q1)))"
proof -
  let ?q = "initialize_circular_buf static_queue"
  let ?xs = "[Alarm ''ab'', Dequeue_alarm 3 ''c'', Dequeue_alarm 1 ''d'', Dequeue_alarm 4 ''e'', Dequeue]"
  let ?pre = "replicate 8 (Alarm ''a'')"
  let ?ys = "?pre @ [Dequeue_alarm 3 ''b'', Dequeue, Alarm ''e'']"
  let ?q1 = "snd (snd (tq_run ?q ?xs))"
  have 1: "tq_run ?q ?xs = ([''ab'', ''c'', ''d'', ''e''], [''ab'', ''c'', ''d''], ?q1)" "queue_empty ?q1" by code_simp+
  have 2: "tq_run ?q ?ys = (replicate 8 ''a'' @ [''b''], [''a''], snd (snd (tq_run ?q ?ys)))" by code_simp
  have 3: "queue_full (snd (snd (tq_run ?q ?pre)))" by code_simp
  have 4: "\<not> queue_full (snd (snd (tq_run ?q [Alarm ''ab''])))" by code_simp
  have s: "\<forall>x\<in>set ?xs. event_string x" "\<forall>x\<in>set ?ys. event_string x" by (simp_all add: tq_string_def NUL_def)
  have "\<not> (\<exists>pre s post. ?xs = pre @ Dequeue_alarm 3 s # post \<and> queue_full (snd (snd (tq_run ?q pre))))"
    using 4 by (auto simp: Cons_eq_append_conv)
  from timestamp_queue_interrupted [OF s(1) 1(1), unfolded if_not_P [OF this]]
  obtain waiting where w: "[''ab'', ''c'', ''d'', ''e''] = [''ab'', ''c'', ''d''] @ waiting" "tq_live ?q1 = waiting"
    "tq_inv ?q1 \<or> tq_inv (?q1\<lparr>queue_empty := False\<rparr>)" by blast
  have live: "tq_live ?q1 = [''e'']" using w(1,2) by simp
  then have "tq_inv (?q1\<lparr>queue_empty := False\<rparr>)" using w(3) 1(2) tq_count_empty [of ?q1] by (auto simp: tq_live_def)
  moreover have "\<exists>pre s post. ?ys = pre @ Dequeue_alarm 3 s # post \<and> queue_full (snd (snd (tq_run ?q pre)))"
    using 3 by (intro exI [of _ ?pre] exI [of _ "''b''"] exI [of _ "[Dequeue, Alarm ''e'']"]) simp
  from timestamp_queue_interrupted [OF s(2) 2, unfolded if_P [OF this]] have
    "\<exists>waiting. replicate 8 ''a'' @ [''b''] = [''a''] @ waiting \<and> length waiting = 8 \<and>
       (\<forall>x. tq_step x (snd (snd (tq_run ?q ?ys))) = ([], [], snd (snd (tq_run ?q ?ys))))" by blast
  ultimately show ?thesis using 1 2 live by blast
qed

text \<open>
  C22: for every time \<open>localtime_r\<close> can produce, the text with its NUL fits the handler's 80 bytes, so
  the handler never overruns its buffer; if the queue is well formed when the alarm comes (between two
  operations of the thread, none of which was interrupted to its harm), the text is appended to it, or dropped when
  eight are waiting.
\<close>

theorem alarmhandler_fits:
  assumes "tq_inv q" and "tm_valid t"
  shows "\<exists>q'. alarmhandler t q = Some q' \<and> tq_inv q' \<and>
    tq_live q' = (if length (tq_live q) < 8 then tq_live q @ [timestamp t] else tq_live q)"
  by (rule alarmhandler_enqueues [OF assms])

theorem alarmhandler_fits_witness:
  "\<exists>q'. alarmhandler \<lparr>tm_year = 122, tm_mon = 9, tm_mday = 11, tm_hour = 8, tm_min = 5, tm_sec = 0\<rparr>
      (initialize_circular_buf static_queue) = Some q' \<and>
     tq_live q' = [''timestamp: 2022/10/11 - 08:05:00'' @ [nl]]"
proof -
  have "timestamp \<lparr>tm_year = 122, tm_mon = 9, tm_mday = 11, tm_hour = 8, tm_min = 5, tm_sec = 0\<rparr>
      = ''timestamp: 2022/10/11 - 08:05:00'' @ [nl]"
    by code_simp
  with alarmhandler_fits [OF initial_queue(1), of "\<lparr>tm_year = 122, tm_mon = 9, tm_mday = 11, tm_hour = 8,
      tm_min = 5, tm_sec = 0\<rparr>"]
  show ?thesis by (auto simp: tm_valid_def initial_queue)
qed

end
