(* ===== verification/SocketWorker.thy ===== *)
theory SocketWorker
  imports SocketIo TimeQueue
begin

text \<open>
  The connection threads of src/server/aesdsocket.c: \<open>aesd_char_thread\<close> (the log is the character
  device) and \<open>server_thread\<close> (the log is a file), with the parsing of the seek command.  A thread
  takes the system calls \<open>S\<close>, its \<open>worker_thread_t\<close> and the world; its local variables are
  \<open>worker_locals\<close>, and the jumps to its labels are values.  \<open>None\<close> means undefined behaviour (a bad
  pointer, a double free) or no return.  \<open>sscanf\<close> on the receive buffer, which has no terminating NUL,
  is taken to stop at the end of the block; a \<open>send\<close> to a peer that has gone gives -1, as if \<open>SIGPIPE\<close>
  were ignored.
\<close>

section \<open>The system\<close>

text \<open>
  The calls the threads make, each on the world: \<open>open\<close> and the file calls on the log file,
  \<open>ioctl\<close> with the seek request, the socket calls, the allocator (whose blocks are private to the
  thread, so their bytes are its local state) and the mutex.
\<close>

record 'w sys =
  open_log :: "'w \<Rightarrow> (int \<times> 'w) option"
  close_fd :: "int \<Rightarrow> 'w \<Rightarrow> 'w option"
  write_fd :: "int \<Rightarrow> byte list \<Rightarrow> 'w \<Rightarrow> (int \<times> int \<times> 'w) option"
  read_fd :: "int \<Rightarrow> nat \<Rightarrow> 'w \<Rightarrow> (int \<times> int \<times> byte list \<times> 'w) option"
  lseek_start :: "int \<Rightarrow> 'w \<Rightarrow> 'w option" \<comment> \<open>\<open>lseek(fd, 0, SEEK_SET)\<close>\<close>
  ioctl_seekto :: "int \<Rightarrow> u32 \<Rightarrow> u32 \<Rightarrow> 'w \<Rightarrow> (int \<times> 'w) option"
  send_sock :: "int \<Rightarrow> byte list \<Rightarrow> 'w \<Rightarrow> (int \<times> int \<times> 'w) option"
  recv_sock :: "int \<Rightarrow> nat \<Rightarrow> 'w \<Rightarrow> (int \<times> byte list \<times> 'w) option"
  malloc :: "nat \<Rightarrow> 'w \<Rightarrow> byte list option \<times> 'w"
  realloc :: "byte list \<Rightarrow> nat \<Rightarrow> 'w \<Rightarrow> byte list option \<times> 'w"
  pthread_mutex_lock :: "'w \<Rightarrow> int \<times> 'w"
  pthread_mutex_trylock :: "'w \<Rightarrow> int \<times> 'w"
  pthread_mutex_unlock :: "'w \<Rightarrow> int \<times> 'w"

section \<open>State\<close>

datatype worker_threads_states_t = Receive_From_Socket | Parse_data

text \<open>The link \<open>entries\<close> belongs to the list of connections and is modelled with it.\<close>

record worker_thread_t =
  thread_id :: int
  thread_completed :: bool
  curr_state :: worker_threads_states_t
  socket_file_descriptor :: int
  ip_addr :: string

text \<open>\<open>buf\<close> is the allocated block, \<open>None\<close> while there is none or after it was freed.\<close>

record worker_locals =
  num_bytes_read :: int
  start_ptr :: int
  buf_len :: int
  buf_cap :: int
  buf :: "byte list option"

definition worker_start :: worker_locals where
  "worker_start = \<lparr>num_bytes_read = 0, start_ptr = 0, buf_len = 0, buf_cap = 0, buf = None\<rparr>"

datatype label = Close_file_descriptor int | Unlock_mutex | Free_mem | Free_socket_fd

type_synonym 'w turn = "(label option \<times> worker_thread_t \<times> worker_locals \<times> 'w) option"

section \<open>State \<open>Receive_From_Socket\<close>\<close>

text \<open>More room when the buffer is full; a failed \<open>realloc\<close> frees the buffer and jumps to \<open>free_mem\<close>.\<close>

definition grow_buffer :: "'w sys \<Rightarrow> worker_locals \<Rightarrow> 'w \<Rightarrow> (label option \<times> worker_locals \<times> 'w) option" where
  "grow_buffer S l w =
     (if buf_cap l = buf_len l
      then if buf_cap l = 0
        then (case malloc S BUF_SIZE_UNIT w of
                (None, w1) \<Rightarrow> Some (Some Free_socket_fd, l\<lparr>buf := None\<rparr>, w1)
              | (Some blk, w1) \<Rightarrow>
                  Some (None, l\<lparr>buf := Some blk, buf_cap := buf_cap l + int BUF_SIZE_UNIT\<rparr>, w1))
        else Option.bind (buf l) (\<lambda>old.
               let new_len = buf_cap l + int BUF_SIZE_UNIT in
               case realloc S old (nat new_len) w of
                 (None, w1) \<Rightarrow> Some (Some Free_mem, l\<lparr>buf := None\<rparr>, w1)
               | (Some blk, w1) \<Rightarrow>
                   Some (None, l\<lparr>buf := Some blk, buf_cap := buf_cap l + int BUF_SIZE_UNIT\<rparr>, w1))
      else Some (None, l, w))"

definition receive_from_socket :: "'w sys \<Rightarrow> worker_thread_t \<Rightarrow> worker_locals \<Rightarrow> 'w \<Rightarrow> 'w turn" where
  "receive_from_socket S t l w =
     Option.bind (grow_buffer S l w) (\<lambda>(lab, l1, w1).
       case lab of Some lb \<Rightarrow> Some (Some lb, t, l1, w1)
       | None \<Rightarrow>
           Option.bind (buf l1) (\<lambda>b.
           Option.bind (recv_sock S (socket_file_descriptor t) (nat (buf_cap l1 - buf_len l1)) w1)
             (\<lambda>(n, bytes, w2).
               let at = nat (buf_len l1);
                   l2 = l1\<lparr>num_bytes_read := n,
                           buf := Some (take at b @ bytes @ drop (at + length bytes) b)\<rparr>
               in if n = -1 then Some (Some Free_mem, t, l2, w2)
                  else if n > 0 then Some (None, t\<lparr>curr_state := Parse_data\<rparr>, l2, w2)
                  else if n = 0 then Some (Some Free_mem, t, l2, w2)
                  else Some (None, t, l2, w2))))"

section \<open>State \<open>Parse_data\<close>\<close>

text \<open>
  The scan for a newline from \<open>ptr = &buf[i]\<close>: the value of \<open>temp_read_var\<close> after the decrement in
  the loop's body if a newline is found.
\<close>

function scan_newline :: "byte list \<Rightarrow> nat \<Rightarrow> int \<Rightarrow> int option option" where
  "scan_newline b i temp_read_var =
     (if temp_read_var > 0
      then if i < length b
           then if b ! i = nl then Some (Some (temp_read_var - 1))
                else scan_newline b (i + 1) (temp_read_var - 1)
           else None
      else Some None)"
  by pat_completeness auto
termination
  by (relation "measure (\<lambda>(b, i, t). nat t)") auto

declare scan_newline.simps [simp del]

text \<open>
  \<open>handle\<close> is what the thread does with the packet found, of the given length; a label is a jump out
  of the thread's loop, otherwise the \<open>break\<close> of the scan is reached.
\<close>

definition parse_data ::
  "(worker_thread_t \<Rightarrow> int \<Rightarrow> worker_locals \<Rightarrow> 'w \<Rightarrow> (label option \<times> worker_locals \<times> 'w) option) \<Rightarrow>
   worker_thread_t \<Rightarrow> worker_locals \<Rightarrow> 'w \<Rightarrow> 'w turn" where
  "parse_data handle t l w =
     (let num_bytes_to_read = (buf_len l - start_ptr l) + num_bytes_read l;
          received = (\<lambda>l1 w1. Some (None, t\<lparr>curr_state := Receive_From_Socket\<rparr>,
                                    l1\<lparr>buf_len := buf_len l1 + num_bytes_read l1\<rparr>, w1)) in
      Option.bind (buf l) (\<lambda>b.
      Option.bind (scan_newline b (nat (start_ptr l)) num_bytes_to_read) (\<lambda>found.
        case found of None \<Rightarrow> received l w
        | Some temp_read_var \<Rightarrow>
            Option.bind (handle t (num_bytes_to_read - temp_read_var) l w) (\<lambda>(lab, l1, w1).
              case lab of Some lb \<Rightarrow> Some (Some lb, t, l1, w1) | None \<Rightarrow> received l1 w1))))"

section \<open>The loop\<close>

partial_function (option) worker_loop ::
  "(worker_thread_t \<Rightarrow> worker_locals \<Rightarrow> 'w \<Rightarrow> 'w turn) \<Rightarrow>
   (worker_thread_t \<Rightarrow> worker_locals \<Rightarrow> 'w \<Rightarrow> 'w turn) \<Rightarrow>
   worker_thread_t \<Rightarrow> worker_locals \<Rightarrow> 'w \<Rightarrow> (label \<times> worker_thread_t \<times> worker_locals \<times> 'w) option" where
  "worker_loop receive parse t l w =
     Option.bind (if curr_state t = Receive_From_Socket then receive t l w else parse t l w)
       (\<lambda>(lab, t1, l1, w1).
          case lab of Some lb \<Rightarrow> Some (lb, t1, l1, w1) | None \<Rightarrow> worker_loop receive parse t1 l1 w1)"

declare worker_loop.simps [code]

text \<open>\<open>free_mem: free(buf)\<close> and \<open>free_socket_fd\<close>, where every label leads.\<close>

definition free_socket_fd :: "'w sys \<Rightarrow> worker_thread_t \<Rightarrow> worker_locals \<Rightarrow> 'w \<Rightarrow>
    (worker_thread_t \<times> worker_locals \<times> 'w) option" where
  "free_socket_fd S t l w =
     Option.bind (close_fd S (socket_file_descriptor t) w) (\<lambda>w1. Some (t\<lparr>thread_completed := True\<rparr>, l, w1))"

definition free_mem :: "'w sys \<Rightarrow> worker_thread_t \<Rightarrow> worker_locals \<Rightarrow> 'w \<Rightarrow>
    (worker_thread_t \<times> worker_locals \<times> 'w) option" where
  "free_mem S t l w = Option.bind (buf l) (\<lambda>b. free_socket_fd S t (l\<lparr>buf := None\<rparr>) w)"

section \<open>The seek command\<close>

definition seek_command :: "byte list" where
  "seek_command = ''AESDCHAR_IOCSEEKTO:''"

definition is_space :: "byte \<Rightarrow> bool" where
  "is_space c \<longleftrightarrow> of_char c \<in> {9, 10, 11, 12, 13, 32 :: nat}"

definition is_digit :: "byte \<Rightarrow> bool" where
  "is_digit c \<longleftrightarrow> 48 \<le> (of_char c :: nat) \<and> (of_char c :: nat) \<le> 57"

fun digits_value :: "int \<Rightarrow> byte list \<Rightarrow> int" where
  "digits_value acc [] = acc"
| "digits_value acc (c # cs) = digits_value (10 * acc + (of_char c - 48)) cs"

text \<open>
  The conversion \<open>%u\<close> as glibc does it: white space, an optional sign, digits read as by \<open>strtoul\<close>
  (which saturates), stored as \<open>unsigned int\<close>.
\<close>

definition scan_u :: "byte list \<Rightarrow> (u32 \<times> byte list) option" where
  "scan_u cs =
     (let cs1 = dropWhile is_space cs;
          negative = (case cs1 of c # _ \<Rightarrow> c = CHR ''-'' | [] \<Rightarrow> False);
          cs2 = (case cs1 of c # r \<Rightarrow> if c = CHR ''-'' \<or> c = CHR ''+'' then r else cs1 | [] \<Rightarrow> cs1);
          ds = takeWhile is_digit cs2;
          n = digits_value 0 ds
      in if ds = [] then None
         else Some (if 2 ^ 64 \<le> n then -1 else if negative then - of_int n else of_int n,
                    dropWhile is_digit cs2))"

text \<open>\<open>sscanf(s, "AESDCHAR_IOCSEEKTO:%u,%u", ...)\<close>: the two numbers if it returns 2.\<close>

definition sscanf_seekto :: "byte list \<Rightarrow> (u32 \<times> u32) option" where
  "sscanf_seekto s =
     (let cs = c_str s in
      if take 19 cs \<noteq> seek_command then None
      else Option.bind (scan_u (drop 19 cs)) (\<lambda>(c, r).
        case r of x # r1 \<Rightarrow> if x = CHR '','' then Option.bind (scan_u r1) (\<lambda>(off, r2). Some (c, off)) else None
        | [] \<Rightarrow> None))"

definition run_seek_command :: "'w sys \<Rightarrow> int \<Rightarrow> byte list \<Rightarrow> 'w \<Rightarrow> (int \<times> 'w) option" where
  "run_seek_command S fd p w =
     (case sscanf_seekto p of
        None \<Rightarrow> Some (0, w)
      | Some (c, off) \<Rightarrow> Option.bind (ioctl_seekto S fd c off w) (\<lambda>(r, w1). Some (0, w1)))"

section \<open>\<open>aesd_char_thread\<close>\<close>

text \<open>\<open>n\<close> is \<open>bytes_written_until_newline\<close>.\<close>

definition char_packet :: "'w sys \<Rightarrow> worker_thread_t \<Rightarrow> int \<Rightarrow> worker_locals \<Rightarrow> 'w \<Rightarrow>
    (label option \<times> worker_locals \<times> 'w) option" where
  "char_packet S t n l w =
     Option.bind (open_log S w) (\<lambda>(fd, w1).
       if fd = -1 then Some (Some Free_mem, l, w1)
       else Option.bind (buf l) (\<lambda>b.
         let p = drop (nat (start_ptr l)) b in
         Option.bind (if take 19 p = seek_command then run_seek_command S fd p w1
                      else dump_content (write_fd S fd) p n w1) (\<lambda>(r, w2).
           if r = -1 then Some (Some (Close_file_descriptor fd), l, w2)
           else Option.bind (echo_file_socket (read_fd S fd) (send_sock S (socket_file_descriptor t)) w2)
             (\<lambda>(r, w3).
               if r = -1 then Some (Some (Close_file_descriptor fd), l, w3)
               else Option.bind (close_fd S fd w3) (\<lambda>w4. Some (None, l\<lparr>start_ptr := n\<rparr>, w4))))))"

fun char_exit :: "'w sys \<Rightarrow> label \<Rightarrow> worker_thread_t \<Rightarrow> worker_locals \<Rightarrow> 'w \<Rightarrow>
    (worker_thread_t \<times> worker_locals \<times> 'w) option" where
  "char_exit S (Close_file_descriptor fd) t l w = Option.bind (close_fd S fd w) (free_mem S t l)"
| "char_exit S Unlock_mutex t l w = free_mem S t l w"
| "char_exit S Free_mem t l w = free_mem S t l w"
| "char_exit S Free_socket_fd t l w = free_socket_fd S t l w"

definition aesd_char_thread :: "'w sys \<Rightarrow> worker_thread_t \<Rightarrow> 'w \<Rightarrow>
    (worker_thread_t \<times> worker_locals \<times> 'w) option" where
  "aesd_char_thread S t w =
     Option.bind (worker_loop (receive_from_socket S) (parse_data (char_packet S)) t worker_start w)
       (\<lambda>(lab, t1, l1, w1). char_exit S lab t1 l1 w1)"

section \<open>\<open>server_thread\<close>\<close>

text \<open>
  The world includes the timestamp queue, which the alarm handler may change during any system call.
  The array \<open>time_buf_string\<close> is uninitialised; \<open>dequeue_data_from_circ_buf\<close> fills it.
\<close>

type_synonym 'w stamped = "circular_buf_metadata_t \<times> 'w"

definition write_stamp :: "'w stamped sys \<Rightarrow> int \<Rightarrow> 'w stamped \<Rightarrow> (int \<times> 'w stamped) option" where
  \<comment> \<open>the bytes of a timestamp written, 0 if there is none or the write failed\<close>
  "write_stamp S fd = (\<lambda>(q, w).
     let (r, time_buf_string, q1) = dequeue_data_from_circ_buf (replicate 80 NUL) q in
     if r = 0
     then Option.bind (dump_content (write_fd S fd) time_buf_string (int (length (c_str time_buf_string))) (q1, w))
            (\<lambda>(r, w1). Some (if r \<noteq> -1 then int (length (c_str time_buf_string)) else 0, w1))
     else Some (0, (q1, w)))"

definition file_packet :: "'w stamped sys \<Rightarrow> worker_thread_t \<Rightarrow> int \<Rightarrow> worker_locals \<Rightarrow> 'w stamped \<Rightarrow>
    (label option \<times> worker_locals \<times> 'w stamped) option" where
  "file_packet S t n l w =
     (let (status, w0) = pthread_mutex_lock S w in
      if status \<noteq> 0 then Some (Some Free_mem, l, w0)
      else Option.bind (open_log S w0) (\<lambda>(fd, w1).
        if fd = -1 then Some (Some Unlock_mutex, l, w1)
        else Option.bind (buf l) (\<lambda>b.
          Option.bind (dump_content (write_fd S fd) (drop (nat (start_ptr l)) b) n w1) (\<lambda>(r, w2).
            if r = -1 then Some (Some (Close_file_descriptor fd), l, w2)
            else Option.bind (lseek_start S fd w2) (\<lambda>w3.
            Option.bind (echo_file_socket (read_fd S fd) (send_sock S (socket_file_descriptor t)) w3)
              (\<lambda>(r, w4).
                if r = -1 then Some (Some (Close_file_descriptor fd), l, w4)
                else Option.bind (write_stamp S fd w4) (\<lambda>(stamp_len, w5).
                     Option.bind (close_fd S fd w5) (\<lambda>w6.
                       let (status, w7) = pthread_mutex_unlock S w6;
                           l1 = l\<lparr>start_ptr := n + stamp_len\<rparr>
                       in if status \<noteq> 0 then Some (Some Unlock_mutex, l1, w7)
                          else Some (None, l1, w7)))))))))"

fun file_exit :: "'w sys \<Rightarrow> label \<Rightarrow> worker_thread_t \<Rightarrow> worker_locals \<Rightarrow> 'w \<Rightarrow>
    (worker_thread_t \<times> worker_locals \<times> 'w) option" where
  "file_exit S (Close_file_descriptor fd) t l w =
     Option.bind (close_fd S fd w) (\<lambda>w1. free_mem S t l (snd (pthread_mutex_unlock S w1)))"
| "file_exit S Unlock_mutex t l w = free_mem S t l (snd (pthread_mutex_unlock S w))"
| "file_exit S Free_mem t l w = free_mem S t l w"
| "file_exit S Free_socket_fd t l w = free_socket_fd S t l w"

definition server_thread :: "'w stamped sys \<Rightarrow> worker_thread_t \<Rightarrow> 'w stamped \<Rightarrow>
    (worker_thread_t \<times> worker_locals \<times> 'w stamped) option" where
  "server_thread S t w =
     Option.bind (worker_loop (receive_from_socket S) (parse_data (file_packet S)) t worker_start w)
       (\<lambda>(lab, t1, l1, w1). file_exit S lab t1 l1 w1)"

end
