(* ===== verification/Connection.thy ===== *)
theory Connection
  imports SocketWorker
begin

text \<open>
  The receive loop that the two kinds of connection threads of src/server/aesdsocket.c share: the
  bytes are gathered in a buffer that is never overrun, a packet ends at the first newline, and the
  loop always ends.  What is done with a packet is a parameter here.
\<close>

section \<open>Framing\<close>

lemma scan_newline_spec:
  assumes "i + m \<le> length b"
  shows "scan_newline b i (int m) =
    Some (if nl \<in> set (take m (drop i b))
          then Some (int m - 1 - int (length (takeWhile (\<lambda>c. c \<noteq> nl) (drop i b)))) else None)"
  using assms
proof (induction m arbitrary: i)
  case 0
  then show ?case by (simp add: scan_newline.simps)
next
  case (Suc m)
  have dr: "drop i b = b ! i # drop (Suc i) b"
    using Suc.prems by (intro Cons_nth_drop_Suc [symmetric]) simp
  have "int (Suc m) - 1 = int m" by simp
  then show ?case
    using Suc.IH [of "i + 1"] Suc.prems by (simp add: scan_newline.simps [of b i] dr)
qed

lemma takeWhile_take:
  "nl \<in> set (take m xs) \<Longrightarrow> takeWhile (\<lambda>c. c \<noteq> nl) xs = takeWhile (\<lambda>c. c \<noteq> nl) (take m xs)"
  using takeWhile_append1 [of nl "take m xs" "\<lambda>c. c \<noteq> nl" "drop m xs"] by simp

lemma takeWhile_packet:
  assumes "nl \<in> set (take m xs)"
  defines "n \<equiv> Suc (length (takeWhile (\<lambda>c. c \<noteq> nl) xs))"
  shows "take n xs = takeWhile (\<lambda>c. c \<noteq> nl) xs @ [nl]" and "n \<le> m" and "n \<le> length xs"
proof -
  obtain a b where t: "take m xs = a @ nl # b" and a: "nl \<notin> set a"
    using split_list_first [OF assms(1)] by blast
  then have xs: "xs = a @ nl # b @ drop m xs" by (metis append_Cons append_assoc append_take_drop_id)
  have tw: "takeWhile (\<lambda>c. c \<noteq> nl) xs = a" by (subst xs) (rule takeWhile_first [OF a])
  have n: "n = Suc (length a)" by (simp add: n_def tw)
  show "take n xs = takeWhile (\<lambda>c. c \<noteq> nl) xs @ [nl]" unfolding n tw by (subst xs) simp
  have "length a + 1 \<le> length (take m xs)" by (simp only: t length_append) simp
  then show "n \<le> m" and "n \<le> length xs" unfolding n by auto
qed

section \<open>The buffer\<close>

text \<open>
  The buffer has the capacity recorded and holds \<open>buf_len\<close> bytes; while parsing, \<open>num_bytes_read\<close>
  more have arrived after them.
\<close>

definition worker_inv :: "worker_thread_t \<Rightarrow> worker_locals \<Rightarrow> bool" where
  "worker_inv t l \<longleftrightarrow>
     (case buf l of None \<Rightarrow> buf_cap l = 0 | Some b \<Rightarrow> buf_cap l = int (length b) \<and> 0 < length b) \<and>
     0 \<le> buf_len l \<and> buf_len l \<le> buf_cap l \<and> 0 \<le> start_ptr l \<and>
     (curr_state t = Parse_data \<longrightarrow>
        buf l \<noteq> None \<and> 0 < num_bytes_read l \<and> buf_len l + num_bytes_read l \<le> buf_cap l)"

definition received :: "worker_thread_t \<Rightarrow> worker_locals \<Rightarrow> byte list" where
  "received t l =
     take (nat (buf_len l + (if curr_state t = Parse_data then num_bytes_read l else 0)))
       (case buf l of None \<Rightarrow> [] | Some b \<Rightarrow> b)"

text \<open>
  A turn in \<open>Parse_data\<close>: without a newline after \<open>start_ptr\<close> the bytes just stay, otherwise the
  packet up to the first newline is handled, which lies inside the buffer.
\<close>

definition unparsed :: "worker_thread_t \<Rightarrow> worker_locals \<Rightarrow> byte list" where
  "unparsed t l = drop (nat (start_ptr l)) (received t l)"

definition next_packet :: "byte list \<Rightarrow> byte list" where
  "next_packet bs = takeWhile (\<lambda>c. c \<noteq> nl) bs @ [nl]"

lemma count_packet: "count_list (next_packet bs) nl \<le> 1"
proof -
  have "count_list (takeWhile (\<lambda>c. c \<noteq> nl) bs) nl = 0"
    by (auto simp: count_list_0_iff dest: set_takeWhileD)
  then show ?thesis by (simp add: next_packet_def)
qed

definition parsed_state :: "worker_thread_t \<Rightarrow> worker_thread_t" where
  "parsed_state t = t\<lparr>curr_state := Receive_From_Socket\<rparr>"

definition parsed_locals :: "worker_locals \<Rightarrow> worker_locals" where
  "parsed_locals l = l\<lparr>buf_len := buf_len l + num_bytes_read l\<rparr>"

lemma parse_turn:
  assumes inv: "worker_inv t l" and parse: "curr_state t = Parse_data" and b: "buf l = Some b"
  defines "n \<equiv> length (next_packet (unparsed t l))"
  shows "nl \<notin> set (unparsed t l) \<Longrightarrow>
      parse_data handle t l w = Some (None, parsed_state t, parsed_locals l, w)"
    and "nl \<in> set (unparsed t l) \<Longrightarrow>
      parse_data handle t l w = Option.bind (handle t (int n) l w) (\<lambda>(lab, l1, w1).
         case lab of Some lb \<Rightarrow> Some (Some lb, t, l1, w1)
         | None \<Rightarrow> Some (None, parsed_state t, parsed_locals l1, w1))"
    and "nl \<in> set (unparsed t l) \<Longrightarrow>
      take n (drop (nat (start_ptr l)) b) = next_packet (unparsed t l) \<and>
      nat (start_ptr l) + n \<le> length b \<and> nat (start_ptr l) + n \<le> length (received t l)"
proof -
  let ?m = "(buf_len l - start_ptr l) + num_bytes_read l" and ?i = "nat (start_ptr l)"
  have bounds: "0 \<le> buf_len l" "0 < num_bytes_read l" "buf_len l + num_bytes_read l \<le> int (length b)"
    "0 \<le> start_ptr l"
    using inv parse b by (auto simp: worker_inv_def)
  have D: "unparsed t l = take (nat ?m) (drop ?i b)"
    using b parse bounds by (simp add: unparsed_def received_def drop_take nat_diff_distrib' algebra_simps)
  have scan: "scan_newline b ?i ?m = Some (if nl \<in> set (unparsed t l)
      then Some (?m - int (length (next_packet (unparsed t l)))) else None)"
  proof (cases "?m \<le> 0")
    case True
    then show ?thesis by (simp add: scan_newline.simps D)
  next
    case False
    then have m: "?m = int (nat ?m)" "?i + nat ?m \<le> length b" using bounds by simp_all
    have "takeWhile (\<lambda>c. c \<noteq> nl) (drop ?i b) = takeWhile (\<lambda>c. c \<noteq> nl) (unparsed t l)"
      if "nl \<in> set (unparsed t l)"
      using that unfolding D by (rule takeWhile_take)
    then show ?thesis
      using scan_newline_spec [OF m(2)] m(1) by (simp add: D next_packet_def del: int_nat_eq)
  qed
  show "nl \<notin> set (unparsed t l) \<Longrightarrow>
      parse_data handle t l w = Some (None, parsed_state t, parsed_locals l, w)"
    using scan b by (simp add: parse_data_def Let_def parsed_state_def parsed_locals_def)
  show "nl \<in> set (unparsed t l) \<Longrightarrow>
      parse_data handle t l w = Option.bind (handle t (int n) l w) (\<lambda>(lab, l1, w1).
         case lab of Some lb \<Rightarrow> Some (Some lb, t, l1, w1)
         | None \<Rightarrow> Some (None, parsed_state t, parsed_locals l1, w1))"
    using scan b unfolding parse_data_def parsed_state_def parsed_locals_def by (simp add: Let_def n_def)
  assume nl: "nl \<in> set (unparsed t l)"
  from takeWhile_packet [of "nat ?m" "drop ?i b"] nl
  have tk: "take n (drop ?i b) = next_packet (unparsed t l)" and "n \<le> nat ?m" and "n \<le> length (drop ?i b)"
    unfolding n_def next_packet_def D by (simp_all add: takeWhile_take)
  moreover have "0 < n" by (simp add: n_def next_packet_def)
  moreover have "length (received t l) = nat (buf_len l + num_bytes_read l)"
    using b parse bounds by (simp add: received_def)
  ultimately show "take n (drop (nat (start_ptr l)) b) = next_packet (unparsed t l) \<and>
      nat (start_ptr l) + n \<le> length b \<and> nat (start_ptr l) + n \<le> length (received t l)"
    using bounds by (simp add: nat_le_iff) linarith
qed

lemma parsed_inv:
  assumes "worker_inv t l" and "curr_state t = Parse_data"
  shows "worker_inv (parsed_state t) (parsed_locals l)"
    and "received (parsed_state t) (parsed_locals l) = received t l"
  using assms by (auto simp: worker_inv_def parsed_state_def parsed_locals_def received_def)

lemma received_moved: "received t (l\<lparr>start_ptr := s\<rparr>) = received t l"
  by (simp add: received_def)

lemma worker_inv_moved: "worker_inv t l \<Longrightarrow> 0 \<le> s \<Longrightarrow> worker_inv t (l\<lparr>start_ptr := s\<rparr>)"
  by (cases "buf l") (auto simp add: worker_inv_def)

lemma worker_start_inv: "curr_state t = Receive_From_Socket \<Longrightarrow> worker_inv t worker_start"
  "curr_state t = Receive_From_Socket \<Longrightarrow> received t worker_start = []"
  by (simp_all add: worker_inv_def worker_start_def received_def)


section \<open>What the loop relies on\<close>

text \<open>
  The contract of the calls the loop makes itself, over any \<open>view\<close> of the world: \<open>inbox v\<close> are the bytes
  that will still arrive on the socket and \<open>rest k\<close> takes away the first \<open>k\<close> of them.  A call that
  fails leaves the world \<open>bad\<close>.
\<close>

locale receiver =
  fixes S :: "'w sys" and rep :: "'w \<Rightarrow> 'v \<Rightarrow> bool" and bad :: "'w \<Rightarrow> bool"
    and inbox :: "'v \<Rightarrow> byte list" and rest :: "nat \<Rightarrow> 'v \<Rightarrow> 'v" and sock :: int
  assumes inbox_rest: "inbox (rest k v) = drop k (inbox v)"
    and rest_rest: "rest j (rest k v) = rest (k + j) v"
    and recv_law: "rep w v \<Longrightarrow> 0 < n \<Longrightarrow> \<exists>r bs w'. recv_sock S sock n w = Some (r, bs, w') \<and>
      (r = -1 \<and> bs = [] \<and> bad w' \<or> r = 0 \<and> bs = [] \<and> inbox v = [] \<and> rep w' v \<or>
       0 < r \<and> r \<le> int n \<and> nat r \<le> length (inbox v) \<and> bs = take (nat r) (inbox v) \<and>
         rep w' (rest (nat r) v))"
    and malloc_law: "rep w v \<Longrightarrow> malloc S n w = (res, w') \<Longrightarrow>
      (case res of None \<Rightarrow> bad w' | Some blk \<Rightarrow> length blk = n \<and> rep w' v)"
    and realloc_law: "rep w v \<Longrightarrow> length old \<le> n \<Longrightarrow> realloc S old n w = (res, w') \<Longrightarrow>
      (case res of None \<Rightarrow> True | Some blk \<Rightarrow> length blk = n \<and> take (length old) blk = old \<and> rep w' v)"
begin

lemma grow_buffer_room:
  assumes rep: "rep w v" and inv: "worker_inv t l" and re: "\<And>old n w. fst (realloc S old n w) \<noteq> None"
    and recv: "curr_state t = Receive_From_Socket"
  shows "\<exists>lab l' w'. grow_buffer S l w = Some (lab, l', w') \<and>
    (lab = Some Free_socket_fd \<and> buf l' = None \<and> bad w' \<or>
     lab = None \<and> rep w' v \<and> worker_inv t l' \<and> received t l' = received t l \<and> buf_len l' = buf_len l \<and>
       start_ptr l' = start_ptr l \<and> buf_len l' < buf_cap l' \<and> buf l' \<noteq> None)"
proof (cases "buf_cap l = buf_len l")
  case False
  then have "buf_len l < buf_cap l" and "buf l \<noteq> None"
    using inv by (auto simp: worker_inv_def split: option.splits)
  then show ?thesis using False rep inv by (simp add: grow_buffer_def)
next
  case full: True
  show ?thesis
  proof (cases "buf l")
    case None
    then have zero: "buf_cap l = 0" "buf_len l = 0" using inv full by (auto simp: worker_inv_def)
    obtain res w1 where m: "malloc S BUF_SIZE_UNIT w = (res, w1)" by fastforce
    from malloc_law [OF rep m] show ?thesis
      using zero None inv recv m
      by (cases res) (auto simp: grow_buffer_def worker_inv_def received_def BUF_SIZE_UNIT_def)
  next
    case (Some old)
    have cap: "buf_cap l = int (length old)" "0 < length old" using inv Some by (auto simp: worker_inv_def)
    then have nz: "buf_len l \<noteq> 0" using full by simp
    obtain res w1 where m: "realloc S old (nat (buf_cap l + int BUF_SIZE_UNIT)) w = (res, w1)" by fastforce
    then obtain blk where res: "res = Some blk" using re [of old "nat (buf_cap l + int BUF_SIZE_UNIT)" w] by auto
    have blk: "length blk = length old + BUF_SIZE_UNIT" "take (length old) blk = old" and w1: "rep w1 v"
      using realloc_law [OF rep _ m] res cap by (auto simp: nat_add_distrib)
    have "grow_buffer S l w = Some (None, l\<lparr>buf := Some blk, buf_cap := buf_cap l + int BUF_SIZE_UNIT\<rparr>, w1)"
      using full Some cap m res nz by (simp add: grow_buffer_def Let_def)
    moreover have "received t (l\<lparr>buf := Some blk, buf_cap := buf_cap l + int BUF_SIZE_UNIT\<rparr>) = received t l"
      using Some recv cap full blk by (simp add: received_def)
    ultimately show ?thesis
      using w1 inv Some full cap blk recv by (auto simp: worker_inv_def BUF_SIZE_UNIT_def)
  qed
qed

text \<open>A turn in \<open>Receive_From_Socket\<close>: the end of the input, a failure, or more bytes in the buffer.\<close>

lemma receive_turn:
  assumes rep: "rep w v" and inv: "worker_inv t l" and re: "\<And>old n w. fst (realloc S old n w) \<noteq> None"
    and recv: "curr_state t = Receive_From_Socket" and sock: "socket_file_descriptor t = sock"
  shows "\<exists>lab t' l' w'. receive_from_socket S t l w = Some (lab, t', l', w') \<and>
    (lab = Some Free_socket_fd \<and> t' = t \<and> bad w' \<or>
     lab = Some Free_mem \<and> t' = t \<and> buf l' \<noteq> None \<and> (bad w' \<or> inbox v = [] \<and> rep w' v) \<or>
     lab = None \<and> t' = t\<lparr>curr_state := Parse_data\<rparr> \<and> worker_inv t' l' \<and> start_ptr l' = start_ptr l \<and>
       (\<exists>k. 0 < k \<and> k \<le> length (inbox v) \<and> received t' l' = received t l @ take k (inbox v) \<and>
          buf_len l' = buf_len l \<and> num_bytes_read l' = int k \<and>
          rep w' (rest k v)))"
proof -
  obtain lab l1 w1 where grow: "grow_buffer S l w = Some (lab, l1, w1)"
    and g: "lab = Some Free_socket_fd \<and> buf l1 = None \<and> bad w1 \<or>
     lab = None \<and> rep w1 v \<and> worker_inv t l1 \<and> received t l1 = received t l \<and> buf_len l1 = buf_len l \<and>
       start_ptr l1 = start_ptr l \<and> buf_len l1 < buf_cap l1 \<and> buf l1 \<noteq> None"
    using grow_buffer_room [OF rep inv re recv] by blast
  show ?thesis
  proof (cases "lab = None")
    case False
    then show ?thesis using grow g by (auto simp: receive_from_socket_def)
  next
    case True
    with g obtain b where b: "buf l1 = Some b" and rep1: "rep w1 v" and inv1: "worker_inv t l1"
      and same: "received t l1 = received t l" "buf_len l1 = buf_len l" "start_ptr l1 = start_ptr l"
      and room: "buf_len l1 < buf_cap l1" by auto
    have cap: "buf_cap l1 = int (length b)" "0 \<le> buf_len l1" using inv1 b by (auto simp: worker_inv_def)
    have "0 < nat (buf_cap l1 - buf_len l1)" using room by simp
    from recv_law [OF rep1 this] obtain n bytes w2 where
      rc: "recv_sock S sock (nat (buf_cap l1 - buf_len l1)) w1 = Some (n, bytes, w2)"
      and n: "n = -1 \<and> bytes = [] \<and> bad w2 \<or> n = 0 \<and> bytes = [] \<and> inbox v = [] \<and> rep w2 v \<or>
       0 < n \<and> n \<le> int (nat (buf_cap l1 - buf_len l1)) \<and> nat n \<le> length (inbox v) \<and>
         bytes = take (nat n) (inbox v) \<and> rep w2 (rest (nat n) v)"
      by blast
    let ?at = "nat (buf_len l1)"
    let ?l2 = "l1\<lparr>num_bytes_read := n, buf := Some (take ?at b @ bytes @ drop (?at + length bytes) b)\<rparr>"
    have step: "receive_from_socket S t l w =
       (if n = -1 then Some (Some Free_mem, t, ?l2, w2)
        else if n > 0 then Some (None, t\<lparr>curr_state := Parse_data\<rparr>, ?l2, w2)
        else if n = 0 then Some (Some Free_mem, t, ?l2, w2) else Some (None, t, ?l2, w2))"
      using grow True b rc sock by (simp add: receive_from_socket_def Let_def)
    from n show ?thesis
    proof (elim disjE conjE)
      assume pos: "0 < n" "n \<le> int (nat (buf_cap l1 - buf_len l1))" "nat n \<le> length (inbox v)"
        and bytes: "bytes = take (nat n) (inbox v)" and w2: "rep w2 (rest (nat n) v)"
      have len: "length bytes = nat n" using bytes pos by simp
      have fit: "?at + nat n \<le> length b" using pos cap room by linarith
      have inv2: "worker_inv (t\<lparr>curr_state := Parse_data\<rparr>) ?l2"
        using inv1 b cap fit len pos room by (auto simp: worker_inv_def)
      have "nat (buf_len l1 + n) = ?at + nat n" using cap pos by (simp add: nat_add_distrib)
      then have "received (t\<lparr>curr_state := Parse_data\<rparr>) ?l2 = received t l1 @ bytes"
        using b recv len fit by (simp add: received_def)
      then show ?thesis
        using step pos w2 inv2 same bytes by (auto intro!: exI [of _ "nat n"])
    qed (use step in auto)
  qed
qed

text \<open>The measure of the loop: bytes still to come, and whether the last ones are still to be parsed.\<close>

lemma rest_fewer: "0 < k \<Longrightarrow> k \<le> length (inbox v) \<Longrightarrow> length (inbox (rest k v)) < length (inbox v)"
  by (simp add: inbox_rest)

text \<open>
  One pass of the loop that stays in it: a \<open>recv\<close> that brought bytes, or a scan.  Otherwise the loop
  ends here, because of a failure or the end of the input.
\<close>

lemma receive_step:
  assumes rep: "rep w v" and inv: "worker_inv t l" and re: "\<And>old n w. fst (realloc S old n w) \<noteq> None"
    and recv: "curr_state t = Receive_From_Socket" and sock: "socket_file_descriptor t = sock"
  shows "(\<exists>lb l' w'. worker_loop (receive_from_socket S) parse t l w = Some (lb, t, l', w') \<and>
      (lb = Free_socket_fd \<and> bad w' \<or> lb = Free_mem \<and> buf l' \<noteq> None \<and> (bad w' \<or> inbox v = [] \<and> rep w' v))) \<or>
    (\<exists>t' l' w' k. worker_loop (receive_from_socket S) parse t l w = worker_loop (receive_from_socket S) parse t' l' w' \<and>
      t' = t\<lparr>curr_state := Parse_data\<rparr> \<and> worker_inv t' l' \<and> start_ptr l' = start_ptr l \<and>
      0 < k \<and> k \<le> length (inbox v) \<and> received t' l' = received t l @ take k (inbox v) \<and> rep w' (rest k v))"
proof -
  note unfold = worker_loop.simps [of "receive_from_socket S" parse t l w]
  from receive_turn [OF rep inv re recv sock] show ?thesis
  proof (elim exE conjE disjE)
    fix lab t' l' w' k
    assume "receive_from_socket S t l w = Some (lab, t', l', w')" "lab = None"
      and "t' = t\<lparr>curr_state := Parse_data\<rparr>" "worker_inv t' l'" "start_ptr l' = start_ptr l"
        "0 < k" "k \<le> length (inbox v)" "received t' l' = received t l @ take k (inbox v)" "rep w' (rest k v)"
    moreover from this have "worker_loop (receive_from_socket S) parse t l w = worker_loop (receive_from_socket S) parse t' l' w'"
      using unfold recv by simp
    ultimately show ?thesis by blast
  qed (use unfold recv in auto)
qed

text \<open>
  A thread whose packet handler returns always leaves its loop, whatever arrives; the label tells
  whether there is a buffer to free, and \<open>Q\<close> is what the handler promises when it gives up.
\<close>

lemma worker_loop_returns:
  assumes handle: "\<And>t l w v n b. rep w v \<Longrightarrow> buf l = Some b \<Longrightarrow> nat (start_ptr l) + n \<le> length b \<Longrightarrow>
      n < 2 ^ 31 \<Longrightarrow> socket_file_descriptor t = sock \<Longrightarrow>
      count_list (take n (drop (nat (start_ptr l)) b)) nl \<le> 1 \<Longrightarrow>
      \<exists>lab l' w'. handle t (int n) l w = Some (lab, l', w') \<and>
        (lab = None \<and> (\<exists>s' \<ge> 0. l' = l\<lparr>start_ptr := s'\<rparr>) \<and> (\<exists>v'. rep w' v' \<and> inbox v' = inbox v) \<or>
         (\<exists>lb. lab = Some lb \<and> lb \<noteq> Free_socket_fd \<and> buf l' \<noteq> None \<and> Q lb w'))"
    and re: "\<And>old n w. fst (realloc S old n w) \<noteq> None"
  shows "rep w v \<Longrightarrow> worker_inv t l \<Longrightarrow> socket_file_descriptor t = sock \<Longrightarrow>
    length (received t l) + length (inbox v) < 2 ^ 31 \<Longrightarrow>
    \<exists>lb t' l' w'. worker_loop (receive_from_socket S) (parse_data handle) t l w = Some (lb, t', l', w') \<and>
      socket_file_descriptor t' = sock \<and> (lb = Free_socket_fd \<or> buf l' \<noteq> None) \<and>
      (lb \<in> {Free_socket_fd, Free_mem} \<and> (bad w' \<or> (\<exists>v'. rep w' v')) \<or> lb \<noteq> Free_socket_fd \<and> Q lb w')"
proof (induction "2 * length (inbox v) + (if curr_state t = Parse_data then 1 else 0)" arbitrary: t v l w
    rule: less_induct)
  case less
  note rep = less.prems(1) and inv = less.prems(2) and sock = less.prems(3) and small = less.prems(4)
  let ?loop = "worker_loop (receive_from_socket S) (parse_data handle)"
  show ?case
  proof (cases "curr_state t")
    case Receive_From_Socket
    from receive_step [OF rep inv re this sock, of "parse_data handle"] show ?thesis
    proof (elim disjE exE conjE)
      fix t' l' w' k
      assume step: "?loop t l w = ?loop t' l' w'" "t' = t\<lparr>curr_state := Parse_data\<rparr>" "worker_inv t' l'"
        and k: "0 < k" "k \<le> length (inbox v)" "received t' l' = received t l @ take k (inbox v)" "rep w' (rest k v)"
      then show ?thesis
        using less.hyps [OF _ k(4) step(3)] small sock Receive_From_Socket by (simp add: inbox_rest)
    qed (use sock in auto)
  next
    case Parse_data
    note parse = Parse_data
    from inv parse obtain b where b: "buf l = Some b" by (auto simp: worker_inv_def)
    note turn = parse_turn [OF inv parse b]
    note unfold = worker_loop.simps [of "receive_from_socket S" "parse_data handle" t l w]
    have st: "socket_file_descriptor (parsed_state t) = sock" "curr_state (parsed_state t) = Receive_From_Socket"
      using sock by (simp_all add: parsed_state_def)
    show ?thesis
    proof (cases "nl \<in> set (unparsed t l)")
      case False
      then show ?thesis
        using less.hyps [OF _ rep parsed_inv(1) [OF inv parse] st(1)] parsed_inv(2) [OF inv parse]
          small unfold parse st(2) by (simp add: turn(1))
    next
      case True
      let ?n = "length (next_packet (unparsed t l))"
      have n: "take ?n (drop (nat (start_ptr l)) b) = next_packet (unparsed t l)"
        "nat (start_ptr l) + ?n \<le> length b" "?n < 2 ^ 31"
        using turn(3) [OF True] small by auto
      have one: "count_list (take ?n (drop (nat (start_ptr l)) b)) nl \<le> 1"
        unfolding n(1) by (rule count_packet)
      from handle [OF rep b n(2,3) sock one] obtain lab l1 w1 where
        h: "handle t (int ?n) l w = Some (lab, l1, w1)" and
        res: "lab = None \<and> (\<exists>s' \<ge> 0. l1 = l\<lparr>start_ptr := s'\<rparr>) \<and> (\<exists>v'. rep w1 v' \<and> inbox v' = inbox v) \<or>
         (\<exists>lb. lab = Some lb \<and> lb \<noteq> Free_socket_fd \<and> buf l1 \<noteq> None \<and> Q lb w1)"
        by (elim exE conjE) (rule that; assumption)
      show ?thesis
      proof (cases lab)
        case (Some lb)
        then show ?thesis using unfold parse h res sock by (auto simp: turn(2) [OF True])
      next
        case None
        with res obtain s' v' where s': "0 \<le> s'" "l1 = l\<lparr>start_ptr := s'\<rparr>"
          and v': "rep w1 v'" "inbox v' = inbox v" by auto
        have inv1: "worker_inv t l1" using worker_inv_moved [OF inv s'(1)] s'(2) by simp
        have "length (received (parsed_state t) (parsed_locals l1)) + length (inbox v') < 2 ^ 31"
          using parsed_inv(2) [OF inv1 parse] small v' s' by (simp add: received_moved)
        then show ?thesis
          using less.hyps [OF _ v'(1) parsed_inv(1) [OF inv1 parse] st(1)] unfold parse h None v'(2) st(2)
          by (simp add: turn(2) [OF True])
      qed
    qed
  qed
qed

section \<open>A connection that sends one packet\<close>

text \<open>The packet arrives in pieces: the loop ends badly, or comes to parse the whole of it.\<close>

lemma packet_arrives:
  assumes re: "\<And>old n w. fst (realloc S old n w) \<noteq> None" and body: "nl \<notin> set body"
  shows "rep w v \<Longrightarrow> worker_inv t l \<Longrightarrow> socket_file_descriptor t = sock \<Longrightarrow>
    curr_state t = Receive_From_Socket \<Longrightarrow> start_ptr l = 0 \<Longrightarrow> inbox v \<noteq> [] \<Longrightarrow>
    received t l @ inbox v = body @ [nl] \<Longrightarrow>
    (\<exists>lb l' w'. worker_loop (receive_from_socket S) (parse_data handle) t l w = Some (lb, t, l', w') \<and>
       (lb = Free_socket_fd \<or> lb = Free_mem \<and> buf l' \<noteq> None) \<and> bad w') \<or>
    (\<exists>l' w'. worker_loop (receive_from_socket S) (parse_data handle) t l w =
         worker_loop (receive_from_socket S) (parse_data handle) (t\<lparr>curr_state := Parse_data\<rparr>) l' w' \<and>
       worker_inv (t\<lparr>curr_state := Parse_data\<rparr>) l' \<and> start_ptr l' = 0 \<and>
       received (t\<lparr>curr_state := Parse_data\<rparr>) l' = body @ [nl] \<and> rep w' (rest (length (inbox v)) v))"
proof (induction "length (inbox v)" arbitrary: v l w rule: less_induct)
  case less
  note rep = less.prems(1) and inv = less.prems(2) and sock = less.prems(3) and recv = less.prems(4)
    and start = less.prems(5) and some = less.prems(6) and pkt = less.prems(7)
  let ?loop = "worker_loop (receive_from_socket S) (parse_data handle)" and ?p = "t\<lparr>curr_state := Parse_data\<rparr>"
  from receive_step [OF rep inv re recv sock, of "parse_data handle"] show ?case
  proof (elim disjE exE conjE)
    fix t' l1 w1 k
    assume step: "?loop t l w = ?loop t' l1 w1" and t': "t' = ?p" and inv1: "worker_inv t' l1"
      and start1: "start_ptr l1 = start_ptr l"
      and k: "0 < k" "k \<le> length (inbox v)" and rc: "received t' l1 = received t l @ take k (inbox v)"
      and rep1: "rep w1 (rest k v)"
    have all: "received ?p l1 @ drop k (inbox v) = body @ [nl]"
      using pkt rc t' by (metis append_assoc append_take_drop_id)
    show ?thesis
    proof (cases "drop k (inbox v) = []")
      case True
      then have "k = length (inbox v)" using k by simp
      then show ?thesis using step t' inv1 start1 start all True rep1 by auto
    next
      case False
      then obtain ys y where "drop k (inbox v) = ys @ [y]" by (metis rev_exhaust)
      then have "received ?p l1 @ ys = body" using all by (metis append_assoc append1_eq_conv)
      then have none: "nl \<notin> set (unparsed ?p l1)" using body start1 start by (auto simp: unparsed_def)
      have parse: "curr_state ?p = Parse_data" by simp
      obtain b where b: "buf l1 = Some b" using inv1 t' by (auto simp: worker_inv_def)
      have again: "parsed_state ?p = t" using recv by (simp add: parsed_state_def)
      have "?loop t l w = ?loop t (parsed_locals l1) w1"
        using step t' again parse
        by (simp add: worker_loop.simps [of "receive_from_socket S" _ ?p] parse_turn(1) [OF inv1 [unfolded t'] parse b none])
      moreover have "received t (parsed_locals l1) @ inbox (rest k v) = body @ [nl]"
        using all parsed_inv(2) [OF inv1 [unfolded t'] parse] again by (simp add: inbox_rest)
      moreover have "worker_inv t (parsed_locals l1)" using parsed_inv(1) [OF inv1 [unfolded t'] parse] again by simp
      moreover have "start_ptr (parsed_locals l1) = 0" using start1 start by (simp add: parsed_locals_def)
      ultimately show ?thesis
        using less.hyps [OF rest_fewer [OF k] rep1 _ sock recv] False k(2) by (simp add: inbox_rest rest_rest)
    qed
  qed (use some in auto)
qed

text \<open>Then the packet is handled, and the next \<open>recv\<close> finds the end of the input.\<close>

lemma packet_handled:
  assumes re: "\<And>old n w. fst (realloc S old n w) \<noteq> None" and body: "nl \<notin> set body"
    and inv: "worker_inv t l" and parse: "curr_state t = Parse_data" and sock: "socket_file_descriptor t = sock"
    and start: "start_ptr l = 0" and got: "received t l = body @ [nl]"
    and handle: "\<And>b. buf l = Some b \<Longrightarrow> take (length (body @ [nl])) b = body @ [nl] \<Longrightarrow>
      length (body @ [nl]) \<le> length b \<Longrightarrow> \<exists>lab l' w'. handle t (int (length (body @ [nl]))) l w = Some (lab, l', w') \<and>
        (lab = None \<and> (\<exists>s' \<ge> 0. l' = l\<lparr>start_ptr := s'\<rparr>) \<and> rep w' v \<or>
         (\<exists>lb. lab = Some lb \<and> lb \<noteq> Free_socket_fd \<and> buf l' \<noteq> None \<and> Q lb w'))"
    and empty: "inbox v = []"
  shows "\<exists>lb t' l' w'. worker_loop (receive_from_socket S) (parse_data handle) t l w = Some (lb, t', l', w') \<and>
      socket_file_descriptor t' = sock \<and> (lb = Free_socket_fd \<or> buf l' \<noteq> None) \<and>
      (lb = Free_mem \<and> rep w' v \<or> lb \<in> {Free_socket_fd, Free_mem} \<and> bad w' \<or> lb \<noteq> Free_socket_fd \<and> Q lb w')"
proof -
  let ?pkt = "body @ [nl]" and ?loop = "worker_loop (receive_from_socket S) (parse_data handle)"
  obtain b where b: "buf l = Some b" using inv parse by (auto simp: worker_inv_def)
  have un: "unparsed t l = ?pkt" using got start by (simp add: unparsed_def)
  then have nl: "nl \<in> set (unparsed t l)" and np: "next_packet (unparsed t l) = ?pkt"
    using takeWhile_first [OF body, of "[]"] by (simp_all add: next_packet_def)
  note turn = parse_turn(2) [OF inv parse b nl, unfolded np]
  have mem: "take (length ?pkt) b = ?pkt" "length ?pkt \<le> length b"
    using parse_turn(3) [OF inv parse b nl, unfolded np] start by simp_all
  from handle [OF b mem] obtain lab l1 w1 where h: "handle t (int (length ?pkt)) l w = Some (lab, l1, w1)" and
    res: "lab = None \<and> (\<exists>s' \<ge> 0. l1 = l\<lparr>start_ptr := s'\<rparr>) \<and> rep w1 v \<or>
         (\<exists>lb. lab = Some lb \<and> lb \<noteq> Free_socket_fd \<and> buf l1 \<noteq> None \<and> Q lb w1)"
    by (elim exE conjE) (rule that; assumption)
  note unfold = worker_loop.simps [of "receive_from_socket S" "parse_data handle" t l w]
  show ?thesis
  proof (cases lab)
    case (Some lb)
    then show ?thesis using unfold parse h res sock by (auto simp: turn)
  next
    case None
    with res obtain s' where l1: "0 \<le> s'" "l1 = l\<lparr>start_ptr := s'\<rparr>" and rep1: "rep w1 v" by auto
    have inv1: "worker_inv t l1" unfolding l1(2) by (rule worker_inv_moved [OF inv l1(1)])
    have st: "socket_file_descriptor (parsed_state t) = sock" "curr_state (parsed_state t) = Receive_From_Socket"
      using sock by (simp_all add: parsed_state_def)
    have "?loop t l w = ?loop (parsed_state t) (parsed_locals l1) w1"
      using unfold parse h None by (simp add: turn)
    then show ?thesis
      using receive_step [OF rep1 parsed_inv(1) [OF inv1 parse] re st(2,1), of "parse_data handle"] empty st(1) by auto
  qed
qed

lemma one_packet:
  assumes re: "\<And>old n w. fst (realloc S old n w) \<noteq> None" and body: "nl \<notin> set body"
    and rep: "rep w v" and t: "curr_state t = Receive_From_Socket" "socket_file_descriptor t = sock"
    and inbox: "inbox v = body @ [nl]" and empty: "inbox v' = []"
    and handle: "\<And>t l w b. rep w (rest (length (body @ [nl])) v) \<Longrightarrow> socket_file_descriptor t = sock \<Longrightarrow> start_ptr l = 0 \<Longrightarrow>
      buf l = Some b \<Longrightarrow> take (length (body @ [nl])) b = body @ [nl] \<Longrightarrow> length (body @ [nl]) \<le> length b \<Longrightarrow>
      \<exists>lab l' w'. handle t (int (length (body @ [nl]))) l w = Some (lab, l', w') \<and>
        (lab = None \<and> (\<exists>s' \<ge> 0. l' = l\<lparr>start_ptr := s'\<rparr>) \<and> rep w' v' \<or>
         (\<exists>lb. lab = Some lb \<and> lb \<noteq> Free_socket_fd \<and> buf l' \<noteq> None \<and> Q lb w'))"
  shows "\<exists>lb t' l' w'. worker_loop (receive_from_socket S) (parse_data handle) t worker_start w = Some (lb, t', l', w') \<and>
      socket_file_descriptor t' = sock \<and> (lb = Free_socket_fd \<or> buf l' \<noteq> None) \<and>
      (lb = Free_mem \<and> rep w' v' \<or> lb \<in> {Free_socket_fd, Free_mem} \<and> bad w' \<or> lb \<noteq> Free_socket_fd \<and> Q lb w')"
proof -
  let ?p = "t\<lparr>curr_state := Parse_data\<rparr>"
  have "start_ptr worker_start = 0" "inbox v \<noteq> []" "received t worker_start @ inbox v = body @ [nl]"
    using inbox worker_start_inv(2) [OF t(1)] by (simp_all add: worker_start_def)
  from packet_arrives [OF re body rep worker_start_inv(1) [OF t(1)] t(2,1) this, of handle] show ?thesis
  proof (elim disjE exE conjE)
    fix l' w'
    assume step: "worker_loop (receive_from_socket S) (parse_data handle) t worker_start w =
        worker_loop (receive_from_socket S) (parse_data handle) ?p l' w'"
      and l': "worker_inv ?p l'" "start_ptr l' = 0" "received ?p l' = body @ [nl]"
      and rep': "rep w' (rest (length (inbox v)) v)"
    have "\<exists>lb t1 l1 w1. worker_loop (receive_from_socket S) (parse_data handle) ?p l' w' = Some (lb, t1, l1, w1) \<and>
      socket_file_descriptor t1 = sock \<and> (lb = Free_socket_fd \<or> buf l1 \<noteq> None) \<and>
      (lb = Free_mem \<and> rep w1 v' \<or> lb \<in> {Free_socket_fd, Free_mem} \<and> bad w1 \<or> lb \<noteq> Free_socket_fd \<and> Q lb w1)"
      by (rule packet_handled [OF re body l'(1) _ _ l'(2,3) _ empty]) (use t rep' l'(2) handle inbox in \<open>auto simp: inbox_rest\<close>)
    then show ?thesis using step by simp
  qed (use t in auto)
qed

end

end
