(* ===== verification/WorkerProofs.thy ===== *)
theory WorkerProofs
  imports Connection
begin

text \<open>
  What a connection thread relies on (the locale \<open>log_server\<close>) and what it then does: every packet is
  stored and answered with the whole log, the buffer is never overrun, and the thread always ends
  with its socket closed and its memory freed.
\<close>

section \<open>The world as the thread sees it\<close>

text \<open>
  The log's complete lines and incomplete rest, the position of every open file, the bytes that
  will still arrive on the socket and the bytes sent so far.
\<close>

record view =
  v_lines :: "byte list list"
  v_pend :: "byte list"
  v_files :: "int \<Rightarrow> nat option"
  v_inbox :: "byte list"
  v_sent :: "byte list"

definition accept_view :: "view \<Rightarrow> byte list \<Rightarrow> view" where
  "accept_view v bs =
     (let (ls, r) = accept_bytes (v_lines v) (v_pend v) bs in v\<lparr>v_lines := ls, v_pend := r\<rparr>)"

definition at_pos :: "int \<Rightarrow> nat \<Rightarrow> view \<Rightarrow> view" where
  "at_pos fd p v = v\<lparr>v_files := (v_files v)(fd \<mapsto> p)\<rparr>"

definition sent :: "byte list \<Rightarrow> view \<Rightarrow> view" where
  "sent bs v = v\<lparr>v_sent := v_sent v @ bs\<rparr>"

text \<open>
  The contract.  A call either does what its page says on the view, or fails and makes the world
  \<open>bad\<close>; \<open>EINTR\<close> consumes nothing and does not recur forever.  Closing keeps a bad world bad.
\<close>

locale log_server = receiver S rep bad v_inbox "\<lambda>k v. v\<lparr>v_inbox := drop k (v_inbox v)\<rparr>" sock
  for S :: "'w sys" and rep :: "'w \<Rightarrow> view \<Rightarrow> bool" and bad :: "'w \<Rightarrow> bool" and sock :: int +
  fixes intr :: "'w \<Rightarrow> nat" and seek_target :: "'w \<Rightarrow> u32 \<Rightarrow> u32 \<Rightarrow> nat option"
  assumes rep_wf: "rep w v \<Longrightarrow> length (v_lines v) \<le> 10 \<and> nl \<notin> set (v_pend v)"
    and open_law: "rep w v \<Longrightarrow> \<exists>fd w'. open_log S w = Some (fd, w') \<and>
      (fd = -1 \<and> bad w' \<or> fd \<noteq> -1 \<and> fd \<noteq> sock \<and> v_files v fd = None \<and> rep w' (at_pos fd 0 v) \<and>
         seek_target w' = seek_target w)"
    and close_law: "\<exists>w'. close_fd S fd w = Some w' \<and> (bad w \<longrightarrow> bad w') \<and>
      (\<forall>v. rep w v \<longrightarrow> rep w' (v\<lparr>v_files := (v_files v)(fd := None)\<rparr>))"
    and write_law: "rep w v \<Longrightarrow> v_files v fd \<noteq> None \<Longrightarrow> bs \<noteq> [] \<Longrightarrow> count_list bs nl \<le> 1 \<Longrightarrow>
      length bs < 2 ^ 31 \<Longrightarrow> \<exists>r e w'. write_fd S fd bs w = Some (r, e, w') \<and>
        (r = -1 \<and> (if e = EINTR then rep w' v \<and> intr w' < intr w else bad w') \<or>
         0 < r \<and> nat r \<le> length bs \<and> rep w' (accept_view v (take (nat r) bs)) \<and> intr w' \<le> intr w)"
    and read_law: "rep w v \<Longrightarrow> v_files v fd = Some p \<Longrightarrow> 0 < n \<Longrightarrow> n < 2 ^ 31 \<Longrightarrow>
      \<exists>r e bs w'. read_fd S fd n w = Some (r, e, bs, w') \<and>
        (r = -1 \<and> (\<exists>p'. rep w' (at_pos fd p' v)) \<and>
           (if e = EINTR then rep w' v \<and> intr w' < intr w else bad w') \<or>
         r = 0 \<and> drop p (concat (v_lines v)) = [] \<and> (\<exists>p'. rep w' (at_pos fd p' v)) \<or>
         0 < r \<and> r \<le> int n \<and> p + nat r \<le> length (concat (v_lines v)) \<and>
           bs = take (nat r) (drop p (concat (v_lines v))) \<and>
           rep w' (at_pos fd (p + nat r) v) \<and> intr w' \<le> intr w)"
    and send_law: "rep w v \<Longrightarrow> bs \<noteq> [] \<Longrightarrow> length bs < 2 ^ 31 \<Longrightarrow>
      \<exists>r e w'. send_sock S sock bs w = Some (r, e, w') \<and>
        (r = -1 \<and> rep w' v \<and> bad w' \<and> (e = EINTR \<longrightarrow> intr w' < intr w) \<or>
         0 < r \<and> nat r \<le> length bs \<and> rep w' (sent (take (nat r) bs) v) \<and> intr w' \<le> intr w)"
    and ioctl_law: "rep w v \<Longrightarrow> v_files v fd = Some p \<Longrightarrow> \<exists>r w'. ioctl_seekto S fd c off w = Some (r, w') \<and>
      (case seek_target w c off of
         Some p' \<Rightarrow> r = 0 \<and> rep w' (at_pos fd p' v) \<or> r \<noteq> 0 \<and> rep w' v
       | None \<Rightarrow> r \<noteq> 0 \<and> rep w' v)"
begin

lemma accept_view_Nil: "rep w v \<Longrightarrow> accept_view v [] = v"
  using accept_none [of "v_pend v" "[]" "v_lines v"] rep_wf [of w v] by (simp add: accept_view_def)

end

lemma accept_view_append: "accept_view (accept_view v xs) ys = accept_view v (xs @ ys)"
  using accept_append [of "v_lines v" "v_pend v" xs _ _ ys]
  by (auto simp: accept_view_def split: prod.splits)

lemma accept_view_files [simp]: "v_files (accept_view v bs) = v_files v"
  "v_inbox (accept_view v bs) = v_inbox v" "v_sent (accept_view v bs) = v_sent v"
  by (auto simp: accept_view_def split: prod.splits)

lemma at_pos_simps [simp]: "v_files (at_pos fd p v) = (v_files v)(fd \<mapsto> p)"
  "v_lines (at_pos fd p v) = v_lines v" "v_pend (at_pos fd p v) = v_pend v"
  "v_inbox (at_pos fd p v) = v_inbox v" "v_sent (at_pos fd p v) = v_sent v"
  "at_pos fd q (at_pos fd p v) = at_pos fd q v"
  by (simp_all add: at_pos_def)

lemma sent_simps [simp]: "v_files (sent bs v) = v_files v" "v_lines (sent bs v) = v_lines v"
  "v_pend (sent bs v) = v_pend v" "v_inbox (sent bs v) = v_inbox v" "v_sent (sent bs v) = v_sent v @ bs"
  "sent ys (sent xs v) = sent (xs @ ys) v" "sent [] v = v"
  by (simp_all add: sent_def)

lemma at_pos_sent: "at_pos fd p (sent bs v) = sent bs (at_pos fd p v)"
  by (simp add: at_pos_def sent_def)

lemma at_pos_same: "v_files v fd = Some p \<Longrightarrow> at_pos fd p v = v"
  by (simp add: at_pos_def fun_upd_idem)

section \<open>Writing a packet and answering it\<close>

sublocale log_server \<subseteq> log_sink: byte_sink
  "\<lambda>w acc. v_files v0 fd \<noteq> None \<and> rep w (accept_view v0 acc)" intr bad
  "\<lambda>bs. count_list bs nl \<le> 1" "write_fd S fd" for v0 fd
proof
  fix w acc and bs :: "byte list"
  assume rep: "v_files v0 fd \<noteq> None \<and> rep w (accept_view v0 acc)" and one: "count_list bs nl \<le> 1"
    and bs: "bs \<noteq> []" "length bs < 2 ^ 31"
  then have files: "v_files (accept_view v0 acc) fd \<noteq> None" by simp
  then have keep: "(v_files v0 fd \<noteq> None) = True" by simp
  from write_law [OF conjunct2 [OF rep] files bs(1) one bs(2)] show "\<exists>r e w'. write_fd S fd bs w = Some (r, e, w') \<and>
      (r = -1 \<and> (if e = EINTR then (v_files v0 fd \<noteq> None \<and> rep w' (accept_view v0 acc)) \<and> intr w' < intr w
         else bad w') \<or>
       0 < r \<and> nat r \<le> length bs \<and>
       (v_files v0 fd \<noteq> None \<and> rep w' (accept_view v0 (acc @ take (nat r) bs))) \<and> intr w' \<le> intr w)"
    by (simp only: accept_view_append keep simp_thms)
next
  fix bs :: "byte list" and n
  assume "count_list bs nl \<le> 1"
  moreover have "count_list bs nl = count_list (take n bs) nl + count_list (drop n bs) nl"
    by (metis append_take_drop_id count_list_append)
  ultimately show "count_list (drop n bs) nl \<le> 1" by simp
qed

sublocale log_server \<subseteq> echo: byte_copy
  "\<lambda>w rest. \<exists>p snt. rep w (sent snt (at_pos fd p v0)) \<and> rest = drop p (concat (v_lines v0))" intr bad
  "read_fd S fd" "\<lambda>w acc. \<exists>p. rep w (sent acc (at_pos fd p v0))" "\<lambda>_. True" "send_sock S sock" for v0 fd
proof
  fix w rest and n :: nat
  assume "\<exists>p snt. rep w (sent snt (at_pos fd p v0)) \<and> rest = drop p (concat (v_lines v0))"
    and n: "0 < n" "n < 2 ^ 31"
  then obtain p snt where rep: "rep w (sent snt (at_pos fd p v0))" and rest: "rest = drop p (concat (v_lines v0))"
    by blast
  have "v_files (sent snt (at_pos fd p v0)) fd = Some p" by simp
  from read_law [OF rep this n] obtain r e bs w' where rd: "read_fd S fd n w = Some (r, e, bs, w')"
    and res: "r = -1 \<and> (if e = EINTR then rep w' (sent snt (at_pos fd p v0)) \<and> intr w' < intr w else bad w') \<or>
       r = 0 \<and> rest = [] \<or>
       0 < r \<and> r \<le> int n \<and> p + nat r \<le> length (concat (v_lines v0)) \<and> bs = take (nat r) rest \<and>
         rep w' (sent snt (at_pos fd (p + nat r) v0)) \<and> intr w' \<le> intr w"
    unfolding rest at_pos_sent by auto
  from res show "\<exists>r e bs w'. read_fd S fd n w = Some (r, e, bs, w') \<and>
     (r = -1 \<and> (if e = EINTR then (\<exists>p snt. rep w' (sent snt (at_pos fd p v0)) \<and>
          rest = drop p (concat (v_lines v0))) \<and> intr w' < intr w else bad w') \<or>
      r = 0 \<and> rest = [] \<or>
      0 < r \<and> r \<le> int n \<and> nat r \<le> length rest \<and> bs = take (nat r) rest \<and>
        (\<exists>p snt. rep w' (sent snt (at_pos fd p v0)) \<and> drop (nat r) rest = drop p (concat (v_lines v0))) \<and>
        intr w' \<le> intr w)"
  proof (elim disjE)
    assume a: "0 < r \<and> r \<le> int n \<and> p + nat r \<le> length (concat (v_lines v0)) \<and> bs = take (nat r) rest \<and>
         rep w' (sent snt (at_pos fd (p + nat r) v0)) \<and> intr w' \<le> intr w"
    then have "nat r \<le> length rest" by (simp only: rest length_drop) linarith
    moreover have "drop (nat r) rest = drop (p + nat r) (concat (v_lines v0))"
      by (simp add: rest add.commute)
    ultimately show ?thesis using a rd by blast
  next
    assume "r = -1 \<and> (if e = EINTR then rep w' (sent snt (at_pos fd p v0)) \<and> intr w' < intr w else bad w')"
    then show ?thesis using rd rest by (cases "e = EINTR") (simp, blast, simp)
  qed (use rd in blast)
next
  fix w acc and bs :: "byte list"
  assume "\<exists>p. rep w (sent acc (at_pos fd p v0))" and bs: "bs \<noteq> []" "length bs < 2 ^ 31"
  then obtain p where "rep w (sent acc (at_pos fd p v0))" by blast
  from send_law [OF this bs] show "\<exists>r e w'. send_sock S sock bs w = Some (r, e, w') \<and>
      (r = -1 \<and> (if e = EINTR then (\<exists>p. rep w' (sent acc (at_pos fd p v0))) \<and> intr w' < intr w else bad w') \<or>
       0 < r \<and> nat r \<le> length bs \<and> (\<exists>p. rep w' (sent (acc @ take (nat r) bs) (at_pos fd p v0))) \<and>
       intr w' \<le> intr w)"
    by fastforce
next
  fix w acc n r e bs w'
  assume "\<exists>p. rep w (sent acc (at_pos fd p v0))" and n: "0 < n" "n < 2 ^ 31"
    and rd: "read_fd S fd n w = Some (r, e, bs, w')"
  then obtain p where rep: "rep w (sent acc (at_pos fd p v0))" by blast
  have "v_files (sent acc (at_pos fd p v0)) fd = Some p" by simp
  from read_law [OF rep this n] rd show "\<exists>p. rep w' (sent acc (at_pos fd p v0))"
    unfolding at_pos_sent by auto
next
  fix w rest r e w' and bs :: "byte list"
  assume "\<exists>p snt. rep w (sent snt (at_pos fd p v0)) \<and> rest = drop p (concat (v_lines v0))"
    and bs: "bs \<noteq> []" "length bs < 2 ^ 31" and snd_call: "send_sock S sock bs w = Some (r, e, w')"
  then obtain p snt where rep: "rep w (sent snt (at_pos fd p v0))"
    and "rest = drop p (concat (v_lines v0))" by blast
  with send_law [OF rep bs] snd_call
  show "\<exists>p snt. rep w' (sent snt (at_pos fd p v0)) \<and> rest = drop p (concat (v_lines v0))"
    by auto
next
  fix w acc e w' and bs :: "byte list"
  assume "\<exists>p. rep w (sent acc (at_pos fd p v0))" and bs: "bs \<noteq> []" "length bs < 2 ^ 31"
    and snd_call: "send_sock S sock bs w = Some (-1, e, w')"
  then obtain p where "rep w (sent acc (at_pos fd p v0))" by blast
  from send_law [OF this bs] snd_call show "bad w'" by auto
qed simp_all

text \<open>A packet stored and answered; a seek command answered from the position it selects.\<close>

definition answered :: "byte list \<Rightarrow> view \<Rightarrow> view" where
  "answered pkt v = sent (concat (v_lines (accept_view v pkt))) (accept_view v pkt)"

lemma answered_inbox [simp]: "v_inbox (answered pkt v) = v_inbox v" "v_files (answered pkt v) = v_files v"
  by (simp_all add: answered_def)

definition closed_fd :: "int \<Rightarrow> view \<Rightarrow> view" where
  "closed_fd fd v = v\<lparr>v_files := (v_files v)(fd := None)\<rparr>"

lemma closed_fd_at: "v_files v fd = None \<Longrightarrow> closed_fd fd (at_pos fd p v) = v"
  by (simp add: closed_fd_def at_pos_def fun_upd_idem)

lemma closed_fd_sent: "closed_fd fd (sent bs v) = sent bs (closed_fd fd v)"
  by (simp add: closed_fd_def sent_def)

lemma accept_view_at: "accept_view (at_pos fd p v) bs = at_pos fd p (accept_view v bs)"
  by (simp add: accept_view_def at_pos_def split: prod.splits)

context log_server
begin

text \<open>The common end of a packet: echo the log from position \<open>p\<close> and close the file.\<close>

lemma echo_and_close:
  assumes rep: "rep w (at_pos fd p v)" and fd: "fd \<noteq> sock" "v_files v fd = None"
  shows "\<exists>r w3. echo_file_socket (read_fd S fd) (send_sock S sock) w = Some (r, w3) \<and>
    (r = -1 \<and> bad w3 \<or>
     r \<noteq> -1 \<and> (\<exists>w4. close_fd S fd w3 = Some w4 \<and> rep w4 (sent (drop p (concat (v_lines v))) v)))"
proof -
  have "\<exists>q snt. rep w (sent snt (at_pos fd q v)) \<and> drop p (concat (v_lines v)) = drop q (concat (v_lines v))"
    using rep by (intro exI [of _ p] exI [of _ "[]"]) simp
  moreover have "\<exists>q. rep w (sent [] (at_pos fd q v))" using rep by (intro exI [of _ p]) simp
  ultimately obtain r w3 where run: "echo_file_socket (read_fd S fd) (send_sock S sock) w = Some (r, w3)"
    and r: "r = 0 \<and> (\<exists>q. rep w3 (sent ([] @ drop p (concat (v_lines v))) (at_pos fd q v))) \<or> r = -1 \<and> bad w3"
    using echo.echo_returns [of w fd v "drop p (concat (v_lines v))" "[]"] by blast
  show ?thesis
  proof (cases "r = -1")
    case False
    with r obtain q where "rep w3 (sent (drop p (concat (v_lines v))) (at_pos fd q v))" by auto
    moreover obtain w4 where close: "close_fd S fd w3 = Some w4"
      "\<forall>u. rep w3 u \<longrightarrow> rep w4 (closed_fd fd u)"
      using close_law [of fd w3] unfolding closed_fd_def by blast
    ultimately have "rep w4 (sent (drop p (concat (v_lines v))) v)"
      using closed_fd_at [OF fd(2)] by (metis closed_fd_sent)
    with run close False show ?thesis by auto
  qed (use run r in auto)
qed

lemma char_packet_stores:
  assumes rep: "rep w v" and b: "buf l = Some b" and n: "n < 2 ^ 31" "nat (start_ptr l) + n \<le> length b"
    and sock: "socket_file_descriptor t = sock"
    and plain: "take 19 (drop (nat (start_ptr l)) b) \<noteq> seek_command"
    and one: "count_list (take n (drop (nat (start_ptr l)) b)) nl \<le> 1"
  shows "\<exists>lab l' w'. char_packet S t (int n) l w = Some (lab, l', w') \<and>
    (lab = None \<and> l' = l\<lparr>start_ptr := int n\<rparr> \<and> rep w' (answered (take n (drop (nat (start_ptr l)) b)) v) \<or>
     (lab = Some Free_mem \<or> (\<exists>fd. lab = Some (Close_file_descriptor fd))) \<and> l' = l \<and> bad w')"
proof -
  let ?mem = "drop (nat (start_ptr l)) b"
  let ?pkt = "take n ?mem"
  obtain fd w1 where opn: "open_log S w = Some (fd, w1)"
    and fd: "fd = -1 \<and> bad w1 \<or> fd \<noteq> -1 \<and> fd \<noteq> sock \<and> v_files v fd = None \<and> rep w1 (at_pos fd 0 v)"
    using open_law [OF rep] by blast
  show ?thesis
  proof (cases "fd = -1")
    case False
    with fd have ne: "fd \<noteq> sock" "v_files v fd = None" and rep1: "rep w1 (at_pos fd 0 v)" by auto
    have "v_files (at_pos fd 0 v) fd \<noteq> None \<and> rep w1 (accept_view (at_pos fd 0 v) [])"
      using rep1 accept_view_Nil [OF rep1] by simp
    moreover have "n \<le> length ?mem" using n(2) by (simp only: length_drop)
    ultimately obtain r w2 where
      dump: "dump_content (write_fd S fd) ?mem (int n) w1 = Some (r, w2)"
      and r: "r = 0 \<and> rep w2 (accept_view (at_pos fd 0 v) ?pkt) \<or> r = -1 \<and> bad w2"
      using log_sink.dump_content_returns [OF _ one _ n(1)] by (metis append_Nil)
    show ?thesis
    proof (cases "r = -1")
      case True
      then show ?thesis using opn False b plain dump r by (simp add: char_packet_def Let_def)
    next
      case ok: False
      with r have rep2: "rep w2 (at_pos fd 0 (accept_view v ?pkt))" by (simp add: accept_view_at)
      from echo_and_close [OF rep2 ne(1)] ne(2) obtain q w3 where
        "echo_file_socket (read_fd S fd) (send_sock S sock) w2 = Some (q, w3)"
        and "q = -1 \<and> bad w3 \<or> q \<noteq> -1 \<and> (\<exists>w4. close_fd S fd w3 = Some w4 \<and> rep w4 (answered ?pkt v))"
        by (auto simp: answered_def)
      then show ?thesis
        using opn False b plain dump ok sock by (auto simp: char_packet_def Let_def)
    qed
  qed (use opn fd in \<open>simp add: char_packet_def\<close>)
qed

text \<open>A seek command answers from wherever it may leave the file, one of \<open>P\<close>.\<close>

lemma char_packet_seek_run:
  assumes rep: "rep w v" and b: "buf l = Some b" and sock: "socket_file_descriptor t = sock"
    and cmd: "take 19 (drop (nat (start_ptr l)) b) = seek_command"
    and seeks: "\<And>fd w1. rep w1 (at_pos fd 0 v) \<Longrightarrow> seek_target w1 = seek_target w \<Longrightarrow>
      \<exists>w2 p. run_seek_command S fd (drop (nat (start_ptr l)) b) w1 = Some (0, w2) \<and> p \<in> P \<and> rep w2 (at_pos fd p v)"
  shows "\<exists>lab l' w'. char_packet S t n l w = Some (lab, l', w') \<and>
    (lab = None \<and> l' = l\<lparr>start_ptr := n\<rparr> \<and> (\<exists>p \<in> P. rep w' (sent (drop p (concat (v_lines v))) v)) \<or>
     (lab = Some Free_mem \<or> (\<exists>fd. lab = Some (Close_file_descriptor fd))) \<and> l' = l \<and> bad w')"
proof -
  obtain fd w1 where opn: "open_log S w = Some (fd, w1)"
    and fd: "fd = -1 \<and> bad w1 \<or> fd \<noteq> -1 \<and> fd \<noteq> sock \<and> v_files v fd = None \<and> rep w1 (at_pos fd 0 v) \<and>
      seek_target w1 = seek_target w"
    using open_law [OF rep] by blast
  show ?thesis
  proof (cases "fd = -1")
    case False
    with fd have ne: "fd \<noteq> sock" "v_files v fd = None" and rep1: "rep w1 (at_pos fd 0 v)"
      and tgt: "seek_target w1 = seek_target w" by auto
    from seeks [OF rep1 tgt] obtain w2 p where
      seek: "run_seek_command S fd (drop (nat (start_ptr l)) b) w1 = Some (0, w2)" and p: "p \<in> P"
      and rep2: "rep w2 (at_pos fd p v)" by blast
    from echo_and_close [OF rep2 ne] obtain q w3 where
      "echo_file_socket (read_fd S fd) (send_sock S sock) w2 = Some (q, w3)"
      and "q = -1 \<and> bad w3 \<or>
        q \<noteq> -1 \<and> (\<exists>w4. close_fd S fd w3 = Some w4 \<and> rep w4 (sent (drop p (concat (v_lines v))) v))"
      by blast
    then show ?thesis
      using opn False b cmd seek p sock by (auto simp: char_packet_def Let_def)
  qed (use opn fd in \<open>simp add: char_packet_def\<close>)
qed

text \<open>Whatever the command says, the answer is a tail of the lines.\<close>

lemma char_packet_seeks:
  assumes rep: "rep w v" and b: "buf l = Some b" and sock: "socket_file_descriptor t = sock"
    and cmd: "take 19 (drop (nat (start_ptr l)) b) = seek_command"
  shows "\<exists>lab l' w'. char_packet S t n l w = Some (lab, l', w') \<and>
    (lab = None \<and> l' = l\<lparr>start_ptr := n\<rparr> \<and> (\<exists>p. rep w' (sent (drop p (concat (v_lines v))) v)) \<or>
     (lab = Some Free_mem \<or> (\<exists>fd. lab = Some (Close_file_descriptor fd))) \<and> l' = l \<and> bad w')"
proof -
  let ?mem = "drop (nat (start_ptr l)) b"
  have "\<exists>w2 p. run_seek_command S fd ?mem w1 = Some (0, w2) \<and> p \<in> UNIV \<and> rep w2 (at_pos fd p v)"
    if rep1: "rep w1 (at_pos fd 0 v)" for fd w1
  proof (cases "sscanf_seekto ?mem")
    case None
    then show ?thesis using rep1 by (auto simp: run_seek_command_def)
  next
    case (Some co)
    obtain c off where co: "sscanf_seekto ?mem = Some (c, off)" using Some by (cases co) auto
    from ioctl_law [OF rep1, of fd 0 c off] obtain r w2 where io: "ioctl_seekto S fd c off w1 = Some (r, w2)"
      and out: "case seek_target w1 c off of
           Some p' \<Rightarrow> r = 0 \<and> rep w2 (at_pos fd p' (at_pos fd 0 v)) \<or> r \<noteq> 0 \<and> rep w2 (at_pos fd 0 v)
         | None \<Rightarrow> r \<noteq> 0 \<and> rep w2 (at_pos fd 0 v)"
      by auto
    from out have "\<exists>p. rep w2 (at_pos fd p v)" by (cases "seek_target w1 c off") auto
    with io show ?thesis by (auto simp: run_seek_command_def co)
  qed
  from char_packet_seek_run [OF assms this, of n] show ?thesis by blast
qed

text \<open>When the request is well formed and the call does not fail, from the byte it asks for.\<close>

lemma char_packet_seeks_to:
  assumes rep: "rep w v" and b: "buf l = Some b" and sock: "socket_file_descriptor t = sock"
    and cmd: "take 19 (drop (nat (start_ptr l)) b) = seek_command"
    and co: "sscanf_seekto (drop (nat (start_ptr l)) b) = Some (c, off)" and p: "seek_target w c off = Some p"
    and sure: "\<forall>fd w1 r w2. rep w1 (at_pos fd 0 v) \<longrightarrow> seek_target w1 = seek_target w \<longrightarrow>
      ioctl_seekto S fd c off w1 = Some (r, w2) \<longrightarrow> r = 0"
  shows "\<exists>lab l' w'. char_packet S t n l w = Some (lab, l', w') \<and>
    (lab = None \<and> l' = l\<lparr>start_ptr := n\<rparr> \<and> rep w' (sent (drop p (concat (v_lines v))) v) \<or>
     (lab = Some Free_mem \<or> (\<exists>fd. lab = Some (Close_file_descriptor fd))) \<and> l' = l \<and> bad w')"
proof -
  have "\<exists>w2 q. run_seek_command S fd (drop (nat (start_ptr l)) b) w1 = Some (0, w2) \<and> q \<in> {p} \<and> rep w2 (at_pos fd q v)"
    if rep1: "rep w1 (at_pos fd 0 v)" and tgt: "seek_target w1 = seek_target w" for fd w1
  proof -
    from ioctl_law [OF rep1, of fd 0 c off] tgt p obtain r w2 where io: "ioctl_seekto S fd c off w1 = Some (r, w2)"
      and "r = 0 \<and> rep w2 (at_pos fd p v) \<or> r \<noteq> 0 \<and> rep w2 (at_pos fd 0 v)"
      by auto
    with sure rep1 tgt io have "r = 0" by blast
    with io \<open>r = 0 \<and> rep w2 (at_pos fd p v) \<or> r \<noteq> 0 \<and> rep w2 (at_pos fd 0 v)\<close> show ?thesis by (simp add: run_seek_command_def co)
  qed
  from char_packet_seek_run [OF rep b sock cmd this, of n] show ?thesis by simp
qed

end

section \<open>The thread ends\<close>

context log_server
begin

lemma char_packet_returns:
  assumes "rep w v" and "buf l = Some b" and "nat (start_ptr l) + n \<le> length b" and "n < 2 ^ 31"
    and "socket_file_descriptor t = sock" and "count_list (take n (drop (nat (start_ptr l)) b)) nl \<le> 1"
  shows "\<exists>lab l' w'. char_packet S t (int n) l w = Some (lab, l', w') \<and>
    (lab = None \<and> (\<exists>s' \<ge> 0. l' = l\<lparr>start_ptr := s'\<rparr>) \<and> (\<exists>v'. rep w' v' \<and> v_inbox v' = v_inbox v) \<or>
     (\<exists>lb. lab = Some lb \<and> lb \<noteq> Free_socket_fd \<and> buf l' \<noteq> None \<and> True))"
proof (cases "take 19 (drop (nat (start_ptr l)) b) = seek_command")
  case True
  from char_packet_seeks [OF assms(1,2,5) True, of "int n"] obtain lab l' w' where
    run: "char_packet S t (int n) l w = Some (lab, l', w')" and
    res: "lab = None \<and> l' = l\<lparr>start_ptr := int n\<rparr> \<and> (\<exists>bs. rep w' (sent bs v)) \<or>
      (lab = Some Free_mem \<or> (\<exists>fd. lab = Some (Close_file_descriptor fd))) \<and> l' = l"
    by blast
  from res show ?thesis
  proof (elim disjE conjE exE)
    fix bs
    assume "lab = None" "l' = l\<lparr>start_ptr := int n\<rparr>" "rep w' (sent bs v)"
    moreover have "v_inbox (sent bs v) = v_inbox v" by simp
    moreover have "0 \<le> int n" by simp
    ultimately show ?thesis using run by blast
  qed (use run assms(2) in auto)
next
  case False
  from char_packet_stores [OF assms(1,2,4,3,5) False assms(6)] obtain lab l' w' where
    run: "char_packet S t (int n) l w = Some (lab, l', w')" and
    res: "lab = None \<and> l' = l\<lparr>start_ptr := int n\<rparr> \<and>
        rep w' (answered (take n (drop (nat (start_ptr l)) b)) v) \<or>
      (lab = Some Free_mem \<or> (\<exists>fd. lab = Some (Close_file_descriptor fd))) \<and> l' = l"
    by blast
  from res show ?thesis
  proof (elim disjE conjE exE)
    assume "lab = None" "l' = l\<lparr>start_ptr := int n\<rparr>"
      "rep w' (answered (take n (drop (nat (start_ptr l)) b)) v)"
    moreover have "v_inbox (answered (take n (drop (nat (start_ptr l)) b)) v) = v_inbox v" by simp
    moreover have "0 \<le> int n" by simp
    ultimately show ?thesis using run by blast
  qed (use run assms(2) in auto)
qed

lemma free_socket_fd_returns:
  "\<exists>t' w'. free_socket_fd S t l w = Some (t', l, w') \<and> thread_completed t' \<and> (bad w \<longrightarrow> bad w') \<and>
    (\<forall>v. rep w v \<longrightarrow> rep w' (closed_fd (socket_file_descriptor t) v))"
  using close_law [of "socket_file_descriptor t" w]
  by (auto simp: free_socket_fd_def closed_fd_def)

lemma free_mem_returns:
  "buf l = Some b \<Longrightarrow> \<exists>t' w'. free_mem S t l w = Some (t', l\<lparr>buf := None\<rparr>, w') \<and> thread_completed t' \<and>
    (bad w \<longrightarrow> bad w') \<and> (\<forall>v. rep w v \<longrightarrow> rep w' (closed_fd (socket_file_descriptor t) v))"
  using free_socket_fd_returns [of t "l\<lparr>buf := None\<rparr>" w] by (simp add: free_mem_def)

text \<open>Every label leads to \<open>thread_completed\<close>, with the socket closed and the buffer freed.\<close>

lemma char_exit_returns:
  assumes "lb = Free_socket_fd \<or> buf l \<noteq> None"
  shows "\<exists>t' l' w'. char_exit S lb t l w = Some (t', l', w') \<and> thread_completed t' \<and> (bad w \<longrightarrow> bad w')"
proof (cases "lb = Free_socket_fd")
  case True
  then show ?thesis using free_socket_fd_returns [of t l w] by auto
next
  case False
  with assms obtain b where b: "buf l = Some b" by auto
  note free = free_mem_returns [OF b, of t]
  show ?thesis
  proof (cases lb)
    case (Close_file_descriptor fd)
    obtain w2 where "close_fd S fd w = Some w2" and "bad w \<longrightarrow> bad w2" using close_law by blast
    then show ?thesis using Close_file_descriptor free [of w2] by auto
  qed (use free [of w] free_socket_fd_returns [of t l w] in auto)
qed

text \<open>The whole thread of the character device: it always ends, its flag set.\<close>

lemma aesd_char_thread_ends:
  assumes "rep w v" and "curr_state t = Receive_From_Socket" and "socket_file_descriptor t = sock"
    and "length (v_inbox v) < 2 ^ 31" and "\<And>old n w. fst (realloc S old n w) \<noteq> None"
  shows "\<exists>t' l' w'. aesd_char_thread S t w = Some (t', l', w') \<and> thread_completed t'"
proof -
  have small: "length (received t worker_start) + length (v_inbox v) < 2 ^ 31"
    using assms(4) worker_start_inv(2) [OF assms(2)] by simp
  have loop: "\<exists>lb t1 l1 w1. worker_loop (receive_from_socket S) (parse_data (char_packet S)) t worker_start w
      = Some (lb, t1, l1, w1) \<and> socket_file_descriptor t1 = sock \<and> (lb = Free_socket_fd \<or> buf l1 \<noteq> None) \<and>
      (lb \<in> {Free_socket_fd, Free_mem} \<and> (bad w1 \<or> (\<exists>v'. rep w1 v')) \<or> lb \<noteq> Free_socket_fd \<and> True)"
    by (rule worker_loop_returns [OF _ assms(5,1) worker_start_inv(1) [OF assms(2)] assms(3) small])
      (rule char_packet_returns)
  from loop obtain lb t1 l1 w1 where
    "worker_loop (receive_from_socket S) (parse_data (char_packet S)) t worker_start w = Some (lb, t1, l1, w1)"
    and mem: "lb = Free_socket_fd \<or> buf l1 \<noteq> None"
    by blast
  then show ?thesis
    using char_exit_returns [OF mem, of t1 w1] by (auto simp: aesd_char_thread_def)
qed

end

section \<open>A connection that sends one packet\<close>

lemma plain_memory:
  assumes "take 19 (body @ [nl]) \<noteq> seek_command" and "take (length (body @ [nl])) b = body @ [nl]"
  shows "take 19 b \<noteq> seek_command"
proof
  assume cmd: "take 19 b = seek_command"
  show False
  proof (cases "19 \<le> length (body @ [nl])")
    case True
    then have "take 19 b = take 19 (take (length (body @ [nl])) b)" by (simp only: take_take min.absorb1)
    then show False using assms(1) cmd unfolding assms(2) by simp
  next
    case False
    then have "b ! length body = seek_command ! length body" and "length body < length seek_command"
      using cmd by (auto simp: seek_command_def dest: arg_cong [where f = "\<lambda>xs. xs ! length body"])
    moreover have "b ! length body = nl"
      using arg_cong [OF assms(2), of "\<lambda>xs. xs ! length body"] by simp
    moreover have "nl \<notin> set seek_command" by (simp add: seek_command_def nl_def)
    ultimately show False by (metis nth_mem)
  qed
qed

context log_server
begin

lemma aesd_char_thread_packet:
  assumes rep: "rep w v" and inbox: "v_inbox v = body @ [nl]" and body: "nl \<notin> set body"
    and plain: "take 19 (body @ [nl]) \<noteq> seek_command" and small: "length body < 2 ^ 31 - 1"
    and t: "curr_state t = Receive_From_Socket" "socket_file_descriptor t = sock"
    and closed: "v_files v sock = None" and re: "\<And>old n w. fst (realloc S old n w) \<noteq> None"
  shows "\<exists>t' l' w'. aesd_char_thread S t w = Some (t', l', w') \<and> thread_completed t' \<and>
    (bad w' \<or> rep w' ((answered (body @ [nl]) v)\<lparr>v_inbox := []\<rparr>))"
proof -
  let ?pkt = "body @ [nl]" and ?v = "(answered (body @ [nl]) v)\<lparr>v_inbox := []\<rparr>"
  have moved: "answered ?pkt (v\<lparr>v_inbox := drop (length ?pkt) (v_inbox v)\<rparr>) = ?v"
    using inbox by (simp add: answered_def accept_view_def sent_def split: prod.splits)
  have handler: "\<exists>lab l' w'. char_packet S t (int (length ?pkt)) l w = Some (lab, l', w') \<and>
      (lab = None \<and> (\<exists>s' \<ge> 0. l' = l\<lparr>start_ptr := s'\<rparr>) \<and> rep w' ?v \<or>
       (\<exists>lb. lab = Some lb \<and> lb \<noteq> Free_socket_fd \<and> buf l' \<noteq> None \<and> bad w'))"
    if r: "rep w (v\<lparr>v_inbox := drop (length ?pkt) (v_inbox v)\<rparr>)" and sock: "socket_file_descriptor t = sock"
      and l: "start_ptr l = 0" "buf l = Some b" "take (length ?pkt) b = ?pkt" "length ?pkt \<le> length b" for t l w b
  proof -
    have at: "drop (nat (start_ptr l)) b = b" using l(1) by simp
    have "count_list ?pkt nl \<le> 1" using body by (simp add: count_list_0_iff)
    then have one: "count_list (take (length ?pkt) (drop (nat (start_ptr l)) b)) nl \<le> 1" unfolding at l(3) .
    have fits: "length ?pkt < 2 ^ 31" "nat (start_ptr l) + length ?pkt \<le> length b" using small l(1,4) by simp_all
    have "take 19 (drop (nat (start_ptr l)) b) \<noteq> seek_command" unfolding at by (rule plain_memory [OF plain l(3)])
    from char_packet_stores [OF r l(2) fits sock this one, unfolded at l(3) moved] show ?thesis
      by (elim exE conjE disjE) (auto simp: l(2) intro!: exI [of _ "int (length ?pkt)"])
  qed
  have "\<exists>lb t1 l1 w1. worker_loop (receive_from_socket S) (parse_data (char_packet S)) t worker_start w = Some (lb, t1, l1, w1) \<and>
      socket_file_descriptor t1 = sock \<and> (lb = Free_socket_fd \<or> buf l1 \<noteq> None) \<and>
      (lb = Free_mem \<and> rep w1 ?v \<or> lb \<in> {Free_socket_fd, Free_mem} \<and> bad w1 \<or> lb \<noteq> Free_socket_fd \<and> bad w1)"
    by (rule one_packet, fact re, fact body, fact rep, fact t, fact t, fact inbox, simp, rule handler; assumption)
  then obtain lb t1 l1 w1 where
    run: "worker_loop (receive_from_socket S) (parse_data (char_packet S)) t worker_start w = Some (lb, t1, l1, w1)"
    and sock: "socket_file_descriptor t1 = sock" and mem: "lb = Free_socket_fd \<or> buf l1 \<noteq> None"
    and res: "lb = Free_mem \<and> rep w1 ?v \<or> bad w1"
    by auto
  show ?thesis
  proof (cases "bad w1")
    case True
    then show ?thesis using run char_exit_returns [OF mem, of t1 w1] by (auto simp: aesd_char_thread_def)
  next
    case False
    then obtain b where lb: "lb = Free_mem" "rep w1 ?v" and b: "buf l1 = Some b" using res mem by auto
    from free_mem_returns [OF b, of t1 w1] lb(2) sock obtain t2 w2 where
      "free_mem S t1 l1 w1 = Some (t2, l1\<lparr>buf := None\<rparr>, w2)" and "thread_completed t2"
      and "rep w2 (closed_fd sock ?v)" by auto
    moreover have "closed_fd sock ?v = ?v" using closed by (simp add: closed_fd_def fun_upd_idem)
    ultimately show ?thesis using run lb(1) by (simp add: aesd_char_thread_def)
  qed
qed

end

end
