(* ===== verification/CircularBuffer.thy ===== *)
theory CircularBuffer
  imports Interfaces
begin

text \<open>
  The circular buffer of write commands, src/aesd-char-driver/aesd-circular-buffer.h and
  aesd-circular-buffer.c: its structures, the lookup of a byte position, the insertion of an
  entry, the seek offset of a write command, and the release of all entries.  The lemmas relate
  every operation to the list of live entries, oldest first (\<open>cb_live\<close>), through which the driver
  sees the buffer.
\<close>

section \<open>Structures\<close>

abbreviation (input) AESDCHAR_MAX_WRITE_OPERATIONS_SUPPORTED :: nat where
  "AESDCHAR_MAX_WRITE_OPERATIONS_SUPPORTED \<equiv> 10"

record aesd_buffer_entry =
  buffptr :: ptr
  entry_size :: u64 \<comment> \<open>the field \<open>size\<close>\<close>

record aesd_circular_buffer =
  entry :: "aesd_buffer_entry list" \<comment> \<open>the array, always 10 long\<close>
  in_offs :: u8
  out_offs :: u8
  full :: bool
  buff_size :: u64

text \<open>\<open>(uint8_t)((offs + 1) % AESDCHAR_MAX_WRITE_OPERATIONS_SUPPORTED)\<close>\<close>

definition next_offs :: "u8 \<Rightarrow> u8" where
  "next_offs x = of_nat ((unat x + 1) mod AESDCHAR_MAX_WRITE_OPERATIONS_SUPPORTED)"

section \<open>Operations\<close>

text \<open>\<open>memset(buffer, 0, sizeof(struct aesd_circular_buffer))\<close>\<close>

definition zero_entry :: aesd_buffer_entry where
  "zero_entry = \<lparr>buffptr = NULL, entry_size = 0\<rparr>"

definition zero_buffer :: aesd_circular_buffer where
  "zero_buffer =
     \<lparr>entry = replicate AESDCHAR_MAX_WRITE_OPERATIONS_SUPPORTED zero_entry,
      in_offs = 0, out_offs = 0, full = False, buff_size = 0\<rparr>"

definition aesd_circular_buffer_init :: "aesd_circular_buffer \<Rightarrow> aesd_circular_buffer" where
  "aesd_circular_buffer_init b = zero_buffer"

text \<open>
  The body of \<open>aesd_circular_buffer_add_entry\<close> after its argument check.  \<open>entry ! i\<close> and
  \<open>entry[i := e]\<close> are the array accesses; the offsets stay below 10 in every buffer the
  operations build (\<open>cb_inv\<close>), so the array is never accessed out of bounds.
\<close>

definition evict_oldest :: "aesd_circular_buffer \<Rightarrow> ptr \<times> aesd_circular_buffer" where
  "evict_oldest b =
     (if in_offs b = out_offs b \<and> full b
      then (buffptr (entry b ! unat (out_offs b)),
            b\<lparr>buff_size := buff_size b - entry_size (entry b ! unat (out_offs b)),
              out_offs := next_offs (out_offs b)\<rparr>)
      else (NULL, b))"

definition store_entry :: "aesd_circular_buffer \<Rightarrow> aesd_buffer_entry \<Rightarrow> aesd_circular_buffer" where
  "store_entry b e =
     (let b1 = b\<lparr>entry := (entry b)[unat (in_offs b) := e],
                 buff_size := buff_size b + entry_size e,
                 in_offs := next_offs (in_offs b)\<rparr>
      in b1\<lparr>full := (in_offs b1 = out_offs b1)\<rparr>)"

definition add_entry :: "aesd_circular_buffer \<Rightarrow> aesd_buffer_entry \<Rightarrow> ptr \<times> aesd_circular_buffer"
  where "add_entry b e = (let (r, b1) = evict_oldest b in (r, store_entry b1 e))"

text \<open>The function itself: a \<open>NULL\<close> argument returns \<open>NULL\<close> and changes nothing.\<close>

fun aesd_circular_buffer_add_entry ::
  "aesd_circular_buffer option \<Rightarrow> aesd_buffer_entry option \<Rightarrow> ptr \<times> aesd_circular_buffer option"
  where
  "aesd_circular_buffer_add_entry None e = (NULL, None)"
| "aesd_circular_buffer_add_entry (Some b) None = (NULL, Some b)"
| "aesd_circular_buffer_add_entry (Some b) (Some e) = (let (r, b') = add_entry b e in (r, Some b'))"

text \<open>
  The lookup loop.  \<open>total_size\<close> is a C \<open>int\<close>: it is converted to \<open>size_t\<close> in the comparison and
  the result of \<open>total_size += entry->size\<close> is truncated back.  The result is the index of the
  entry and the value stored through \<open>entry_offset_byte_rtn\<close>, which is left alone on \<open>None\<close>.
\<close>

function find_entry_loop ::
  "aesd_buffer_entry list \<Rightarrow> u64 \<Rightarrow> int \<Rightarrow> nat \<Rightarrow> nat \<Rightarrow> (nat \<times> u64) option" where
  "find_entry_loop es char_offset total_size buf_idx num_bufs_iterated =
     (if num_bufs_iterated < AESDCHAR_MAX_WRITE_OPERATIONS_SUPPORTED
      then let e = es ! buf_idx in
        if entry_size e = 0 then None
        else if size_of_int total_size + entry_size e - 1 \<ge> char_offset
        then Some (buf_idx, char_offset - size_of_int total_size)
        else find_entry_loop es char_offset
               (int_of_size (size_of_int total_size + entry_size e))
               ((buf_idx + 1) mod AESDCHAR_MAX_WRITE_OPERATIONS_SUPPORTED)
               (num_bufs_iterated + 1)
      else None)"
  by pat_completeness auto
termination
  by (relation "measure (\<lambda>(es, c, t, i, n). AESDCHAR_MAX_WRITE_OPERATIONS_SUPPORTED - n)") auto

declare find_entry_loop.simps [simp del]

definition find_entry :: "aesd_circular_buffer \<Rightarrow> u64 \<Rightarrow> (nat \<times> u64) option" where
  "find_entry b char_offset = find_entry_loop (entry b) char_offset 0 (unat (out_offs b)) 0"

definition aesd_circular_buffer_find_entry_offset_for_fpos ::
  "aesd_circular_buffer option \<Rightarrow> u64 \<Rightarrow> u64 option \<Rightarrow> nat option \<times> u64 option" where
  \<comment> \<open>the third argument is what \<open>entry_offset_byte_rtn\<close> points to, \<open>None\<close> for a null pointer\<close>
  "aesd_circular_buffer_find_entry_offset_for_fpos buffer char_offset rtn =
     (case (buffer, rtn) of
        (Some b, Some old) \<Rightarrow>
          (case find_entry b char_offset of
             None \<Rightarrow> (None, Some old)
           | Some (i, off) \<Rightarrow> (Some i, Some off))
      | _ \<Rightarrow> (None, rtn))"

text \<open>
  \<open>ret_offset\<close>: the loop adds the sizes of the entries before \<open>buf_no\<close>, again in an \<open>int\<close>, and
  gives up at an empty one.  The final sum is taken in \<open>unsigned int\<close> and widened to \<open>loff_t\<close>.
\<close>

function ret_offset_loop :: "aesd_buffer_entry list \<Rightarrow> nat \<Rightarrow> nat \<Rightarrow> int \<Rightarrow> int option" where
  "ret_offset_loop es i buf_no offset =
     (if i < buf_no
      then if entry_size (es ! i) = 0 then None
           else ret_offset_loop es (i + 1) buf_no
                  (int_of_size (size_of_int offset + entry_size (es ! i)))
      else Some offset)"
  by pat_completeness auto
termination
  by (relation "measure (\<lambda>(es, i, n, off). n - i)") auto

declare ret_offset_loop.simps [simp del]

definition ret_offset :: "aesd_circular_buffer \<Rightarrow> u32 \<Rightarrow> u32 \<Rightarrow> int" where
  "ret_offset b buf_no offset_within_buf =
     (if buf_no > 9 then -1
      else if ucast offset_within_buf > entry_size (entry b ! unat buf_no) - 1 then -1
      else case ret_offset_loop (entry b) 0 (unat buf_no) 0 of
             None \<Rightarrow> -1
           | Some offset \<Rightarrow> uint (word_of_int offset + offset_within_buf))"

text \<open>
  \<open>destroy_circular_buffer\<close> frees the entries from \<open>out_offs\<close> on until it meets \<open>in_offs\<close> or a null
  pointer.  \<open>fr\<close> is \<open>kfree\<close> (or \<open>free\<close>) on the state \<open>'s\<close>, undefined (\<open>None\<close>) on a pointer that
  must not be freed.  The loop has no bound of its own, so it is a partial function.
\<close>

partial_function (option) destroy_loop ::
  "(ptr \<Rightarrow> 's \<Rightarrow> 's option) \<Rightarrow> aesd_buffer_entry list \<Rightarrow> u8 \<Rightarrow> u8 \<Rightarrow> ptr \<Rightarrow> 's \<Rightarrow> 's option" where
  "destroy_loop fr es in_o p ent s =
     (if ent = NULL then Some s
      else Option.bind (fr ent s) (\<lambda>s1.
        let p1 = next_offs p in
        if p1 = in_o then Some s1
        else destroy_loop fr es in_o p1 (buffptr (es ! unat p1)) s1))"

declare destroy_loop.simps [code]

definition destroy_circular_buffer ::
  "(ptr \<Rightarrow> 's \<Rightarrow> 's option) \<Rightarrow> aesd_circular_buffer option \<Rightarrow> 's \<Rightarrow> 's option" where
  "destroy_circular_buffer fr buffer s =
     (case buffer of
        None \<Rightarrow> Some s
      | Some b \<Rightarrow>
          if in_offs b = out_offs b \<and> \<not> full b then Some s
          else destroy_loop fr (entry b) (in_offs b) (out_offs b)
                 (buffptr (entry b ! unat (out_offs b))) s)"

text \<open>
  The macro \<open>AESD_CIRCULAR_BUFFER_FOREACH\<close>: its statement is run with \<open>entryptr\<close> pointing to each slot in
  turn, the ones that were never written included.
\<close>

partial_function (option) foreach_slot :: "(u8 \<Rightarrow> 's \<Rightarrow> 's option) \<Rightarrow> u8 \<Rightarrow> 's \<Rightarrow> 's option" where
  "foreach_slot body index s =
     (if unat index < AESDCHAR_MAX_WRITE_OPERATIONS_SUPPORTED
      then Option.bind (body index s) (foreach_slot body (index + 1))
      else Some s)"

declare foreach_slot.simps [code]

definition AESD_CIRCULAR_BUFFER_FOREACH :: "(u8 \<Rightarrow> 's \<Rightarrow> 's option) \<Rightarrow> 's \<Rightarrow> 's option" where
  "AESD_CIRCULAR_BUFFER_FOREACH body s = foreach_slot body 0 s"

section \<open>The live entries and the invariant\<close>

definition cb_count :: "aesd_circular_buffer \<Rightarrow> nat" where
  "cb_count b =
     (if full b then 10 else (unat (in_offs b) + 10 - unat (out_offs b)) mod 10)"

definition cb_ring :: "aesd_circular_buffer \<Rightarrow> aesd_buffer_entry list" where
  "cb_ring b = rotate (unat (out_offs b)) (entry b)"

definition cb_live :: "aesd_circular_buffer \<Rightarrow> aesd_buffer_entry list" where
  "cb_live b = take (cb_count b) (cb_ring b)"

text \<open>
  Offsets in range, \<open>full\<close> only when the offsets meet, the slots outside the live ones still
  zeroed, and \<open>buff_size\<close> the sum of the live sizes.
\<close>

definition cb_inv :: "aesd_circular_buffer \<Rightarrow> bool" where
  "cb_inv b \<longleftrightarrow>
     length (entry b) = 10 \<and> unat (in_offs b) < 10 \<and> unat (out_offs b) < 10 \<and>
     (full b \<longrightarrow> in_offs b = out_offs b) \<and>
     drop (cb_count b) (cb_ring b) = replicate (10 - cb_count b) zero_entry \<and>
     buff_size b = sum_list (map entry_size (cb_live b))"

section \<open>Ring arithmetic\<close>

lemma unat_next_offs [ring_simps]: "unat (next_offs x) = (unat x + 1) mod 10"
proof -
  have "(unat x + 1) mod 10 < (10 :: nat)" by simp
  then have "(unat x + 1) mod 10 < (256 :: nat)" by (rule less_trans) simp
  then show ?thesis by (simp add: next_offs_def unat_of_nat)
qed

lemma cb_count_le: "cb_count b \<le> 10"
  by (simp add: cb_count_def less_imp_le)

lemma cb_count_full: "cb_count b = 10 \<longleftrightarrow> full b"
  using mod_less_divisor [of 10 "unat (in_offs b) + 10 - unat (out_offs b)"]
  by (auto simp add: cb_count_def)

lemma cb_count_10 [simp]: "full b \<Longrightarrow> cb_count b = 10"
  by (simp add: cb_count_full)

lemma length_cb_ring [simp]: "length (cb_ring b) = length (entry b)"
  by (simp add: cb_ring_def)

lemma length_cb_live [simp]: "cb_inv b \<Longrightarrow> length (cb_live b) = cb_count b"
  using cb_count_le [of b] by (simp add: cb_live_def cb_inv_def)

lemma offs_unat_eq: "in_offs b = out_offs b \<longleftrightarrow> unat (in_offs b) = unat (out_offs b)"
  by (simp add: unsigned_word_eqI word_unat_eq_iff)

lemma cb_in_pos:
  assumes "cb_inv b"
  shows "unat (in_offs b) = (unat (out_offs b) + cb_count b) mod 10"
proof -
  have i: "unat (in_offs b) < 10" and o: "unat (out_offs b) < 10"
    using assms by (auto simp: cb_inv_def)
  show ?thesis
    using assms i o ring_distance [OF o i] by (auto simp: cb_inv_def cb_count_def)
qed

lemma cb_ring_nth:
  "cb_inv b \<Longrightarrow> k < 10 \<Longrightarrow> cb_ring b ! k = entry b ! ((unat (out_offs b) + k) mod 10)"
  by (simp add: cb_ring_def cb_inv_def nth_rotate)

lemma cb_live_nth:
  "cb_inv b \<Longrightarrow> k < cb_count b \<Longrightarrow> cb_live b ! k = entry b ! ((unat (out_offs b) + k) mod 10)"
  using cb_count_le [of b] by (simp add: cb_live_def cb_ring_nth)

lemma cb_ring_split:
  "cb_inv b \<Longrightarrow> cb_ring b = cb_live b @ replicate (10 - cb_count b) zero_entry"
  by (metis append_take_drop_id cb_inv_def cb_live_def)

section \<open>Initialisation and insertion\<close>

lemma cb_inv_init: "cb_inv (aesd_circular_buffer_init b)"
  by (simp add: cb_inv_def aesd_circular_buffer_init_def zero_buffer_def cb_count_def cb_ring_def cb_live_def
      sum_list_replicate)

lemma cb_live_init [simp]: "cb_live (aesd_circular_buffer_init b) = []"
  by (simp add: aesd_circular_buffer_init_def zero_buffer_def cb_count_def cb_live_def)

text \<open>Storing into a buffer with room.\<close>

lemma store_entry_room:
  assumes inv: "cb_inv b" and room: "\<not> full b"
  shows "cb_inv (store_entry b e)" and "cb_live (store_entry b e) = cb_live b @ [e]"
proof -
  let ?b = "store_entry b e" and ?o = "unat (out_offs b)" and ?k = "cb_count b"
  have len: "length (entry b) = 10" using inv by (simp add: cb_inv_def)
  have k: "?k < 10"
    using room cb_count_le [of b] cb_count_full [of b] by linarith
  have i: "unat (in_offs b) = (?o + ?k) mod 10" by (rule cb_in_pos [OF inv])
  have o: "?o < 10" using inv by (simp add: cb_inv_def)
  have out: "out_offs ?b = out_offs b" and ent: "entry ?b = (entry b)[(?o + ?k) mod 10 := e]"
    and inn: "in_offs ?b = next_offs (in_offs b)"
    and full: "full ?b \<longleftrightarrow> in_offs ?b = out_offs ?b"
    and size: "buff_size ?b = buff_size b + entry_size e"
    using i by (simp_all add: store_entry_def Let_def)
  have inpos: "unat (in_offs ?b) = (?o + Suc ?k) mod 10"
    using i by (simp add: inn unat_next_offs mod_Suc_eq)
  have fullk: "full ?b \<longleftrightarrow> Suc ?k = 10"
    unfolding full offs_unat_eq inpos unfolding out by (rule ring_meet [OF o k])
  have count: "cb_count ?b = Suc ?k"
  proof (cases "Suc ?k = 10")
    case False
    with fullk k have "cb_count ?b = ((?o + Suc ?k) mod 10 + 10 - ?o) mod 10"
      unfolding cb_count_def inpos out by simp
    also have "\<dots> = Suc ?k" using False k by (intro ring_distance_inv o) simp
    finally show ?thesis .
  qed (use fullk in \<open>simp add: cb_count_def\<close>)
  have ring: "cb_ring ?b = (cb_ring b)[?k := e]"
    using rotate_update [of ?k "entry b" ?o e] k len by (simp add: cb_ring_def ent out)
  show live: "cb_live ?b = cb_live b @ [e]"
    using k len by (simp add: cb_live_def count ring take_Suc_conv_app_nth)
  have "drop (Suc ?k) (cb_ring b) = replicate (10 - Suc ?k) zero_entry"
    using inv unfolding cb_inv_def by (metis drop_Suc drop_replicate diff_Suc_1 drop_drop
        add.commute plus_1_eq_Suc diff_diff_left)
  then have "drop (cb_count ?b) (cb_ring ?b) = replicate (10 - cb_count ?b) zero_entry"
    by (simp add: count ring)
  moreover have "unat (in_offs ?b) < 10" by (simp add: inpos)
  ultimately show "cb_inv ?b"
    using inv len full live size unfolding cb_inv_def by (simp add: ent out)
qed

text \<open>Evicting from a full buffer leaves its nine newest entries and one slot to overwrite.\<close>

lemma evict_room [simp]: "\<not> full b \<Longrightarrow> evict_oldest b = (NULL, b)"
  by (simp add: evict_oldest_def)

lemma cb_live_full: "full b \<Longrightarrow> cb_inv b \<Longrightarrow> cb_live b = cb_ring b"
  by (simp add: cb_live_def cb_count_def cb_inv_def)

lemma add_entry_full:
  assumes inv: "cb_inv b" and full: "full b"
  shows "cb_inv (snd (add_entry b e))"
    and "cb_live (snd (add_entry b e)) = tl (cb_live b) @ [e]"
    and "fst (add_entry b e) = buffptr (hd (cb_live b))"
proof -
  let ?b = "snd (add_entry b e)" and ?o = "unat (out_offs b)"
  have len: "length (entry b) = 10" and o: "?o < 10" and io: "in_offs b = out_offs b"
    and size: "buff_size b = sum_list (map entry_size (cb_live b))"
    using inv full by (auto simp: cb_inv_def)
  have "length (cb_live b) = 10" using inv full by simp
  then have ne: "cb_live b \<noteq> []" by auto
  have hd: "hd (cb_live b) = entry b ! ?o"
    using inv full o cb_live_nth [of b 0] by (simp add: cb_count_def hd_conv_nth [OF ne])
  then show "fst (add_entry b e) = buffptr (hd (cb_live b))"
    using full io by (simp add: add_entry_def evict_oldest_def)
  have ent: "entry ?b = (entry b)[?o := e]" and out: "out_offs ?b = next_offs (out_offs b)"
    and inn: "in_offs ?b = next_offs (out_offs b)" and full': "full ?b"
    and bs: "buff_size ?b = buff_size b - entry_size (entry b ! ?o) + entry_size e"
    using full io by (simp_all add: add_entry_def evict_oldest_def store_entry_def Let_def)
  have len': "length ((entry b)[?o := e]) = 10" using len by simp
  have "cb_ring ?b = rotate (Suc ?o mod 10) ((entry b)[?o := e])"
    by (simp add: cb_ring_def ent out unat_next_offs)
  also have "\<dots> = rotate (Suc ?o) ((entry b)[?o := e])"
    using rotate_conv_mod [of "Suc ?o" "(entry b)[?o := e]"] unfolding len' by simp
  also have "\<dots> = rotate1 (rotate ?o ((entry b)[(?o + 0) mod length (entry b) := e]))"
    using o len by simp
  also have "\<dots> = rotate1 ((cb_ring b)[0 := e])"
    using len by (subst rotate_update) (simp_all add: cb_ring_def)
  also have "\<dots> = tl (cb_ring b) @ [e]"
    using len by (cases "cb_ring b") (simp_all flip: length_0_conv)
  finally have ring: "cb_ring ?b = tl (cb_ring b) @ [e]" .
  have "cb_live ?b = cb_ring ?b"
    using full' len by (simp add: cb_live_def cb_count_def ent)
  with ring show live: "cb_live ?b = tl (cb_live b) @ [e]"
    using full inv by (simp add: cb_live_full)
  have "sum_list (map entry_size (cb_live b))
      = entry_size (entry b ! ?o) + sum_list (map entry_size (tl (cb_live b)))"
    using hd ne by (cases "cb_live b") auto
  then show "cb_inv ?b"
    using len full' o live bs size
    by (simp add: cb_inv_def ent out inn unat_next_offs cb_count_def)
qed

lemma add_entry_room:
  assumes "cb_inv b" and "\<not> full b"
  shows "cb_inv (snd (add_entry b e))" and "cb_live (snd (add_entry b e)) = cb_live b @ [e]"
    and "fst (add_entry b e) = NULL"
  using assms store_entry_room by (simp_all add: add_entry_def)

interpretation cb: history_log cb_live cb_inv add_entry buffptr NULL 10
proof unfold_locales
  fix b :: aesd_circular_buffer and e
  assume inv: "cb_inv b"
  show "length (cb_live b) \<le> 10" using inv by (simp add: cb_count_le)
  show "cb_inv (snd (add_entry b e))"
    using inv add_entry_full add_entry_room by (cases "full b") auto
  show "cb_live (snd (add_entry b e)) =
      (if length (cb_live b) = 10 then tl (cb_live b) else cb_live b) @ [e]"
    using inv add_entry_full add_entry_room by (cases "full b") (auto simp: cb_count_full)
  show "fst (add_entry b e) = (if length (cb_live b) = 10 then buffptr (hd (cb_live b)) else NULL)"
    using inv add_entry_full add_entry_room by (cases "full b") (auto simp: cb_count_full)
qed simp

section \<open>Finding the entry of a byte position\<close>

text \<open>
  The specification of the lookup: walk the sizes of the live entries, oldest first, to the entry
  that holds the byte, and return its position in that order with the offset inside it.
\<close>

fun locate :: "nat list \<Rightarrow> nat \<Rightarrow> (nat \<times> nat) option" where
  "locate [] pos = None"
| "locate (s # ss) pos =
     (if pos < s then Some (0, pos) else map_option (apfst Suc) (locate ss (pos - s)))"

definition cb_sizes :: "aesd_circular_buffer \<Rightarrow> nat list" where
  "cb_sizes b = map (\<lambda>e. unat (entry_size e)) (cb_live b)"

text \<open>No live entry is empty, and the total fits the \<open>int\<close> the loops sum it in.\<close>

definition cb_sized :: "aesd_circular_buffer \<Rightarrow> bool" where
  "cb_sized b \<longleftrightarrow> 0 \<notin> set (cb_sizes b) \<and> sum_list (cb_sizes b) < 2 ^ 31"

lemma length_cb_sizes [simp]: "cb_inv b \<Longrightarrow> length (cb_sizes b) = cb_count b"
  by (simp add: cb_sizes_def)

lemma locate_bound: "locate ss pos = Some (k, r) \<Longrightarrow> k < length ss \<and> r < ss ! k"
  by (induction ss pos arbitrary: k r rule: locate.induct) (auto split: if_splits)

lemma locate_sum: "locate ss pos = Some (k, r) \<Longrightarrow> pos = sum_list (take k ss) + r"
  by (induction ss pos arbitrary: k r rule: locate.induct) (force split: if_splits)+

lemma locate_None: "locate ss pos = None \<longleftrightarrow> sum_list ss \<le> pos"
  by (induction ss pos rule: locate.induct) auto

lemma locate_at:
  "k < length ss \<Longrightarrow> r < ss ! k \<Longrightarrow> locate ss (sum_list (take k ss) + r) = Some (k, r)"
proof (induction ss arbitrary: k)
  case (Cons s ss)
  then show ?case by (cases k) auto
qed simp

text \<open>The byte at a position of a concatenation is the located byte of the located block.\<close>

lemma locate_concat:
  "locate (map length bss) pos = Some (k, r) \<Longrightarrow> drop r (bss ! k) @ concat (drop (Suc k) bss)
     = drop pos (concat bss)"
proof (induction bss arbitrary: pos k)
  case (Cons bs bss)
  then show ?case by (cases k) (auto split: if_splits)
qed simp

lemma find_entry_loop_step:
  assumes below: "acc \<le> unat c" and s: "entry_size (es ! i) \<noteq> 0"
    and bound: "acc + unat (entry_size (es ! i)) < 2 ^ 31" and n: "n < 10"
  shows "find_entry_loop es c (int acc) i n =
    (if unat c - acc < unat (entry_size (es ! i)) then Some (i, of_nat (unat c - acc))
     else find_entry_loop es c (int (acc + unat (entry_size (es ! i)))) ((i + 1) mod 10) (n + 1))"
proof -
  let ?s = "entry_size (es ! i)" and ?t = "of_nat acc :: u64"
  have t: "unat ?t = acc"
    using bound by (simp add: unat_of_nat)
  have sum: "unat (?t + ?s) = acc + unat ?s"
    using bound t by (simp add: unat_add_small)
  have pos: "0 < unat ?s" using s by (simp add: unat_gt_0)
  then have "?t + ?s \<noteq> 0" using sum by (metis add_is_0 less_numeral_extra(3) unsigned_0)
  then have le: "c \<le> ?t + ?s - 1 \<longleftrightarrow> unat c - acc < unat ?s"
    using below pos by (simp add: word_le_nat_alt unat_sub_one sum) linarith
  have off: "c - ?t = of_nat (unat c - acc)"
    using below by (simp add: of_nat_diff)
  have "int_of_size (?t + ?s) = int (acc + unat ?s)"
    using bound sum by (simp add: int_of_size_small)
  then show ?thesis
    using s n le off by (simp add: find_entry_loop.simps [of es c "int acc" i n]
        size_of_int_of_nat)
qed

lemma sum_list_take_le: "sum_list (take n xs) \<le> sum_list xs" for xs :: "nat list"
  by (metis append_take_drop_id le_add1 sum_list_append)

lemma find_entry_loop_locate:
  assumes inv: "cb_inv b" and sized: "cb_sized b" and n: "n \<le> cb_count b"
    and below: "sum_list (take n (cb_sizes b)) \<le> unat c"
  shows "find_entry_loop (entry b) c (int (sum_list (take n (cb_sizes b))))
           ((unat (out_offs b) + n) mod 10) n =
         map_option (\<lambda>(k, r). ((unat (out_offs b) + n + k) mod 10, of_nat r))
           (locate (drop n (cb_sizes b)) (unat c - sum_list (take n (cb_sizes b))))"
  using n below
proof (induction n rule: inc_induct)
  case base
  have "find_entry_loop (entry b) c t ((unat (out_offs b) + cb_count b) mod 10) (cb_count b) = None"
    for t
  proof (cases "full b")
    case False
    then have k: "cb_count b < 10" using cb_count_le [of b] cb_count_full [of b] by linarith
    then have "entry b ! ((unat (out_offs b) + cb_count b) mod 10) = cb_ring b ! cb_count b"
      by (simp add: cb_ring_nth [OF inv])
    also have "\<dots> = zero_entry"
      using k inv by (simp add: cb_ring_split nth_append)
    finally show ?thesis by (simp add: find_entry_loop.simps zero_entry_def)
  qed (simp add: find_entry_loop.simps cb_count_def)
  then show ?case using inv by simp
next
  case (step n)
  let ?t = "sum_list (take n (cb_sizes b))" and ?i = "(unat (out_offs b) + n) mod 10"
  let ?s = "unat (entry_size (entry b ! ?i))"
  have n: "n < length (cb_sizes b)" using step inv by simp
  have s: "cb_sizes b ! n = ?s"
    using step inv by (simp add: cb_sizes_def cb_live_nth)
  have tk: "sum_list (take (Suc n) (cb_sizes b)) = ?t + ?s"
    using n by (simp add: take_Suc_conv_app_nth s)
  have dr: "drop n (cb_sizes b) = ?s # drop (Suc n) (cb_sizes b)"
    using Cons_nth_drop_Suc [OF n] by (simp add: s)
  have pos: "?s \<noteq> 0" using sized nth_mem [OF n] unfolding cb_sized_def s by metis
  then have ne: "entry_size (entry b ! ?i) \<noteq> 0" by (metis unsigned_0)
  have bound: "?t + ?s < 2 ^ 31"
    using sized sum_list_take_le [of "Suc n" "cb_sizes b"] unfolding tk cb_sized_def by linarith
  have n10: "n < 10" using step cb_count_le [of b] by simp
  show ?case
  proof (cases "unat c - ?t < ?s")
    case True
    then show ?thesis
      using step find_entry_loop_step [OF step.prems ne bound n10] by (simp add: dr)
  next
    case False
    then have "sum_list (take (Suc n) (cb_sizes b)) \<le> unat c"
      using step.prems unfolding tk by linarith
    note IH = step.IH [OF this, unfolded tk]
    have "(?i + 1) mod 10 = (unat (out_offs b) + Suc n) mod 10"
      by (simp add: mod_Suc_eq)
    with False IH show ?thesis
      using find_entry_loop_step [OF step.prems ne bound n10]
      by (simp add: dr option.map_comp comp_def split_beta)
  qed
qed

lemma find_entry_locate:
  assumes "cb_inv b" and "cb_sized b"
  shows "find_entry b c = map_option (\<lambda>(k, r). ((unat (out_offs b) + k) mod 10, of_nat r))
           (locate (cb_sizes b) (unat c))"
proof -
  have "unat (out_offs b) mod 10 = unat (out_offs b)" using assms by (simp add: cb_inv_def)
  with find_entry_loop_locate [OF assms, of 0 c] show ?thesis
    by (simp add: find_entry_def)
qed

lemma find_entry_live:
  assumes inv: "cb_inv b" and sized: "cb_sized b" and "find_entry b c = Some (i, off)"
  obtains k r where "locate (cb_sizes b) (unat c) = Some (k, r)" and "k < cb_count b"
    and "entry b ! i = cb_live b ! k" and "off = of_nat r" and "unat off = r"
    and "r < unat (entry_size (cb_live b ! k))"
proof -
  obtain k r where loc: "locate (cb_sizes b) (unat c) = Some (k, r)"
    and i: "i = (unat (out_offs b) + k) mod 10" and off: "off = of_nat r"
    using assms(3) unfolding find_entry_locate [OF inv sized] by auto
  from locate_bound [OF loc] inv have k: "k < cb_count b" and r: "r < cb_sizes b ! k" by auto
  have r': "r < unat (entry_size (cb_live b ! k))"
    using r k inv by (simp add: cb_sizes_def)
  also have "\<dots> < 2 ^ 64" using unsigned_less [of "entry_size (cb_live b ! k)"] by simp
  finally have "unat off = r" by (simp add: off unat_of_nat)
  with that loc k i off r' inv show ?thesis by (simp add: cb_live_nth)
qed

section \<open>The seek offset of a write command\<close>

abbreviation phys_sizes :: "aesd_circular_buffer \<Rightarrow> nat list" where
  "phys_sizes b \<equiv> map (\<lambda>e. unat (entry_size e)) (entry b)"

lemma ret_offset_loop_sum:
  assumes "n \<le> length es" and "i \<le> n"
    and nz: "0 \<notin> set (take n (map (\<lambda>e. unat (entry_size e)) es))"
    and bound: "sum_list (take n (map (\<lambda>e. unat (entry_size e)) es)) < 2 ^ 31"
  shows "ret_offset_loop es i n (int (sum_list (take i (map (\<lambda>e. unat (entry_size e)) es))))
       = Some (int (sum_list (take n (map (\<lambda>e. unat (entry_size e)) es))))"
  using \<open>i \<le> n\<close>
proof (induction i rule: inc_induct)
  case base
  then show ?case by (simp add: ret_offset_loop.simps)
next
  case (step i)
  let ?ss = "map (\<lambda>e. unat (entry_size e)) es"
  let ?t = "sum_list (take i ?ss)"
  have i: "i < length ?ss" and iT: "i < length (take n ?ss)" using step assms(1) by auto
  have nth: "?ss ! i = unat (entry_size (es ! i))" using i by simp
  have "take n ?ss ! i \<noteq> 0" using nz nth_mem [OF iT] by metis
  then have ne: "entry_size (es ! i) \<noteq> 0" using step nth by auto
  have tk: "sum_list (take (Suc i) ?ss) = ?t + unat (entry_size (es ! i))"
    using i by (simp add: take_Suc_conv_app_nth)
  have "sum_list (take (Suc i) ?ss) \<le> sum_list (take n ?ss)"
    using step sum_list_take_le [of "Suc i" "take n ?ss"] by (simp add: min_def)
  then have b: "?t + unat (entry_size (es ! i)) < 2 ^ 31" using bound tk by linarith
  then have "int_of_size (of_nat ?t + entry_size (es ! i)) = int (sum_list (take (Suc i) ?ss))"
    by (subst int_of_size_small) (simp_all add: tk unat_add_small unat_of_nat)
  then show ?case
    using step ne by (simp add: ret_offset_loop.simps [of es i] size_of_int_of_nat)
qed

lemma ret_offset_loop_empty:
  assumes "i \<le> j" and "j < n" and "entry_size (es ! j) = 0"
  shows "ret_offset_loop es i n t = None"
  using assms(1)
proof (induction i arbitrary: t rule: inc_induct)
  case base
  then show ?case using assms by (simp add: ret_offset_loop.simps)
next
  case (step i)
  then show ?case using assms by (simp add: ret_offset_loop.simps [of es i])
qed

lemma uint_offset_sum:
  fixes off :: u32
  shows "uint (of_nat t + off) = int ((t + unat off) mod 2 ^ 32)"
proof -
  have "of_nat t + off = of_nat (t + unat off)" by simp
  then show ?thesis
    by (simp only:) (simp add: unsigned_of_nat take_bit_eq_mod zmod_int del: of_nat_add)
qed

lemma ret_offset_phys:
  assumes len: "length (entry b) = 10" and n: "unat n < 10"
    and nz: "0 \<notin> set (take (unat n) (phys_sizes b))"
    and bound: "sum_list (take (unat n) (phys_sizes b)) < 2 ^ 31"
  shows "ret_offset b n off =
    (if unat off \<ge> unat (entry_size (entry b ! unat n)) \<and> entry_size (entry b ! unat n) \<noteq> 0 then -1
     else int ((sum_list (take (unat n) (phys_sizes b)) + unat off) mod 2 ^ 32))"
proof -
  let ?e = "entry_size (entry b ! unat n)"
  have loop: "ret_offset_loop (entry b) 0 (unat n) 0
      = Some (int (sum_list (take (unat n) (phys_sizes b))))"
    using ret_offset_loop_sum [OF _ _ nz bound, of 0] n len by simp
  have "unat off < 2 ^ 32" by (rule order_less_le_trans [OF unsigned_less]) simp
  then have off: "unat (ucast off :: u64) = unat off"
    by (simp add: unsigned_ucast_eq take_bit_nat_eq_self_iff)
  have "(ucast off > ?e - 1) \<longleftrightarrow> ?e \<noteq> 0 \<and> unat off \<ge> unat ?e"
  proof (cases "?e = 0")
    case True
    then show ?thesis by (simp add: not_less)
  next
    case False
    then have "0 < unat ?e" by (simp add: unat_gt_0)
    with False show ?thesis by (simp add: word_less_nat_alt off unat_sub_one) linarith
  qed
  moreover have "\<not> n > 9" using n by (simp add: word_less_nat_alt)
  ultimately show ?thesis
    by (simp add: ret_offset_def loop uint_offset_sum)
qed

text \<open>
  While nothing has been overwritten (\<open>out_offs\<close> is still 0) the slots are the commands in order.
\<close>

lemma cb_unwrapped:
  assumes inv: "cb_inv b" and out: "out_offs b = 0"
  shows "phys_sizes b = cb_sizes b @ replicate (10 - cb_count b) 0"
proof -
  have "entry b = cb_ring b" using out by (simp add: cb_ring_def)
  also note cb_ring_split [OF inv]
  finally show ?thesis by (simp add: cb_sizes_def zero_entry_def)
qed

lemma cb_sized_prefix:
  assumes "cb_sized b"
  shows "0 \<notin> set (take n (cb_sizes b))" and "sum_list (take n (cb_sizes b)) < 2 ^ 31"
  using assms sum_list_take_le [of n "cb_sizes b"]
  by (auto simp: cb_sized_def dest: in_set_takeD)

lemma ret_offset_prefix:
  assumes inv: "cb_inv b" and sized: "cb_sized b" and out: "out_offs b = 0"
    and n: "unat n \<le> cb_count b" "unat n < 10"
  shows "ret_offset b n off =
    (if unat off \<ge> unat (entry_size (entry b ! unat n)) \<and> entry_size (entry b ! unat n) \<noteq> 0 then -1
     else int ((sum_list (take (unat n) (cb_sizes b)) + unat off) mod 2 ^ 32))"
proof -
  have len: "length (entry b) = 10" using inv by (simp add: cb_inv_def)
  have tk: "take (unat n) (phys_sizes b) = take (unat n) (cb_sizes b)"
    using n inv by (simp add: cb_unwrapped [OF inv out])
  show ?thesis
    using ret_offset_phys [OF len n(2), of off] cb_sized_prefix [OF sized, of "unat n"]
    unfolding tk by blast
qed

lemma cb_sized_total:
  assumes "cb_sized b" and "n < length (cb_sizes b)"
  shows "sum_list (take n (cb_sizes b)) + cb_sizes b ! n < 2 ^ 31"
  using assms(1) sum_list_take_le [of "Suc n" "cb_sizes b"] assms(2)
  unfolding cb_sized_def by (simp add: take_Suc_conv_app_nth)

lemma ret_offset_live:
  assumes "cb_inv b" and "cb_sized b" and "out_offs b = 0" and "unat n < length (cb_live b)"
  shows "ret_offset b n off =
    (if unat off < cb_sizes b ! unat n then int (sum_list (take (unat n) (cb_sizes b)) + unat off)
     else -1)"
proof -
  have n: "unat n < cb_count b" "unat n < 10" "unat n < length (cb_sizes b)"
    using assms cb_count_le [of b] by auto
  have e: "unat (entry_size (entry b ! unat n)) = cb_sizes b ! unat n"
    using n assms cb_live_nth [of b "unat n"] by (simp add: cb_sizes_def)
  have "cb_sizes b ! unat n \<noteq> 0"
    using assms(2) nth_mem [OF n(3)] unfolding cb_sized_def by metis
  then have "entry_size (entry b ! unat n) \<noteq> 0" using e by auto
  then show ?thesis
    using ret_offset_prefix [OF assms(1-3), of n off] n e cb_sized_total [OF assms(2) n(3)] by auto
qed

text \<open>A full buffer's slots are its live entries, rotated.\<close>

lemma cb_full_slot:
  assumes inv: "cb_inv b" and full: "full b" and n: "n < 10"
  shows "entry b ! n = cb_live b ! ((n + 10 - unat (out_offs b)) mod 10)"
proof -
  have "unat (out_offs b) < 10" using inv by (simp add: cb_inv_def)
  from ring_distance [OF this n] show ?thesis
    using full by (subst cb_live_nth [OF inv]) simp_all
qed

lemma cb_full_sizes:
  assumes inv: "cb_inv b" and full: "full b" and sized: "cb_sized b"
  shows "0 \<notin> set (take n (phys_sizes b))" and "sum_list (take n (phys_sizes b)) < 2 ^ 31"
proof -
  have "cb_sizes b = rotate (unat (out_offs b)) (phys_sizes b)"
    using cb_live_full [OF full inv] by (simp add: cb_sizes_def cb_ring_def rotate_map)
  then have "set (cb_sizes b) = set (phys_sizes b)" and "sum_list (cb_sizes b) = sum_list (phys_sizes b)"
    by (simp_all del: set_map)
  with sized sum_list_take_le [of n "phys_sizes b"]
  show "0 \<notin> set (take n (phys_sizes b))" and "sum_list (take n (phys_sizes b)) < 2 ^ 31"
    by (auto simp: cb_sized_def simp del: set_map dest: in_set_takeD)
qed

section \<open>Releasing the entries\<close>

lemma unat_ring_u8: "unat (of_nat (m mod 10) :: u8) = m mod 10"
proof -
  have "m mod 10 < (10 :: nat)" by simp
  then have "m mod 10 < (256 :: nat)" by (rule less_trans) simp
  then show ?thesis by (simp add: unat_of_nat)
qed

lemma next_offs_ring: "next_offs (of_nat (m mod 10)) = of_nat (Suc m mod 10)"
  by (simp add: next_offs_def unat_ring_u8 mod_Suc_eq)

lemma cb_live_end:
  assumes inv: "cb_inv b" and k: "k < cb_count b"
  shows "of_nat (Suc (unat (out_offs b) + k) mod 10) = in_offs b \<longleftrightarrow> Suc k = cb_count b"
proof -
  have o: "unat (out_offs b) < 10" using inv by (simp add: cb_inv_def)
  have "of_nat (Suc (unat (out_offs b) + k) mod 10) = in_offs b \<longleftrightarrow>
      (unat (out_offs b) + Suc k) mod 10 = (unat (out_offs b) + cb_count b) mod 10"
    by (simp add: cb_in_pos [OF inv, symmetric] word_unat_eq_iff unat_ring_u8)
  also have "\<dots> \<longleftrightarrow> Suc k = cb_count b"
  proof (cases "cb_count b = 10")
    case True
    then show ?thesis using o k ring_meet [OF o, of k] by simp
  next
    case False
    then have "cb_count b < 10" using cb_count_le [of b] by simp
    with k show ?thesis by (intro ring_index_inj) simp_all
  qed
  finally show ?thesis .
qed

lemma destroy_loop_live:
  assumes inv: "cb_inv b" and nn: "NULL \<notin> buffptr ` set (cb_live b)" and k: "k < cb_count b"
  shows "destroy_loop fr (entry b) (in_offs b) (of_nat ((unat (out_offs b) + k) mod 10))
           (buffptr (cb_live b ! k)) s
       = free_all fr (map buffptr (drop k (cb_live b))) s"
  using k
proof (induction "cb_count b - Suc k" arbitrary: k s)
  case 0
  then have k: "Suc k = cb_count b" and kl: "k < length (cb_live b)" using inv by auto
  then have "buffptr (cb_live b ! k) \<noteq> NULL" using nn nth_mem [OF kl] by force
  moreover have "drop (Suc k) (cb_live b) = []" using k inv by simp
  ultimately show ?case
    using k kl cb_live_end [OF inv, of k]
    by (simp add: destroy_loop.simps [of fr _ _ _ "buffptr (cb_live b ! k)"] next_offs_ring
        Cons_nth_drop_Suc [OF kl, symmetric] Let_def)
next
  case (Suc d)
  then have k: "Suc k < cb_count b" and kl: "k < length (cb_live b)" and d: "d = cb_count b - Suc (Suc k)"
    using inv by auto
  then have "buffptr (cb_live b ! k) \<noteq> NULL" using nn nth_mem [OF kl] by force
  moreover have "buffptr (entry b ! (Suc (unat (out_offs b) + k) mod 10)) = buffptr (cb_live b ! Suc k)"
    using cb_live_nth [OF inv k] by simp
  ultimately show ?case
    using kl k cb_live_end [OF inv, of k] Suc.hyps(1) [OF d k]
    by (simp add: destroy_loop.simps [of fr _ _ _ "buffptr (cb_live b ! k)"] next_offs_ring
        Cons_nth_drop_Suc [OF kl, symmetric] Let_def unat_ring_u8)
qed

lemma destroy_live:
  assumes inv: "cb_inv b" and nn: "NULL \<notin> buffptr ` set (cb_live b)"
  shows "destroy_circular_buffer fr (Some b) s = free_all fr (map buffptr (cb_live b)) s"
proof (cases "cb_count b = 0")
  case True
  then have "in_offs b = out_offs b" and "\<not> full b"
    using cb_in_pos [OF inv] inv by (auto simp: cb_inv_def offs_unat_eq cb_count_def)
  moreover have "cb_live b = []" using True length_cb_live [OF inv] by simp
  ultimately show ?thesis by (simp add: destroy_circular_buffer_def)
next
  case False
  have o: "unat (out_offs b) < 10" using inv by (simp add: cb_inv_def)
  from False have "\<not> (in_offs b = out_offs b \<and> \<not> full b)"
    by (auto simp: cb_count_def split: if_splits)
  moreover have "buffptr (entry b ! unat (out_offs b)) = buffptr (cb_live b ! 0)"
    using cb_live_nth [OF inv, of 0] False o by simp
  ultimately show ?thesis
    using destroy_loop_live [OF inv nn, of 0 fr s] False o
    by (auto simp add: destroy_circular_buffer_def)
qed

section \<open>Properties\<close>

text \<open>A buffer after two writes, of 3 and 2 bytes, for the witnesses.\<close>

definition two_writes :: aesd_circular_buffer where
  "two_writes = snd (add_run add_entry (aesd_circular_buffer_init undefined)
     [\<lparr>buffptr = 100, entry_size = 3\<rparr>, \<lparr>buffptr = 200, entry_size = 2\<rparr>])"

lemma two_writes_inv: "cb_inv two_writes"
  unfolding two_writes_def by (rule cb.run_invar [OF cb_inv_init])

lemma two_writes_live:
  "cb_live two_writes = [\<lparr>buffptr = 100, entry_size = 3\<rparr>, \<lparr>buffptr = 200, entry_size = 2\<rparr>]"
  unfolding two_writes_def by (subst cb.run_abs [OF cb_inv_init]) simp

lemma two_writes_sized: "cb_sized two_writes"
  by (simp add: cb_sized_def cb_sizes_def two_writes_live)

lemma two_writes_out: "out_offs two_writes = 0"
  by (simp add: two_writes_def aesd_circular_buffer_init_def zero_buffer_def add_entry_def evict_oldest_def
      store_entry_def next_offs_def Let_def)

lemma two_writes_count: "cb_count two_writes = 2"
  using length_cb_live [OF two_writes_inv] by (simp add: two_writes_live)

text \<open>
  C1: adding an entry keeps the buffer well formed and appends the entry to the live ones; a full
  buffer drops its oldest entry and returns that entry's pointer, any other buffer returns NULL.
\<close>

theorem circular_buffer_add_refines:
  assumes "cb_inv b"
  shows "\<exists>b'. aesd_circular_buffer_add_entry (Some b) (Some e) =
             (if full b then buffptr (hd (cb_live b)) else NULL, Some b') \<and>
           cb_inv b' \<and> cb_live b' = last_n 10 (cb_live b @ [e])"
  using assms cb.add_invar [OF assms, of e] cb.add_last_n [OF assms, of e] cb.add_result [OF assms, of e]
  by (auto simp: split_beta cb_count_full)

theorem circular_buffer_add_refines_witness:
  "\<exists>b'. aesd_circular_buffer_add_entry (Some two_writes) (Some \<lparr>buffptr = 300, entry_size = 4\<rparr>)
      = (if full two_writes then buffptr (hd (cb_live two_writes)) else NULL, Some b') \<and>
     cb_inv b' \<and> cb_live b' = last_n 10 (cb_live two_writes @ [\<lparr>buffptr = 300, entry_size = 4\<rparr>])"
  by (rule circular_buffer_add_refines [OF two_writes_inv])

text \<open>
  C2: from a freshly initialised buffer, after any sequence of insertions the live entries are the
  last ten inserted ones in order, and the pointers handed back are NULL for the first ten and
  then exactly the pointers of the overwritten entries, each once, oldest first.
\<close>

theorem circular_buffer_history:
  "cb_live (snd (add_run add_entry (aesd_circular_buffer_init b) es)) = last_n 10 es \<and>
   fst (add_run add_entry (aesd_circular_buffer_init b) es) =
     replicate (min (length es) 10) NULL @ map buffptr (take (length es - 10) es)"
  using cb.run_abs [OF cb_inv_init, of b es] cb.run_results [OF cb_inv_init, of b es] by simp

text \<open>
  C3: in a well-formed buffer without empty entries the lookup of a byte position finds the live entry
  that holds that byte of the concatenated entries, with the offset inside it, and finds nothing
  exactly past the last byte.
\<close>

theorem circular_buffer_find_correct:
  assumes "cb_inv b" and "cb_sized b"
  shows "case aesd_circular_buffer_find_entry_offset_for_fpos (Some b) c (Some old) of
      (Some i, rtn) \<Rightarrow> \<exists>k off. rtn = Some off \<and> k < length (cb_live b) \<and> entry b ! i = cb_live b ! k \<and>
         unat off < unat (entry_size (cb_live b ! k)) \<and>
         unat c = sum_list (take k (cb_sizes b)) + unat off
    | (None, rtn) \<Rightarrow> rtn = Some old \<and> sum_list (cb_sizes b) \<le> unat c"
proof (cases "find_entry b c")
  case None
  then show ?thesis
    using locate_None [of "cb_sizes b" "unat c"]
    by (simp add: find_entry_locate [OF assms] aesd_circular_buffer_find_entry_offset_for_fpos_def)
next
  case (Some r)
  then obtain i off where found: "find_entry b c = Some (i, off)" by (cases r) auto
  obtain k r where loc: "locate (cb_sizes b) (unat c) = Some (k, r)"
    and k: "k < cb_count b" and "entry b ! i = cb_live b ! k" and "off = of_nat r"
    and off: "unat off = r" and "r < unat (entry_size (cb_live b ! k))"
    by (rule find_entry_live [OF assms found])
  moreover have "k < length (cb_live b)" using k assms by simp
  moreover have "unat c = sum_list (take k (cb_sizes b)) + unat off"
    using locate_sum [OF loc] off by simp
  ultimately show ?thesis
    by (auto simp: aesd_circular_buffer_find_entry_offset_for_fpos_def found)
qed

theorem circular_buffer_find_correct_witness:
  "case aesd_circular_buffer_find_entry_offset_for_fpos (Some two_writes) 4 (Some 0) of
      (Some i, rtn) \<Rightarrow> \<exists>k off. rtn = Some off \<and> k < length (cb_live two_writes) \<and>
         entry two_writes ! i = cb_live two_writes ! k \<and>
         unat off < unat (entry_size (cb_live two_writes ! k)) \<and>
         unat (4 :: u64) = sum_list (take k (cb_sizes two_writes)) + unat off
    | (None, rtn) \<Rightarrow> rtn = Some 0 \<and> sum_list (cb_sizes two_writes) \<le> unat (4 :: u64)"
  by (rule circular_buffer_find_correct [OF two_writes_inv two_writes_sized])

text \<open>
  C17: as long as no entry has been overwritten, the seek offset of byte \<open>off\<close> of write command
  \<open>n\<close> is its position in the concatenated entries, and looking that position up finds the same
  entry and the same byte again; an offset past the command's bytes is refused with -1.
\<close>

theorem ret_offset_roundtrip:
  assumes "cb_inv b" and "cb_sized b" and "out_offs b = 0" and "unat n < length (cb_live b)"
  shows "ret_offset b n off =
      (if unat off < cb_sizes b ! unat n then int (sum_list (take (unat n) (cb_sizes b)) + unat off)
       else -1) \<and>
    (unat off < cb_sizes b ! unat n \<longrightarrow>
       find_entry b (size_of_int (ret_offset b n off)) = Some (unat n, ucast off))"
proof -
  let ?t = "sum_list (take (unat n) (cb_sizes b))"
  note ret = ret_offset_live [OF assms]
  show ?thesis
  proof (cases "unat off < cb_sizes b ! unat n")
    case True
    have n: "unat n < 10" "unat n < length (cb_sizes b)"
      using assms cb_count_le [of b] by auto
    have "unat (size_of_int (int (?t + unat off))) = ?t + unat off"
      using True cb_sized_total [OF assms(2) n(2)] by (intro unat_size_of_nat) simp
    then have "find_entry b (size_of_int (int (?t + unat off))) = Some (unat n, of_nat (unat off))"
      using n locate_at [OF n(2) True]
      by (simp only: find_entry_locate [OF assms(1,2)]) (simp add: assms(3))
    with True show ?thesis by (simp add: ret)
  qed (simp add: ret)
qed

theorem ret_offset_roundtrip_witness:
  "ret_offset two_writes 1 1 = 4 \<and> find_entry two_writes 4 = Some (1, 1)"
  using ret_offset_roundtrip [OF two_writes_inv two_writes_sized two_writes_out, of 1 1]
  by (clarsimp simp add: two_writes_live cb_sizes_def size_of_int_def)

text \<open>
  The first slot that holds no command yet is not refused: its size is 0, \<open>size - 1\<close> wraps to the
  largest \<open>size_t\<close>, and the check lets every offset through.  The function then returns a position
  past the end of the data instead of -1.
\<close>

theorem ret_offset_accepts_unwritten:
  assumes "cb_inv b" and "cb_sized b" and "out_offs b = 0"
    and "unat n = length (cb_live b)" and "unat n < 10"
  shows "ret_offset b n off = int ((sum_list (cb_sizes b) + unat off) mod 2 ^ 32)"
proof -
  have n: "unat n = cb_count b" using assms by simp
  have "entry b = cb_ring b" by (simp add: cb_ring_def assms(3))
  then have "entry b ! unat n = zero_entry"
    using assms by (simp add: cb_ring_split nth_append)
  then show ?thesis
    using ret_offset_prefix [OF assms(1-3), of n off] n assms by (simp add: zero_entry_def)
qed

theorem ret_offset_accepts_unwritten_witness:
  "ret_offset two_writes 2 1000 = int ((sum_list (cb_sizes two_writes) + unat (1000 :: u32)) mod 2 ^ 32)
   \<and> ret_offset two_writes 2 1000 = 1005"
proof -
  have "ret_offset two_writes 2 1000
      = int ((sum_list (cb_sizes two_writes) + unat (1000 :: u32)) mod 2 ^ 32)"
    by (rule ret_offset_accepts_unwritten [OF two_writes_inv two_writes_sized two_writes_out])
      (simp_all add: two_writes_live)
  then show ?thesis by (simp add: cb_sizes_def two_writes_live)
qed

text \<open>
  Once the buffer is full, \<open>ret_offset\<close> still counts physical slots from slot 0, while a reader
  (and the lookup) counts commands from \<open>out_offs\<close>: slot \<open>n\<close> holds command
  \<open>(n + 10 - out_offs) mod 10\<close>, and the position returned sums the sizes of other commands.
\<close>

theorem ret_offset_full_buffer:
  assumes "cb_inv b" and "cb_sized b" and "full b" and "unat n < 10"
  shows "entry b ! unat n = cb_live b ! ((unat n + 10 - unat (out_offs b)) mod 10) \<and>
    ret_offset b n off =
      (if unat off < unat (entry_size (entry b ! unat n))
       then int (sum_list (take (unat n) (map (\<lambda>e. unat (entry_size e)) (entry b))) + unat off)
       else -1)"
proof
  let ?e = "entry_size (entry b ! unat n)" and ?t = "sum_list (take (unat n) (phys_sizes b))"
  show "entry b ! unat n = cb_live b ! ((unat n + 10 - unat (out_offs b)) mod 10)"
    by (rule cb_full_slot [OF assms(1,3,4)])
  have len: "length (entry b) = 10" using assms by (simp add: cb_inv_def)
  have "unat ?e \<in> set (take 10 (phys_sizes b))" using len assms(4) by simp
  with cb_full_sizes(1) [OF assms(1,3,2), of 10] have nz: "unat ?e \<noteq> 0" by metis
  then have "?e \<noteq> 0" by auto
  moreover have "sum_list (take (Suc (unat n)) (phys_sizes b)) = ?t + unat ?e"
    using len assms(4) by (simp add: take_Suc_conv_app_nth)
  with cb_full_sizes(2) [OF assms(1,3,2), of "Suc (unat n)"] have "?t + unat ?e < 2 ^ 31" by simp
  ultimately show "ret_offset b n off =
      (if unat off < unat ?e then int (?t + unat off) else -1)"
    using ret_offset_phys [OF len assms(4) cb_full_sizes [OF assms(1,3,2)], of off] by auto
qed

text \<open>
  Eleven writes of 1, 2, \<dots>, 11 bytes: the oldest command left has 2 bytes, yet seeking to its byte
  10 succeeds, and the position returned belongs to the entry in slot 4, the fourth oldest.
\<close>

definition eleven_writes :: aesd_circular_buffer where
  "eleven_writes = snd (add_run add_entry (aesd_circular_buffer_init undefined)
     (map (\<lambda>i. \<lparr>buffptr = i, entry_size = of_nat i\<rparr>) [1..<12]))"

lemma eleven_writes_inv: "cb_inv eleven_writes"
  unfolding eleven_writes_def by (rule cb.run_invar [OF cb_inv_init])

lemma eleven_writes_live:
  "cb_live eleven_writes = map (\<lambda>i. \<lparr>buffptr = i, entry_size = of_nat i\<rparr>) [2..<12]"
  unfolding eleven_writes_def
  by (subst cb.run_abs [OF cb_inv_init]) (simp add: last_n_def upt_rec)

lemma eleven_writes_sized: "cb_sized eleven_writes"
  by (simp add: cb_sized_def cb_sizes_def eleven_writes_live upt_rec)

lemma eleven_writes_full: "full eleven_writes"
proof -
  have "cb_count eleven_writes = 10"
    using length_cb_live [OF eleven_writes_inv] by (simp add: eleven_writes_live)
  then show ?thesis by (simp add: cb_count_full)
qed

theorem ret_offset_full_buffer_witness:
  "entry_size (cb_live eleven_writes ! 0) = 2 \<and> ret_offset eleven_writes 0 10 = 10"
proof -
  have "entry eleven_writes ! 0 = \<lparr>buffptr = 11, entry_size = 11\<rparr>" by code_simp
  with ret_offset_full_buffer
      [OF eleven_writes_inv eleven_writes_sized eleven_writes_full, of 0 10]
  show ?thesis by (simp add: eleven_writes_live upt_rec)
qed

text \<open>
  Destroying a buffer whose live entries all have a buffer frees exactly those buffers, each
  once, oldest first, and always returns.
\<close>

theorem destroy_frees_live:
  assumes "cb_inv b" and "NULL \<notin> buffptr ` set (cb_live b)"
  shows "destroy_circular_buffer (\<lambda>p freed. Some (freed @ [p])) (Some b) []
       = Some (map buffptr (cb_live b))"
proof -
  have "free_all (\<lambda>p freed. Some (freed @ [p])) ps acc = Some (acc @ ps)" for ps acc
    by (induction ps arbitrary: acc) auto
  then show ?thesis by (simp add: destroy_live [OF assms])
qed

theorem destroy_frees_live_witness:
  "destroy_circular_buffer (\<lambda>p freed. Some (freed @ [p])) (Some two_writes) [] = Some [100, 200]"
  using destroy_frees_live [OF two_writes_inv] by (simp add: two_writes_live)

text \<open>
  The macro visits every slot once.  Freeing in it, as its comment shows, frees the buffer of every
  live entry exactly once, and otherwise only NULL, which is allowed.
\<close>

lemma foreach_visits:
  assumes "\<And>i s. body i s = Some (f i s)"
  shows "AESD_CIRCULAR_BUFFER_FOREACH body s = Some (fold f (map of_nat [0..<10]) s)"
proof -
  have "foreach_slot body (of_nat i) s = Some (fold f (map of_nat [i..<10]) s)" if "i \<le> 10" for i s
    using that
  proof (induction "10 - i" arbitrary: i s)
    case 0
    then show ?case by (simp add: foreach_slot.simps)
  next
    case (Suc k)
    then have i: "i < 10" and "(of_nat i + 1 :: u8) = of_nat (Suc i)" "unat (of_nat i :: u8) = i"
      by (simp_all add: unat_of_nat)
    then show ?case
      using Suc(1) [of "Suc i"] Suc(2,3) assms by (simp add: foreach_slot.simps [of body "of_nat i"] upt_rec [of i 10] add.commute)
  qed
  from this [of 0] show ?thesis by (simp add: AESD_CIRCULAR_BUFFER_FOREACH_def)
qed

lemma count_list_rotate: "count_list (rotate n xs) x = count_list xs x"
  by (metis append_take_drop_id count_list_append rotate_drop_take add.commute)

theorem foreach_frees_all:
  assumes "cb_inv b"
  shows "\<exists>freed. AESD_CIRCULAR_BUFFER_FOREACH (\<lambda>i freed. Some (freed @ [buffptr (entry b ! unat i)])) [] = Some freed \<and>
    (\<forall>p. p \<noteq> NULL \<longrightarrow> count_list freed p = count_list (map buffptr (cb_live b)) p)"
proof -
  have len: "length (entry b) = 10" using assms by (simp add: cb_inv_def)
  let ?freed = "map buffptr (entry b)"
  have "fold (\<lambda>i freed. freed @ [g i]) is acc = acc @ map g is" for g and "is" :: "u8 list" and acc :: "ptr list"
    by (induction "is" arbitrary: acc) auto
  then have "AESD_CIRCULAR_BUFFER_FOREACH (\<lambda>i freed. Some (freed @ [buffptr (entry b ! unat i)])) []
      = Some (map (\<lambda>i. buffptr (entry b ! unat i)) (map of_nat [0..<10] :: u8 list))"
    using foreach_visits [of "\<lambda>i freed. Some (freed @ [buffptr (entry b ! unat i)])"] by simp
  also have "map (\<lambda>i. buffptr (entry b ! unat i)) (map of_nat [0..<10] :: u8 list) = ?freed"
    using len by (intro nth_equalityI) (simp_all add: unat_of_nat)
  finally have run: "AESD_CIRCULAR_BUFFER_FOREACH (\<lambda>i freed. Some (freed @ [buffptr (entry b ! unat i)])) [] = Some ?freed" .
  have "count_list ?freed p = count_list (map buffptr (cb_live b)) p" if "p \<noteq> NULL" for p
  proof -
    have "count_list ?freed p = count_list (map buffptr (cb_ring b)) p"
      unfolding cb_ring_def rotate_map [symmetric] by (simp add: count_list_rotate)
    also have "\<dots> = count_list (map buffptr (cb_live b)) p"
      using that by (simp add: cb_ring_split [OF assms] zero_entry_def count_list_0_iff)
    finally show ?thesis .
  qed
  with run show ?thesis by blast
qed

theorem foreach_frees_all_witness:
  "AESD_CIRCULAR_BUFFER_FOREACH (\<lambda>i freed. Some (freed @ [buffptr (entry two_writes ! unat i)])) []
     = Some ([100, 200] @ replicate 8 NULL) \<and>
   (\<forall>p. p \<noteq> NULL \<longrightarrow> count_list ([100, 200] @ replicate 8 NULL) p = count_list [100, 200] p)"
proof -
  have "AESD_CIRCULAR_BUFFER_FOREACH (\<lambda>i freed. Some (freed @ [buffptr (entry two_writes ! unat i)])) []
     = Some ([100, 200] @ replicate 8 NULL)" by code_simp
  with foreach_frees_all [OF two_writes_inv] show ?thesis by (simp add: two_writes_live)
qed

end
