(* ===== verification/KernelApi.thy ===== *)
theory KernelApi
  imports Prelude
begin

text \<open>
  The kernel functions the driver calls.  They are not part of the repository, so each is a
  parameter: a field of the record \<open>kernel\<close>, over a world that holds the heap of kernel blocks and
  an environment of any type \<open>'w\<close> in which the kernel keeps whatever its answers depend on (memory
  pressure, pending signals, bad user addresses).  \<open>kernel_ok\<close> states their documented behaviour.
\<close>

record 'w kworld =
  kheap :: heap
  kenv :: 'w

record 'w kernel =
  kmalloc :: "u64 \<Rightarrow> 'w kworld \<Rightarrow> ptr \<times> 'w kworld"
  krealloc :: "ptr \<Rightarrow> u64 \<Rightarrow> 'w kworld \<Rightarrow> ptr \<times> 'w kworld"
  kfree :: "ptr \<Rightarrow> 'w kworld \<Rightarrow> 'w kworld"
  copy_from_user :: "byte list \<Rightarrow> u64 \<Rightarrow> 'w kworld \<Rightarrow> u64 \<times> byte list \<times> 'w kworld"
    \<comment> \<open>user bytes and count to: bytes not copied, bytes now in the kernel buffer\<close>
  copy_to_user :: "byte list \<Rightarrow> 'w kworld \<Rightarrow> u64 \<times> byte list \<times> 'w kworld"
    \<comment> \<open>kernel bytes to: bytes not copied, bytes the user buffer received\<close>
  mutex_lock_interruptible :: "'w kworld \<Rightarrow> int \<times> 'w kworld"
  fixed_size_llseek :: "int \<Rightarrow> int \<Rightarrow> int \<Rightarrow> u64 \<Rightarrow> int \<times> int"
    \<comment> \<open>\<open>f_pos\<close>, offset, whence and size to: result and new \<open>f_pos\<close>\<close>
  IOC_TYPE :: "u32 \<Rightarrow> u32" \<comment> \<open>\<open>_IOC_TYPE(cmd)\<close>\<close>
  IOC_NR :: "u32 \<Rightarrow> u32" \<comment> \<open>\<open>_IOC_NR(cmd)\<close>\<close>
  IOWR :: "u32 \<Rightarrow> u32 \<Rightarrow> nat \<Rightarrow> u32" \<comment> \<open>\<open>_IOWR(type, nr, t)\<close>, \<open>t\<close> given by its size\<close>
  alloc_chrdev_region :: "'w kworld \<Rightarrow> int \<times> u32 \<times> 'w kworld"
    \<comment> \<open>result, device number\<close>
  MAJOR :: "u32 \<Rightarrow> int"
  cdev_add :: "'w kworld \<Rightarrow> int \<times> 'w kworld"
  ZERO_SIZE_PTR :: ptr
  kmalloc_max :: nat \<comment> \<open>\<open>KMALLOC_MAX_SIZE\<close>\<close>

section \<open>Documented behaviour\<close>

text \<open>
  \<open>kmalloc(0)\<close> is \<open>ZERO_SIZE_PTR\<close>; otherwise the result is NULL, with nothing changed, or a fresh
  block of the size asked for (its bytes are arbitrary), and no block exceeds \<open>KMALLOC_MAX_SIZE\<close>.
\<close>

definition kmalloc_ok :: "'w kernel \<Rightarrow> bool" where
  "kmalloc_ok K \<longleftrightarrow> (\<forall>n w p w'. kmalloc K n w = (p, w') \<longrightarrow>
      (if n = 0 then p = ZERO_SIZE_PTR K \<and> kheap w' = kheap w
       else if p = NULL then kheap w' = kheap w
       else p \<noteq> ZERO_SIZE_PTR K \<and> kheap w p = None \<and> unat n \<le> kmalloc_max K \<and>
            (\<exists>blk. length blk = unat n \<and> kheap w' = (kheap w)(p \<mapsto> blk))))"

text \<open>
  \<open>krealloc\<close> of a live block to a nonzero size: NULL with the old block untouched, or a block of
  the new size that starts with the old bytes and replaces the old block.
\<close>

definition krealloc_ok :: "'w kernel \<Rightarrow> bool" where
  "krealloc_ok K \<longleftrightarrow> (\<forall>p n w old q w'.
     kheap w p = Some old \<longrightarrow> n \<noteq> 0 \<longrightarrow> krealloc K p n w = (q, w') \<longrightarrow>
      (if q = NULL then kheap w' = kheap w
       else q \<noteq> ZERO_SIZE_PTR K \<and> (q = p \<or> kheap w q = None) \<and> unat n \<le> kmalloc_max K \<and>
            (\<exists>blk. length blk = unat n \<and>
               take (min (length old) (unat n)) blk = take (min (length old) (unat n)) old \<and>
               kheap w' = (kheap w)(p := None, q \<mapsto> blk))))"

definition kfree_ok :: "'w kernel \<Rightarrow> bool" where
  "kfree_ok K \<longleftrightarrow> (\<forall>p w.
     kheap (kfree K p w) = (if p = NULL \<or> p = ZERO_SIZE_PTR K then kheap w else (kheap w)(p := None)))"

definition copy_from_user_ok :: "'w kernel \<Rightarrow> bool" where
  "copy_from_user_ok K \<longleftrightarrow> (\<forall>src n w r blk w'. copy_from_user K src n w = (r, blk, w') \<longrightarrow>
       kheap w' = kheap w \<and> length blk = unat n \<and>
       (r = 0 \<longrightarrow> unat n \<le> length src \<and> blk = take (unat n) src))"

definition copy_to_user_ok :: "'w kernel \<Rightarrow> bool" where
  "copy_to_user_ok K \<longleftrightarrow> (\<forall>bs w r got w'. copy_to_user K bs w = (r, got, w') \<longrightarrow>
     kheap w' = kheap w \<and> (if r = 0 then got = bs else \<exists>m < length bs. got = take m bs))"

definition mutex_ok :: "'w kernel \<Rightarrow> bool" where
  "mutex_ok K \<longleftrightarrow> (\<forall>w. kheap (snd (mutex_lock_interruptible K w)) = kheap w)"

text \<open>
  \<open>fixed_size_llseek\<close> with SEEK_SET, SEEK_CUR and SEEK_END (0, 1, 2) moves to the target if it lies
  within the size and refuses it with \<open>-EINVAL\<close> otherwise; SEEK_CUR by 0 only reports \<open>f_pos\<close>.
\<close>

definition llseek_ok :: "'w kernel \<Rightarrow> bool" where
  "llseek_ok K \<longleftrightarrow> (\<forall>pos off whence size.
     fixed_size_llseek K pos off whence size =
       (let target = (if whence = 0 then off else if whence = 1 then pos + off
                      else int (unat size) + off)
        in if whence = 1 \<and> off = 0 then (pos, pos)
           else if whence \<in> {0, 1, 2} \<and> 0 \<le> target \<and> target \<le> int (unat size)
           then (target, target) else (- EINVAL, pos)))"

text \<open>\<open>_IOWR\<close> packs the type and the number that \<open>_IOC_TYPE\<close> and \<open>_IOC_NR\<close> read back (8 bits each).\<close>

definition ioc_ok :: "'w kernel \<Rightarrow> bool" where
  "ioc_ok K \<longleftrightarrow> (\<forall>t n. t < 256 \<longrightarrow> n < 256 \<longrightarrow>
     IOC_TYPE K (IOWR K t n 8) = t \<and> IOC_NR K (IOWR K t n 8) = n)"

definition cdev_ok :: "'w kernel \<Rightarrow> bool" where
  "cdev_ok K \<longleftrightarrow> (\<forall>w. kheap (snd (cdev_add K w)) = kheap w \<and>
     kheap (snd (snd (alloc_chrdev_region K w))) = kheap w)"

text \<open>
  \<open>KMALLOC_MAX_SIZE\<close> is at most 32 MiB (include/linux/slab.h), so ten blocks fit an \<open>int\<close>.
\<close>

definition kernel_ok :: "'w kernel \<Rightarrow> bool" where
  "kernel_ok K \<longleftrightarrow> kmalloc_ok K \<and> krealloc_ok K \<and> kfree_ok K \<and> copy_from_user_ok K \<and>
     copy_to_user_ok K \<and> mutex_ok K \<and> llseek_ok K \<and> ioc_ok K \<and> cdev_ok K \<and>
     ZERO_SIZE_PTR K \<noteq> NULL \<and> kmalloc_max K \<le> 2 ^ 25"

text \<open>A process that no signal interrupts while it waits for the mutex.\<close>

definition uninterrupted :: "'w kernel \<Rightarrow> bool" where
  "uninterrupted K \<longleftrightarrow> (\<forall>w. fst (mutex_lock_interruptible K w) = 0)"

section \<open>Use of pointers\<close>

text \<open>
  Giving \<open>kfree\<close> or \<open>krealloc\<close> a pointer that is not live, and touching bytes outside a live
  block, is undefined behaviour: the result \<open>None\<close>.
\<close>

definition kfree_chk :: "'w kernel \<Rightarrow> ptr \<Rightarrow> 'w kworld \<Rightarrow> 'w kworld option" where
  "kfree_chk K p w =
     (if p = NULL \<or> p = ZERO_SIZE_PTR K \<or> kheap w p \<noteq> None then Some (kfree K p w) else None)"

definition krealloc_chk :: "'w kernel \<Rightarrow> ptr \<Rightarrow> u64 \<Rightarrow> 'w kworld \<Rightarrow> (ptr \<times> 'w kworld) option" where
  "krealloc_chk K p n w =
     (if p = NULL \<or> p = ZERO_SIZE_PTR K \<or> kheap w p \<noteq> None then Some (krealloc K p n w) else None)"

definition memcpy_chk ::
  "ptr \<Rightarrow> nat \<Rightarrow> ptr \<Rightarrow> nat \<Rightarrow> nat \<Rightarrow> 'w kworld \<Rightarrow> 'w kworld option" where
  \<comment> \<open>\<open>memcpy(dst + doff, src + soff, n)\<close> between two different blocks\<close>
  "memcpy_chk dst doff src soff n w =
     (if n = 0 then Some w
      else case (kheap w dst, kheap w src) of
        (Some d, Some s) \<Rightarrow>
          if dst \<noteq> src \<and> doff + n \<le> length d \<and> soff + n \<le> length s
          then Some (w\<lparr>kheap := (kheap w)(dst \<mapsto> take doff d @ take n (drop soff s) @ drop (doff + n) d)\<rparr>)
          else None
      | _ \<Rightarrow> None)"

section \<open>Consequences used by the driver\<close>

lemma kernel_okD:
  assumes "kernel_ok K"
  shows "ZERO_SIZE_PTR K \<noteq> NULL" and "kmalloc_max K \<le> 2 ^ 25"
  using assms by (auto simp: kernel_ok_def)

lemma kmallocE:
  assumes "kernel_ok K" and "kmalloc K n w = (p, w')"
  obtains (zero) "n = 0" "p = ZERO_SIZE_PTR K" "kheap w' = kheap w"
  | (failed) "n \<noteq> 0" "p = NULL" "kheap w' = kheap w"
  | (fresh) blk where "n \<noteq> 0" "p \<noteq> NULL" "p \<noteq> ZERO_SIZE_PTR K" "kheap w p = None"
      "unat n \<le> kmalloc_max K" "length blk = unat n" "kheap w' = (kheap w)(p \<mapsto> blk)"
proof -
  have "kmalloc_ok K" using assms(1) by (simp add: kernel_ok_def)
  then show ?thesis
    using assms(2) that unfolding kmalloc_ok_def by (metis (full_types))
qed

lemma kreallocE:
  assumes "kernel_ok K" and "kheap w p = Some old" and "n \<noteq> 0" and "krealloc K p n w = (q, w')"
  obtains (failed) "q = NULL" "kheap w' = kheap w"
  | (moved) blk where "q \<noteq> NULL" "q \<noteq> ZERO_SIZE_PTR K" "q = p \<or> kheap w q = None"
      "unat n \<le> kmalloc_max K" "length blk = unat n"
      "take (min (length old) (unat n)) blk = take (min (length old) (unat n)) old"
      "kheap w' = (kheap w)(p := None, q \<mapsto> blk)"
proof -
  have "krealloc_ok K" using assms(1) by (simp add: kernel_ok_def)
  then show ?thesis
    using assms(2-4) that unfolding krealloc_ok_def by (metis (full_types))
qed

lemma kfree_chk_live:
  assumes "kernel_ok K" and "kheap w p = Some blk" and "p \<noteq> NULL" and "p \<noteq> ZERO_SIZE_PTR K"
  obtains w' where "kfree_chk K p w = Some w'" and "kheap w' = (kheap w)(p := None)"
  using assms by (auto simp: kfree_chk_def kernel_ok_def kfree_ok_def)

lemma kfree_chk_NULL:
  assumes "kernel_ok K"
  obtains w' where "kfree_chk K NULL w = Some w'" and "kheap w' = kheap w"
  using assms by (auto simp: kfree_chk_def kernel_ok_def kfree_ok_def)

lemma copy_from_userE:
  assumes "kernel_ok K" and "copy_from_user K src n w = (r, blk, w')"
  obtains "kheap w' = kheap w" and "length blk = unat n"
    and "r = 0 \<Longrightarrow> unat n \<le> length src \<and> blk = take (unat n) src"
proof -
  have "copy_from_user_ok K" using assms(1) by (simp add: kernel_ok_def)
  then show ?thesis using assms(2) that unfolding copy_from_user_ok_def by blast
qed

lemma copy_to_userE:
  assumes "kernel_ok K" and "copy_to_user K bs w = (r, got, w')"
  obtains "kheap w' = kheap w" and "r = 0 \<Longrightarrow> got = bs"
    and "r \<noteq> 0 \<Longrightarrow> \<exists>m < length bs. got = take m bs"
proof -
  have "copy_to_user_ok K" using assms(1) by (simp add: kernel_ok_def)
  then show ?thesis using assms(2) that unfolding copy_to_user_ok_def by (metis (full_types))
qed

lemma mutex_lock_heap:
  "kernel_ok K \<Longrightarrow> mutex_lock_interruptible K w = (r, w') \<Longrightarrow> kheap w' = kheap w"
  by (metis kernel_ok_def mutex_ok_def snd_conv)

section \<open>A kernel that satisfies them\<close>

text \<open>
  For the witnesses: a bump allocator whose environment is the next address, with a limit of 1024 bytes.
  It fails rather than hand out an address in use; nothing else fails.
\<close>

definition bump_kmalloc :: "u64 \<Rightarrow> nat kworld \<Rightarrow> ptr \<times> nat kworld" where
  "bump_kmalloc n w =
     (let p = kenv w in
      if n = 0 then (16, w)
      else if p \<le> 16 \<or> kheap w p \<noteq> None \<or> n > 1024 then (NULL, w)
      else (p, w\<lparr>kheap := (kheap w)(p \<mapsto> replicate (unat n) (CHR 0x00)), kenv := p + 1\<rparr>))"

definition bump_krealloc :: "ptr \<Rightarrow> u64 \<Rightarrow> nat kworld \<Rightarrow> ptr \<times> nat kworld" where
  "bump_krealloc q n w =
     (let p = kenv w; old = the (kheap w q) in
      if p \<le> 16 \<or> kheap w p \<noteq> None \<or> n > 1024 then (NULL, w)
      else (p, w\<lparr>kheap := (kheap w)(q := None,
                   p \<mapsto> take (unat n) old @ replicate (unat n - length old) (CHR 0x00)),
                 kenv := p + 1\<rparr>))"

definition bump_IOC_TYPE :: "u32 \<Rightarrow> u32" where
  "bump_IOC_TYPE cmd = cmd div 256 mod 256"

definition bump_IOC_NR :: "u32 \<Rightarrow> u32" where
  "bump_IOC_NR cmd = cmd mod 256"

definition bump_IOWR :: "u32 \<Rightarrow> u32 \<Rightarrow> nat \<Rightarrow> u32" where
  "bump_IOWR t n sz = 0xC0000000 + of_nat sz * 0x10000 + t * 256 + n"

definition bump_MAJOR :: "u32 \<Rightarrow> int" where
  "bump_MAJOR d = uint d div 0x100000"

definition bump_kernel :: "nat kernel" where
  "bump_kernel = \<lparr>
     kmalloc = bump_kmalloc,
     krealloc = bump_krealloc,
     kfree = (\<lambda>p w. if p = NULL \<or> p = 16 then w else w\<lparr>kheap := (kheap w)(p := None)\<rparr>),
     copy_from_user = (\<lambda>src n w.
       if unat n \<le> length src then (0, take (unat n) src, w)
       else (1, replicate (unat n) (CHR 0x00), w)),
     copy_to_user = (\<lambda>bs w. (0, bs, w)),
     mutex_lock_interruptible = (\<lambda>w. (0, w)),
     fixed_size_llseek = (\<lambda>pos off whence size.
       let target = (if whence = 0 then off else if whence = 1 then pos + off
                     else int (unat size) + off)
       in if whence = 1 \<and> off = 0 then (pos, pos)
          else if whence \<in> {0, 1, 2} \<and> 0 \<le> target \<and> target \<le> int (unat size)
          then (target, target) else (- EINVAL, pos)),
     IOC_TYPE = bump_IOC_TYPE,
     IOC_NR = bump_IOC_NR,
     IOWR = bump_IOWR,
     alloc_chrdev_region = (\<lambda>w. (0, 0xF000000, w)),
     MAJOR = bump_MAJOR,
     cdev_add = (\<lambda>w. (0, w)),
     ZERO_SIZE_PTR = 16,
     kmalloc_max = 1024\<rparr>"

lemma ex_block:
  "length a = n \<Longrightarrow> take m a = x \<Longrightarrow>
     \<exists>blk. length blk = n \<and> take m blk = x \<and> h(p := None, q \<mapsto> a) = h(p := None, q \<mapsto> blk)"
  for h :: heap
  by blast

lemma bump_kernel_ok: "kernel_ok bump_kernel"
  unfolding kernel_ok_def
proof (intro conjI)
  show "kmalloc_ok bump_kernel"
    by (auto simp: kmalloc_ok_def bump_kernel_def bump_kmalloc_def Let_def word_less_nat_alt split: if_splits
        intro!: exI [of _ "replicate (unat _) _"])
  show "krealloc_ok bump_kernel"
    by (auto simp: krealloc_ok_def bump_kernel_def bump_krealloc_def Let_def min_def word_less_nat_alt split: if_splits
        intro!: ex_block)
  show "kfree_ok bump_kernel"
    by (auto simp: kfree_ok_def bump_kernel_def)
  show "copy_from_user_ok bump_kernel"
    by (auto simp: copy_from_user_ok_def bump_kernel_def)
  show "copy_to_user_ok bump_kernel"
    by (auto simp: copy_to_user_ok_def bump_kernel_def)
  show "mutex_ok bump_kernel"
    by (auto simp: mutex_ok_def bump_kernel_def)
  show "ioc_ok bump_kernel"
    unfolding ioc_ok_def
  proof (intro allI impI)
    fix t n :: u32
    assume "t < 256" and "n < 256"
    then have t: "unat t < 256" and n: "unat n < 256" by (simp_all add: word_less_nat_alt)
    let ?x = "3 * 2 ^ 30 + 8 * 2 ^ 16 + unat t * 256 + unat n"
    have "unat (of_nat ?x :: u32) = ?x"
      using t n unfolding unat_of_nat by simp
    moreover have "IOWR bump_kernel t n 8 = (of_nat ?x :: u32)" by (simp add: bump_kernel_def bump_IOWR_def)
    ultimately have u: "unat (IOWR bump_kernel t n 8) = ?x" by simp
    have x: "?x = (256 * (3 * 2 ^ 14 + 8) + unat t) * 256 + unat n" by simp
    have "?x div 256 = 256 * (3 * 2 ^ 14 + 8) + unat t"
      unfolding x using n by (simp only: div_mult_self3 [of 256] div_less)
    then have "?x div 256 mod 256 = unat t" using t by (simp only: mod_mult_self4 mod_less)
    moreover have "?x mod 256 = unat n" unfolding x using n by (simp only: mod_mult_self3 mod_less)
    ultimately have "?x div 256 mod 256 = unat t" and "?x mod 256 = unat n" by simp_all
    with u have "unat (bump_IOC_TYPE (IOWR bump_kernel t n 8)) = unat t"
      and "unat (bump_IOC_NR (IOWR bump_kernel t n 8)) = unat n"
      by (simp_all add: bump_IOC_TYPE_def bump_IOC_NR_def unat_div unat_mod)
    then show "IOC_TYPE bump_kernel (IOWR bump_kernel t n 8) = t \<and>
        IOC_NR bump_kernel (IOWR bump_kernel t n 8) = n"
      unfolding word_unat_eq_iff by (simp add: bump_kernel_def)
  qed
  show "cdev_ok bump_kernel"
    by (auto simp: cdev_ok_def bump_kernel_def)
  show "llseek_ok bump_kernel"
    by (auto simp: llseek_ok_def bump_kernel_def Let_def)
qed (simp_all add: bump_kernel_def)

end
