(* ===== verification/CharDriver.thy ===== *)
theory CharDriver
  imports CircularBuffer KernelApi
begin

text \<open>
  The character driver, src/aesd-char-driver/aesdchar.h and main.c: the device structure and the
  file operations open, release, read, write, llseek and ioctl, the module's initialisation and
  cleanup, and their helpers.  An operation takes the kernel functions \<open>K\<close> and the state (device
  and world) and returns its result with the new state; \<open>None\<close> means undefined behaviour (a bad
  pointer) or no return.  \<open>PDEBUG\<close> output is not modelled, nor what it reads: the message of \<open>aesd_read\<close>
  (main.c, line 202) prints a block without a terminating NUL as a string, past its end.
\<close>

section \<open>Structures\<close>

record working_buffer =
  buffer :: ptr
  wsize :: u64 \<comment> \<open>the field \<open>size\<close>\<close>

text \<open>\<open>lock\<close> is whether the mutex is held; \<open>cdev_ops\<close> whether \<open>cdev\<close> carries \<open>aesd_fops\<close>.\<close>

record aesd_dev =
  circular_buffer :: aesd_circular_buffer
  working_buffer :: working_buffer
  lock :: bool
  cdev_ops :: bool

text \<open>There is one device, the global \<open>aesd_device\<close>; a pointer to it is \<open>Aesd_device\<close>.\<close>

datatype dev_ref = Aesd_device

record inode =
  i_cdev :: dev_ref \<comment> \<open>the device whose \<open>cdev\<close> member \<open>i_cdev\<close> points to\<close>

text \<open>The inode of the device file, as \<open>aesd_setup_cdev\<close> leaves it.\<close>

definition dev_inode :: inode where
  "dev_inode = \<lparr>i_cdev = Aesd_device\<rparr>"

record file_t =
  private_data :: "dev_ref option"
  f_pos :: int

record 'w kst =
  dev :: aesd_dev
  wld :: "'w kworld"

record aesd_seekto =
  write_cmd :: u32
  write_cmd_offset :: u32

text \<open>The structure as it lies in memory: two little-endian words.\<close>

fun le_nat :: "byte list \<Rightarrow> nat" where
  "le_nat [] = 0"
| "le_nat (b # bs) = of_char b + 256 * le_nat bs"

definition seekto_of_bytes :: "byte list \<Rightarrow> aesd_seekto" where
  "seekto_of_bytes bs =
     \<lparr>write_cmd = of_nat (le_nat (take 4 bs)), write_cmd_offset = of_nat (le_nat (take 4 (drop 4 bs)))\<rparr>"

abbreviation (input) AESD_IOC_MAGIC :: u32 where "AESD_IOC_MAGIC \<equiv> 0x16"
abbreviation (input) AESDCHAR_IOC_MAXNR :: u32 where "AESDCHAR_IOC_MAXNR \<equiv> 1"

definition AESDCHAR_IOCSEEKTO :: "'w kernel \<Rightarrow> u32" where
  "AESDCHAR_IOCSEEKTO K = IOWR K AESD_IOC_MAGIC 1 8"

section \<open>The mutex\<close>

definition lock_interruptible :: "'w kernel \<Rightarrow> 'w kst \<Rightarrow> int \<times> 'w kst" where
  "lock_interruptible K s =
     (let (r, w) = mutex_lock_interruptible K (wld s)
      in (r, s\<lparr>dev := (if r = 0 then (dev s)\<lparr>lock := True\<rparr> else dev s), wld := w\<rparr>))"

definition mutex_unlock :: "'w kst \<Rightarrow> 'w kst" where
  "mutex_unlock s = s\<lparr>dev := (dev s)\<lparr>lock := False\<rparr>\<rparr>"

section \<open>Helpers\<close>

definition allocate_memory ::
  "'w kernel \<Rightarrow> working_buffer \<Rightarrow> int \<Rightarrow> 'w kworld \<Rightarrow> (int \<times> working_buffer \<times> 'w kworld) option" where
  "allocate_memory K wb sz w =
     (if wsize wb = 0
      then let (p, w1) = kmalloc K (size_of_int sz) w
           in Some (if p = NULL then - ENOMEM else 0, wb\<lparr>buffer := p\<rparr>, w1)
      else Option.bind (krealloc_chk K (buffer wb) (wsize wb + size_of_int sz) w) (\<lambda>(q, w1).
           if q = NULL
           then Option.bind (kfree_chk K (buffer wb) w1) (\<lambda>w2. Some (- ENOMEM, wb, w2))
           else Some (0, wb\<lparr>buffer := q\<rparr>, w1)))"

text \<open>\<open>bytes\<close> is the memory from \<open>ptr\<close> to the end of its block.\<close>

function find_delimiter_from :: "byte list \<Rightarrow> nat \<Rightarrow> int \<Rightarrow> int option" where
  "find_delimiter_from bytes i sz =
     (if int i < sz
      then if i < length bytes
           then if bytes ! i = nl then Some (int i) else find_delimiter_from bytes (i + 1) sz
           else None
      else Some (-1))"
  by pat_completeness auto
termination
  by (relation "measure (\<lambda>(bytes, i, sz). nat sz - i)") auto

declare find_delimiter_from.simps [simp del]

definition find_delimiter :: "byte list \<Rightarrow> int \<Rightarrow> int option" where
  "find_delimiter bytes sz = find_delimiter_from bytes 0 sz"

section \<open>Opening and releasing\<close>

definition aesd_open :: "inode \<Rightarrow> file_t \<Rightarrow> int \<times> file_t" where
  "aesd_open inode filp = (0, filp\<lparr>private_data := Some (i_cdev inode)\<rparr>)"

definition aesd_release :: "inode \<Rightarrow> file_t \<Rightarrow> int \<times> file_t" where
  "aesd_release inode filp = (0, filp\<lparr>private_data := None\<rparr>)"

section \<open>Reading\<close>

text \<open>The bytes a pointer into a block gives access to.\<close>

definition mem_read :: "ptr \<Rightarrow> nat \<Rightarrow> nat \<Rightarrow> 'w kworld \<Rightarrow> byte list option" where
  "mem_read p off n w =
     (if n = 0 then Some []
      else case kheap w p of
        None \<Rightarrow> None
      | Some blk \<Rightarrow> if off + n \<le> length blk then Some (take n (drop off blk)) else None)"

text \<open>
  The result is the return value, the new \<open>*f_pos\<close>, the bytes stored in the user's buffer and the
  new state.  The part that runs with the mutex held is separate: its jumps to \<open>free_lock\<close> are its
  results, and \<open>aesd_read\<close> unlocks after it.
\<close>

definition aesd_read_locked ::
  "'w kernel \<Rightarrow> u64 \<Rightarrow> int \<Rightarrow> 'w kst \<Rightarrow> (int \<times> int \<times> byte list \<times> 'w kst) option" where
  "aesd_read_locked K count fpos s =
     (case aesd_circular_buffer_find_entry_offset_for_fpos (Some (circular_buffer (dev s)))
             (size_of_int fpos) (Some 0) of
        (Some i, Some relative_byte_offset) \<Rightarrow>
          let ret_buf = entry (circular_buffer (dev s)) ! i;
              bytes_to_eob = int_of_size (entry_size ret_buf - relative_byte_offset);
              bytes_to_copy = int_of_size (if size_of_int bytes_to_eob < count
                                           then size_of_int bytes_to_eob else count);
              fpos1 = fpos + bytes_to_copy
          in Option.bind (mem_read (buffptr ret_buf) (unat relative_byte_offset)
                            (unat (size_of_int bytes_to_copy)) (wld s)) (\<lambda>bytes.
               let (r, got, w) = copy_to_user K bytes (wld s) in
               if r \<noteq> 0 then Some (- EFAULT, fpos1, got, s\<lparr>wld := w\<rparr>)
               else Some (bytes_to_copy, fpos1, got, s\<lparr>wld := w\<rparr>))
      | _ \<Rightarrow> Some (0, 0, [], s))"

definition aesd_read ::
  "'w kernel \<Rightarrow> file_t option \<Rightarrow> u64 \<Rightarrow> int \<Rightarrow> 'w kst \<Rightarrow> (int \<times> int \<times> byte list \<times> 'w kst) option" where
  "aesd_read K filp count fpos s =
     (case filp of
        None \<Rightarrow> Some (- EINVAL, fpos, [], s)
      | Some f \<Rightarrow>
          if private_data f = None then Some (- EINVAL, fpos, [], s)
          else let (m, s1) = lock_interruptible K s in
            if m \<noteq> 0 then Some (- EINTR, fpos, [], s1)
            else Option.bind (aesd_read_locked K count fpos s1)
                   (\<lambda>(ret, fpos1, got, s2). Some (ret, fpos1, got, mutex_unlock s2)))"

section \<open>Writing\<close>

text \<open>
  One turn of the loop up to \<open>data->working_buffer.size += mem_to_malloc\<close>: grow the working buffer
  and append \<open>mem_to_malloc\<close> bytes of the copy buffer.  A negative result is the jump to
  \<open>release_lock\<close>.
\<close>

definition append_working ::
  "'w kernel \<Rightarrow> ptr \<Rightarrow> int \<Rightarrow> int \<Rightarrow> 'w kst \<Rightarrow> (int \<times> 'w kst) option" where
  "append_working K copy_buf start_ptr mem_to_malloc s =
     Option.bind (allocate_memory K (working_buffer (dev s)) mem_to_malloc (wld s)) (\<lambda>(r, wb, w1).
       let s1 = s\<lparr>dev := (dev s)\<lparr>working_buffer := wb\<rparr>, wld := w1\<rparr> in
       if r < 0 then Some (- ENOMEM, s1)
       else Option.bind (memcpy_chk (buffer wb) (unat (wsize wb)) copy_buf (nat start_ptr)
                           (unat (size_of_int mem_to_malloc)) w1) (\<lambda>w2.
              Some (0, s1\<lparr>dev := (dev s1)\<lparr>working_buffer :=
                            wb\<lparr>wsize := wsize wb + size_of_int mem_to_malloc\<rparr>\<rparr>, wld := w2\<rparr>)))"

text \<open>A complete line goes into the circular buffer, and an overwritten entry's memory is freed.\<close>

definition enqueue_working :: "'w kernel \<Rightarrow> 'w kst \<Rightarrow> 'w kst option" where
  "enqueue_working K s =
     (let wb = working_buffer (dev s);
          enqueue_buffer = \<lparr>buffptr = buffer wb, entry_size = wsize wb\<rparr>;
          (free_buffer, cb) = aesd_circular_buffer_add_entry (Some (circular_buffer (dev s)))
                                (Some enqueue_buffer);
          d = (dev s)\<lparr>circular_buffer := the cb, working_buffer := wb\<lparr>wsize := 0\<rparr>\<rparr>
      in if free_buffer \<noteq> NULL
         then Option.bind (kfree_chk K free_buffer (wld s)) (\<lambda>w. Some (s\<lparr>dev := d, wld := w\<rparr>))
         else Some (s\<lparr>dev := d\<rparr>))"

text \<open>The loop \<open>while (delim_loc != -1)\<close>; the result is \<open>retval\<close>.\<close>

partial_function (option) aesd_write_loop ::
  "'w kernel \<Rightarrow> ptr \<Rightarrow> u64 \<Rightarrow> int \<Rightarrow> int \<Rightarrow> 'w kst \<Rightarrow> (int \<times> 'w kst) option" where
  "aesd_write_loop K copy_buf count start_ptr retval s =
     Option.bind (kheap (wld s) copy_buf) (\<lambda>blk.
     Option.bind (find_delimiter (drop (nat start_ptr) blk)
                    (int_of_size (count - size_of_int start_ptr))) (\<lambda>delim_loc.
     let mem_to_malloc = (if delim_loc = -1 then int_of_size (count - size_of_int start_ptr)
                          else (delim_loc - start_ptr) + 1)
     in Option.bind (append_working K copy_buf start_ptr mem_to_malloc s) (\<lambda>(r, s1).
          if r < 0 then Some (r, s1)
          else if delim_loc = -1 then Some (retval + mem_to_malloc, s1)
          else Option.bind (enqueue_working K s1) (\<lambda>s2.
                 aesd_write_loop K copy_buf count (start_ptr + (delim_loc + 1))
                   (retval + mem_to_malloc) s2))))"

declare aesd_write_loop.simps [code]

definition copy_buff_free :: "'w kernel \<Rightarrow> ptr \<Rightarrow> int \<Rightarrow> 'w kst \<Rightarrow> (int \<times> 'w kst) option" where
  "copy_buff_free K copy_buf retval s =
     Option.bind (kfree_chk K copy_buf (wld s)) (\<lambda>w. Some (retval, s\<lparr>wld := w\<rparr>))"

definition aesd_write ::
  "'w kernel \<Rightarrow> file_t option \<Rightarrow> byte list \<Rightarrow> u64 \<Rightarrow> 'w kst \<Rightarrow> (int \<times> 'w kst) option" where
  "aesd_write K filp buf count s =
     (case filp of
        None \<Rightarrow> Some (- EINVAL, s)
      | Some f \<Rightarrow>
          if private_data f = None then Some (- EINVAL, s)
          else if count = 0 then Some (0, s)
          else let (copy_buf, w1) = kmalloc K count (wld s) in
            if copy_buf = NULL then copy_buff_free K copy_buf (- ENOMEM) (s\<lparr>wld := w1\<rparr>)
            else let (r, blk, w2) = copy_from_user K buf count w1;
                     s2 = s\<lparr>wld := w2\<lparr>kheap := (kheap w2)(copy_buf \<mapsto> blk)\<rparr>\<rparr> in
              if r \<noteq> 0 then copy_buff_free K copy_buf (- EFAULT) s2
              else let (m, s3) = lock_interruptible K s2 in
                if m \<noteq> 0 then copy_buff_free K copy_buf (- EINTR) s3
                else Option.bind (aesd_write_loop K copy_buf count 0 0 s3) (\<lambda>(retval, s4).
                       copy_buff_free K copy_buf retval (mutex_unlock s4)))"

section \<open>Seeking\<close>

definition aesd_llseek ::
  "'w kernel \<Rightarrow> file_t \<Rightarrow> int \<Rightarrow> int \<Rightarrow> 'w kst \<Rightarrow> int \<times> file_t \<times> 'w kst" where
  "aesd_llseek K filp off whence s =
     (if private_data filp = None then (- EINVAL, filp, s)
      else let (m, s1) = lock_interruptible K s in
        if m \<noteq> 0 then (- EINTR, filp, s1)
        else let (ret, pos) = fixed_size_llseek K (f_pos filp) off whence
                                (buff_size (circular_buffer (dev s1)))
             in (ret, filp\<lparr>f_pos := pos\<rparr>, mutex_unlock s1))"

definition aesd_adjust_file_offset ::
  "'w kernel \<Rightarrow> file_t \<Rightarrow> u32 \<Rightarrow> u32 \<Rightarrow> 'w kst \<Rightarrow> int \<times> file_t \<times> 'w kst" where
  "aesd_adjust_file_offset K filp wcmd wcmd_offset s =
     (if private_data filp = None then (- EINVAL, filp, s)
      else let (m, s1) = lock_interruptible K s in
        if m \<noteq> 0 then (- ERESTARTSYS, filp, s1)
        else let offset = ret_offset (circular_buffer (dev s1)) wcmd wcmd_offset in
          if offset = -1 then (- EINVAL, filp, mutex_unlock s1)
          else (0, filp\<lparr>f_pos := offset\<rparr>, mutex_unlock s1))"

text \<open>\<open>arg\<close> is the user memory the argument points to.\<close>

definition aesd_ioctl ::
  "'w kernel \<Rightarrow> file_t \<Rightarrow> u32 \<Rightarrow> byte list \<Rightarrow> 'w kst \<Rightarrow> int \<times> file_t \<times> 'w kst" where
  "aesd_ioctl K filp cmd arg s =
     (if IOC_TYPE K cmd \<noteq> AESD_IOC_MAGIC then (- ENOTTY, filp, s)
      else if IOC_NR K cmd > AESDCHAR_IOC_MAXNR then (- ENOTTY, filp, s)
      else if cmd = AESDCHAR_IOCSEEKTO K
      then let (r, bytes, w) = copy_from_user K arg 8 (wld s); s1 = s\<lparr>wld := w\<rparr> in
        if r \<noteq> 0 then (- EFAULT, filp, s1)
        else let seekto = seekto_of_bytes bytes
             in aesd_adjust_file_offset K filp (write_cmd seekto) (write_cmd_offset seekto) s1
      else (- ENOTTY, filp, s))"

section \<open>Loading and unloading the module\<close>

text \<open>What the module holds of the kernel: its region of device numbers, its \<open>cdev\<close>, its mutex.\<close>

record 'w module_state =
  kst :: "'w kst"
  aesd_major :: int
  region :: bool
  cdev_live :: bool
  mutex_live :: bool

definition zero_device :: aesd_dev where
  "zero_device =
     \<lparr>circular_buffer = zero_buffer,
      working_buffer = \<lparr>buffer = NULL, wsize = 0\<rparr>, lock = False, cdev_ops = False\<rparr>"

definition aesd_setup_cdev :: "'w kernel \<Rightarrow> 'w module_state \<Rightarrow> int \<times> 'w module_state" where
  "aesd_setup_cdev K m =
     (let s = kst m;
          (err, w) = cdev_add K (wld s)
      in (err, m\<lparr>kst := s\<lparr>dev := (dev s)\<lparr>cdev_ops := True\<rparr>, wld := w\<rparr>, cdev_live := (err = 0)\<rparr>))"

definition aesd_init_module :: "'w kernel \<Rightarrow> 'w module_state \<Rightarrow> int \<times> 'w module_state" where
  "aesd_init_module K m =
     (let (result, devno, w) = alloc_chrdev_region K (wld (kst m));
          m1 = m\<lparr>kst := (kst m)\<lparr>wld := w\<rparr>, aesd_major := MAJOR K devno\<rparr> in
      if result < 0 then (result, m1)
      else let m2 = m1\<lparr>kst := (kst m1)\<lparr>dev := zero_device\<rparr>, region := True, mutex_live := True\<rparr>;
               (err, m3) = aesd_setup_cdev K m2
           in if err \<noteq> 0 then (err, m3\<lparr>region := False\<rparr>) else (err, m3))"

text \<open>A failed lock is only reported; the module goes on as if it held it.\<close>

definition aesd_cleanup_module :: "'w kernel \<Rightarrow> 'w module_state \<Rightarrow> 'w module_state option" where
  "aesd_cleanup_module K m =
     (let m1 = m\<lparr>cdev_live := False\<rparr>;
          (r, s1) = lock_interruptible K (kst m1)
      in Option.bind (destroy_circular_buffer (kfree_chk K) (Some (circular_buffer (dev s1))) (wld s1))
           (\<lambda>w. Some (m1\<lparr>kst := mutex_unlock (s1\<lparr>wld := w\<rparr>), mutex_live := False, region := False\<rparr>)))"

end
