(* ===== verification/CharDriverRep.thy ===== *)
theory CharDriverRep
  imports CharDriver
begin

text \<open>
  What the device's memory means: \<open>dev_rep\<close> relates the device and the heap to the list of complete
  lines it holds, oldest first, and the incomplete line being collected.  The lemmas show what the
  helpers of \<open>aesd_write\<close> do to that view, and that memory the device does not own is untouched.
\<close>

section \<open>The representation\<close>

definition entry_rep :: "'w kernel \<Rightarrow> heap \<Rightarrow> aesd_buffer_entry \<Rightarrow> byte list \<Rightarrow> bool" where
  "entry_rep K h e l \<longleftrightarrow> h (buffptr e) = Some l \<and> length l = unat (entry_size e) \<and> l \<noteq> [] \<and>
     length l \<le> kmalloc_max K"

abbreviation live :: "aesd_dev \<Rightarrow> aesd_buffer_entry list" where
  "live d \<equiv> cb_live (circular_buffer d)"

definition work_rep :: "'w kernel \<Rightarrow> aesd_dev \<Rightarrow> heap \<Rightarrow> byte list \<Rightarrow> bool" where
  "work_rep K d h pend \<longleftrightarrow>
     (if wsize (working_buffer d) = 0 then pend = []
      else h (buffer (working_buffer d)) = Some pend \<and>
           length pend = unat (wsize (working_buffer d)) \<and> length pend \<le> kmalloc_max K \<and>
           buffer (working_buffer d) \<notin> buffptr ` set (live d))"

definition dev_rep ::
  "'w kernel \<Rightarrow> aesd_dev \<Rightarrow> heap \<Rightarrow> byte list list \<Rightarrow> byte list \<Rightarrow> bool" where
  "dev_rep K d h lines pend \<longleftrightarrow>
     cb_inv (circular_buffer d) \<and> list_all2 (entry_rep K h) (live d) lines \<and>
     distinct (map buffptr (live d)) \<and> h NULL = None \<and> h (ZERO_SIZE_PTR K) = None \<and>
     work_rep K d h pend"

text \<open>The blocks the device owns; the rest of the heap belongs to others.\<close>

definition owned :: "aesd_dev \<Rightarrow> ptr set" where
  "owned d = buffptr ` set (live d) \<union>
     (if wsize (working_buffer d) = 0 then {} else {buffer (working_buffer d)})"

definition unowned :: "'w kst \<Rightarrow> heap" where
  "unowned s = kheap (wld s) |` (- owned (dev s))"

lemma unowned_Some: "unowned s p = Some blk \<longleftrightarrow> kheap (wld s) p = Some blk \<and> p \<notin> owned (dev s)"
  by (auto simp: unowned_def restrict_map_def)

lemma dev_rep_lock [simp]: "dev_rep K (d\<lparr>lock := x\<rparr>) h lines pend = dev_rep K d h lines pend"
  by (simp add: dev_rep_def work_rep_def)

lemma dev_rep_cdev_ops [simp]: "dev_rep K (d\<lparr>cdev_ops := x\<rparr>) h lines pend = dev_rep K d h lines pend"
  by (simp add: dev_rep_def work_rep_def)

lemma owned_lock [simp]: "owned (d\<lparr>lock := x\<rparr>) = owned d"
  by (simp add: owned_def)

lemma dev_mutex_unlock [simp]: "dev (mutex_unlock s) = (dev s)\<lparr>lock := False\<rparr>"
  by (simp add: mutex_unlock_def)

lemma wld_mutex_unlock [simp]: "wld (mutex_unlock s) = wld s"
  by (simp add: mutex_unlock_def)

lemma dev_rep_lengths: "dev_rep K d h lines pend \<Longrightarrow> length lines = length (live d)"
  unfolding dev_rep_def by (metis list_all2_lengthD)

lemma dev_rep_le10: "dev_rep K d h lines pend \<Longrightarrow> length lines \<le> 10"
  by (simp add: dev_rep_lengths) (simp add: dev_rep_def cb_count_le)

lemma live_ptrs_live: "dev_rep K d h lines pend \<Longrightarrow> p \<in> buffptr ` set (live d) \<Longrightarrow> h p \<noteq> None"
  by (fastforce simp: dev_rep_def entry_rep_def list_all2_conv_all_nth in_set_conv_nth)

lemma restrict_free: "x \<in> A \<Longrightarrow> (h(x := None)) |` (- (A - {x})) = h |` (- A)"
  by (auto simp: restrict_map_def fun_eq_iff)

text \<open>Changing the heap only off the live entries keeps their representation.\<close>

lemma entries_rep_cong:
  assumes "list_all2 (entry_rep K h) es lines" and "\<And>p. p \<in> buffptr ` set es \<Longrightarrow> h' p = h p"
  shows "list_all2 (entry_rep K h') es lines"
  using assms by (induction rule: list_all2_induct) (auto simp: entry_rep_def)

lemma entries_rep_off: "list_all2 (entry_rep K h) es lines \<Longrightarrow> p \<notin> buffptr ` set es \<Longrightarrow>
    list_all2 (entry_rep K (h(p := x))) es lines"
  by (erule entries_rep_cong) auto

section \<open>Growing the working buffer\<close>

text \<open>
  A step of a write keeps the lock and everything it does not own, and leaves the device
  representing \<open>lines\<close> and \<open>pend\<close>.
\<close>

definition step_post :: "'w kernel \<Rightarrow> 'w kst \<Rightarrow> 'w kst \<Rightarrow> byte list list \<Rightarrow> byte list \<Rightarrow> bool" where
  "step_post K s s' lines pend \<longleftrightarrow>
     dev_rep K (dev s') (kheap (wld s')) lines pend \<and> lock (dev s') = lock (dev s) \<and>
     unowned s' = unowned s"

text \<open>
  A working buffer whose memory is gone: \<open>allocate_memory\<close> frees it when \<open>krealloc\<close> fails but keeps
  its pointer and size.
\<close>

definition work_dangling :: "'w kst \<Rightarrow> bool" where
  "work_dangling s \<longleftrightarrow> wsize (working_buffer (dev s)) \<noteq> 0 \<and>
     kheap (wld s) (buffer (working_buffer (dev s))) = None"

text \<open>Its lines are still there.\<close>

definition work_lost :: "'w kernel \<Rightarrow> 'w kst \<Rightarrow> byte list list \<Rightarrow> bool" where
  "work_lost K s lines \<longleftrightarrow> work_dangling s \<and> cb_inv (circular_buffer (dev s)) \<and>
     list_all2 (entry_rep K (kheap (wld s))) (live (dev s)) lines"

definition failed_post :: "'w kernel \<Rightarrow> 'w kst \<Rightarrow> 'w kst \<Rightarrow> byte list list \<Rightarrow> byte list \<Rightarrow> bool" where
  "failed_post K s s' lines pend \<longleftrightarrow>
     lock (dev s') = lock (dev s) \<and> unowned s' = unowned s \<and>
     circular_buffer (dev s') = circular_buffer (dev s) \<and>
     (if pend = [] then dev_rep K (dev s') (kheap (wld s')) lines [] else work_lost K s' lines)"

text \<open>The two branches of \<open>append_working\<close>, by what the allocator answers.\<close>

lemma append_working_ok:
  assumes "allocate_memory K (working_buffer (dev s)) mem (wld s) = Some (0, wb, w1)"
    and "memcpy_chk (buffer wb) (unat (wsize wb)) cb st (unat (size_of_int mem)) w1 = Some w2"
  shows "append_working K cb (int st) mem s =
    Some (0, s\<lparr>dev := (dev s)\<lparr>working_buffer := wb\<lparr>wsize := wsize wb + size_of_int mem\<rparr>\<rparr>, wld := w2\<rparr>)"
  using assms by (simp add: append_working_def)

lemma append_working_failed:
  assumes "allocate_memory K (working_buffer (dev s)) mem (wld s) = Some (- ENOMEM, wb, w1)"
  shows "append_working K cb st mem s =
    Some (- ENOMEM, s\<lparr>dev := (dev s)\<lparr>working_buffer := wb\<rparr>, wld := w1\<rparr>)"
  using assms by (simp add: append_working_def)

text \<open>Replacing the working buffer and the heap off the live entries.\<close>

lemma step_post_working:
  assumes rep: "dev_rep K (dev s) (kheap (wld s)) lines pend"
    and work: "work_rep K ((dev s)\<lparr>working_buffer := wb\<rparr>) h' pend'"
    and heap: "\<And>p. p \<notin> W \<Longrightarrow> h' p = kheap (wld s) p"
    and W: "W \<inter> buffptr ` set (live (dev s)) = {}"
    and null: "h' NULL = None" "h' (ZERO_SIZE_PTR K) = None"
    and rest: "\<And>p. p \<in> W \<Longrightarrow> p \<in> owned (dev s) \<or> kheap (wld s) p = None"
      "\<And>p. p \<in> W \<Longrightarrow> p \<in> owned ((dev s)\<lparr>working_buffer := wb\<rparr>) \<or> h' p = None"
    and old: "wsize (working_buffer (dev s)) \<noteq> 0 \<Longrightarrow> buffer (working_buffer (dev s)) \<in> W"
    and new: "wsize wb \<noteq> 0 \<Longrightarrow> buffer wb \<in> W"
    and w: "kheap w' = h'"
  shows "step_post K s (s\<lparr>dev := (dev s)\<lparr>working_buffer := wb\<rparr>, wld := w'\<rparr>) lines pend'"
proof -
  have "list_all2 (entry_rep K h') (live (dev s)) lines"
    using rep heap W by (auto simp: dev_rep_def intro!: entries_rep_cong [where h = "kheap (wld s)"])
  moreover have "(h' |` (- owned ((dev s)\<lparr>working_buffer := wb\<rparr>))) p = unowned s p" for p
    using heap [of p] W rest [of p] old new
    by (cases "p \<in> W") (auto simp: unowned_def restrict_map_def owned_def split: if_splits)
  then have "h' |` (- owned ((dev s)\<lparr>working_buffer := wb\<rparr>)) = unowned s" ..
  ultimately show ?thesis
    using rep work null w by (simp add: step_post_def dev_rep_def unowned_def)
qed

lemma append_first:
  \<comment> \<open>an empty working buffer: a fresh block, or none for no bytes\<close>
  assumes K: "kernel_ok K" and rep: "dev_rep K (dev s) (kheap (wld s)) lines pend"
    and empty: "wsize (working_buffer (dev s)) = 0"
    and cb: "unowned s cb = Some blk" and m: "st + m \<le> length blk" "length blk \<le> kmalloc_max K"
  shows "\<exists>r s'. append_working K cb (int st) (int m) s = Some (r, s') \<and>
    (r = 0 \<and> step_post K s s' lines (pend @ take m (drop st blk)) \<or>
     r = - ENOMEM \<and> failed_post K s s' lines pend)"
proof -
  let ?wb = "working_buffer (dev s)" and ?h = "kheap (wld s)"
  have pend: "pend = []" using rep empty by (simp add: dev_rep_def work_rep_def)
  have m64: "unat (size_of_int (int m)) = m"
    using m kernel_okD(2) [OF K] by (intro unat_size_of_nat) simp
  obtain p w' where alloc: "kmalloc K (size_of_int (int m)) (wld s) = (p, w')" by fastforce
  have cbh: "?h cb = Some blk" and null: "?h NULL = None" "?h (ZERO_SIZE_PTR K) = None"
    using cb rep by (auto simp: unowned_Some dev_rep_def)
  from K alloc show ?thesis
  proof (cases rule: kmallocE)
    case zero
    then have m0: "m = 0" using m64 by simp
    then have "append_working K cb (int st) (int m) s =
        Some (0, s\<lparr>dev := (dev s)\<lparr>working_buffer := ?wb\<lparr>buffer := p, wsize := 0\<rparr>\<rparr>, wld := w'\<rparr>)"
      using zero kernel_okD(1) [OF K] alloc empty m64
      by (subst append_working_ok [of _ _ _ "?wb\<lparr>buffer := p\<rparr>" w' _ _ w'])
        (simp_all add: allocate_memory_def memcpy_chk_def)
    moreover have "step_post K s
        (s\<lparr>dev := (dev s)\<lparr>working_buffer := ?wb\<lparr>buffer := p, wsize := 0\<rparr>\<rparr>, wld := w'\<rparr>) lines pend"
      by (rule step_post_working [OF rep, where W = "{}" and h' = ?h])
        (use zero null empty pend in \<open>simp_all add: work_rep_def\<close>)
    ultimately show ?thesis using m0 by auto
  next
    case failed
    then have "append_working K cb (int st) (int m) s =
        Some (- ENOMEM, s\<lparr>dev := (dev s)\<lparr>working_buffer := ?wb\<lparr>buffer := NULL\<rparr>\<rparr>, wld := w'\<rparr>)"
      using alloc empty by (intro append_working_failed) (simp add: allocate_memory_def)
    moreover have "step_post K s
        (s\<lparr>dev := (dev s)\<lparr>working_buffer := ?wb\<lparr>buffer := NULL\<rparr>\<rparr>, wld := w'\<rparr>) lines pend"
      by (rule step_post_working [OF rep, where W = "{}" and h' = ?h])
        (use failed null empty pend in \<open>simp_all add: work_rep_def\<close>)
    ultimately show ?thesis
      using pend by (auto simp: failed_post_def step_post_def)
  next
    case (fresh blk')
    let ?b = "take m (drop st blk)" and ?wb' = "?wb\<lparr>buffer := p, wsize := size_of_int (int m)\<rparr>"
    have pcb: "p \<noteq> cb" using fresh cbh by auto
    have lenb: "length ?b = m" using m by simp
    have m0: "m \<noteq> 0" using fresh m64 by auto
    have new: "p \<notin> buffptr ` set (live (dev s))" using live_ptrs_live [OF rep, of p] fresh by blast
    have "memcpy_chk p 0 cb st m w' = Some (w'\<lparr>kheap := ?h(p \<mapsto> ?b)\<rparr>)"
      using fresh m64 m cbh pcb m0 by (simp add: memcpy_chk_def)
    then have "append_working K cb (int st) (int m) s =
        Some (0, s\<lparr>dev := (dev s)\<lparr>working_buffer := ?wb'\<rparr>, wld := w'\<lparr>kheap := ?h(p \<mapsto> ?b)\<rparr>\<rparr>)"
      using fresh alloc empty m64
      by (subst append_working_ok [of _ _ _ "?wb\<lparr>buffer := p\<rparr>" w']) (simp_all add: allocate_memory_def)
    moreover have "step_post K s
        (s\<lparr>dev := (dev s)\<lparr>working_buffer := ?wb'\<rparr>, wld := w'\<lparr>kheap := ?h(p \<mapsto> ?b)\<rparr>\<rparr>) lines (pend @ ?b)"
      by (rule step_post_working [OF rep, where W = "{p}" and h' = "?h(p \<mapsto> ?b)"])
        (use fresh null empty pend new m64 m0 lenb m in \<open>auto simp: work_rep_def owned_def\<close>)
    ultimately show ?thesis by auto
  qed
qed

lemma append_more:
  \<comment> \<open>a working buffer with bytes: \<open>krealloc\<close>, whose failure frees it\<close>
  assumes K: "kernel_ok K" and rep: "dev_rep K (dev s) (kheap (wld s)) lines pend"
    and more: "wsize (working_buffer (dev s)) \<noteq> 0"
    and cb: "unowned s cb = Some blk" and m: "st + m \<le> length blk" "length blk \<le> kmalloc_max K"
  shows "\<exists>r s'. append_working K cb (int st) (int m) s = Some (r, s') \<and>
    (r = 0 \<and> step_post K s s' lines (pend @ take m (drop st blk)) \<or>
     r = - ENOMEM \<and> failed_post K s s' lines pend)"
proof -
  let ?wb = "working_buffer (dev s)" and ?h = "kheap (wld s)"
  let ?p = "buffer ?wb" and ?n = "wsize ?wb + size_of_int (int m)"
  have work: "?h ?p = Some pend" "length pend = unat (wsize ?wb)" "length pend \<le> kmalloc_max K"
    "?p \<notin> buffptr ` set (live (dev s))"
    using rep more by (auto simp: dev_rep_def work_rep_def)
  have m64: "unat (size_of_int (int m)) = m"
    using m kernel_okD(2) [OF K] by (intro unat_size_of_nat) simp
  have n: "unat ?n = length pend + m"
    using m work kernel_okD(2) [OF K] m64 by (subst unat_add_small) auto
  have "length pend \<noteq> 0" using more work by (simp add: unat_gt_0)
  then have n0: "?n \<noteq> 0" using n by (metis add_is_0 unsigned_0)
  have pend: "pend \<noteq> []" using \<open>length pend \<noteq> 0\<close> by auto
  have cbh: "?h cb = Some blk" and cbo: "cb \<noteq> ?p" and null: "?h NULL = None" "?h (ZERO_SIZE_PTR K) = None"
    using cb rep more by (auto simp: unowned_Some dev_rep_def owned_def)
  have p0: "?p \<noteq> NULL" "?p \<noteq> ZERO_SIZE_PTR K" using null work by auto
  obtain q w' where realloc: "krealloc K ?p ?n (wld s) = (q, w')" by fastforce
  have chk: "krealloc_chk K ?p ?n (wld s) = Some (q, w')"
    using realloc work by (simp add: krealloc_chk_def)
  from K work(1) n0 realloc show ?thesis
  proof (cases rule: kreallocE)
    case failed
    then obtain w2 where free: "kfree_chk K ?p w' = Some w2" "kheap w2 = ?h(?p := None)"
      using kfree_chk_live [OF K _ p0, of w' pend] work by auto
    then have "append_working K cb (int st) (int m) s =
        Some (- ENOMEM, s\<lparr>dev := (dev s)\<lparr>working_buffer := ?wb\<rparr>, wld := w2\<rparr>)"
      using failed chk more by (intro append_working_failed) (simp add: allocate_memory_def)
    moreover have "unowned (s\<lparr>dev := (dev s)\<lparr>working_buffer := ?wb\<rparr>, wld := w2\<rparr>) = unowned s"
      using more free by (auto simp: unowned_def owned_def restrict_map_def)
    moreover have "list_all2 (entry_rep K (?h(?p := None))) (live (dev s)) lines" "cb_inv (circular_buffer (dev s))"
      using rep work(4) by (simp_all add: dev_rep_def entries_rep_off)
    ultimately show ?thesis
      using pend more free by (auto simp: failed_post_def work_lost_def work_dangling_def)
  next
    case (moved blk')
    let ?b = "take m (drop st blk)"
    let ?wb' = "?wb\<lparr>buffer := q, wsize := ?n\<rparr>" and ?h' = "?h(?p := None, q \<mapsto> pend @ ?b)"
    have qcb: "q \<noteq> cb" using moved cbh cbo by auto
    have lenb: "length ?b = m" using m by simp
    have new: "q \<notin> buffptr ` set (live (dev s))"
      using live_ptrs_live [OF rep, of q] moved(3) work(4) by metis
    have tk: "take (length pend) blk' = pend" using moved n by simp
    have "memcpy_chk q (unat (wsize ?wb)) cb st m w' =
        (if m = 0 then Some w' else Some (w'\<lparr>kheap := ?h'\<rparr>))"
      using moved n m cbh cbo qcb tk work by (simp add: memcpy_chk_def)
    moreover have "m = 0 \<Longrightarrow> w' = w'\<lparr>kheap := ?h'\<rparr>"
      using moved n tk by simp
    ultimately have "memcpy_chk q (unat (wsize ?wb)) cb st m w' = Some (w'\<lparr>kheap := ?h'\<rparr>)"
      by (auto split: if_splits)
    then have "append_working K cb (int st) (int m) s =
        Some (0, s\<lparr>dev := (dev s)\<lparr>working_buffer := ?wb'\<rparr>, wld := w'\<lparr>kheap := ?h'\<rparr>\<rparr>)"
      using moved chk more m64
      by (subst append_working_ok [of _ _ _ "?wb\<lparr>buffer := q\<rparr>" w']) (simp_all add: allocate_memory_def)
    moreover have "step_post K s
        (s\<lparr>dev := (dev s)\<lparr>working_buffer := ?wb'\<rparr>, wld := w'\<lparr>kheap := ?h'\<rparr>\<rparr>) lines (pend @ ?b)"
      by (rule step_post_working [OF rep, where W = "{?p, q}" and h' = ?h'])
        (use moved null new n n0 lenb m more work in \<open>auto simp: work_rep_def owned_def\<close>)
    ultimately show ?thesis by auto
  qed
qed

lemma append_working_rep:
  assumes "kernel_ok K" and "dev_rep K (dev s) (kheap (wld s)) lines pend"
    and "unowned s cb = Some blk" and "st + m \<le> length blk" and "length blk \<le> kmalloc_max K"
  shows "\<exists>r s'. append_working K cb (int st) (int m) s = Some (r, s') \<and>
    (r = 0 \<and> step_post K s s' lines (pend @ take m (drop st blk)) \<or>
     r = - ENOMEM \<and> failed_post K s s' lines pend)"
  using append_first [OF assms(1,2) _ assms(3-5)] append_more [OF assms(1,2) _ assms(3-5)] by blast

section \<open>Enqueuing the working buffer\<close>

lemma enqueue_working_rep:
  assumes K: "kernel_ok K" and rep: "dev_rep K (dev s) (kheap (wld s)) lines pend"
    and pend: "pend \<noteq> []"
  shows "\<exists>s'. enqueue_working K s = Some s' \<and> step_post K s s' (last_n 10 (lines @ [pend])) []"
proof -
  let ?d = "dev s" and ?h = "kheap (wld s)"
  let ?wb = "working_buffer ?d" and ?cb = "circular_buffer ?d"
  let ?e = "\<lparr>buffptr = buffer ?wb, entry_size = wsize ?wb\<rparr>"
  have more: "wsize ?wb \<noteq> 0" using rep pend by (auto simp: dev_rep_def work_rep_def)
  have inv: "cb_inv ?cb" and ents: "list_all2 (entry_rep K ?h) (live ?d) lines"
    and dist: "distinct (map buffptr (live ?d))"
    and null: "?h NULL = None" "?h (ZERO_SIZE_PTR K) = None"
    using rep by (auto simp: dev_rep_def)
  have e: "entry_rep K ?h ?e pend" and new: "buffer ?wb \<notin> buffptr ` set (live ?d)"
    using rep more pend by (auto simp: dev_rep_def work_rep_def entry_rep_def)
  obtain r cb' where add: "add_entry ?cb ?e = (r, cb')" by fastforce
  have inv': "cb_inv cb'" using cb.add_invar [OF inv, of ?e] add by simp
  have live': "cb_live cb' = (if full ?cb then tl (live ?d) else live ?d) @ [?e]"
    using cb.add_abs [OF inv, of ?e] add inv by (simp add: cb_count_full)
  have r: "r = (if full ?cb then buffptr (hd (live ?d)) else NULL)"
    using cb.add_result [OF inv, of ?e] add inv by (simp add: cb_count_full)
  have lens: "length lines = length (live ?d)" by (rule dev_rep_lengths [OF rep])
  let ?d' = "?d\<lparr>circular_buffer := cb', working_buffer := ?wb\<lparr>wsize := 0\<rparr>\<rparr>"
  show ?thesis
  proof (cases "full ?cb")
    case False
    have "length lines < 10"
      using False lens inv cb_count_le [of ?cb] cb_count_full [of ?cb] by simp
    then have "last_n 10 (lines @ [pend]) = lines @ [pend]" by simp
    moreover have "enqueue_working K s = Some (s\<lparr>dev := ?d'\<rparr>)"
      using False r by (simp add: enqueue_working_def add)
    moreover have "owned ?d' = owned ?d"
      using False more live' by (simp add: owned_def)
    moreover have "list_all2 (entry_rep K ?h) (cb_live cb') (lines @ [pend])"
      using False ents e live' by (simp add: list_all2_appendI)
    moreover have "distinct (map buffptr (cb_live cb'))"
      using False dist new live' by simp
    ultimately show ?thesis
      using inv' null by (simp add: step_post_def dev_rep_def work_rep_def unowned_def)
  next
    case True
    then obtain x xs where x: "live ?d = x # xs"
      using inv length_cb_live [OF inv] by (cases "live ?d") auto
    then obtain l ls where l: "lines = l # ls" using lens by (cases lines) auto
    have xs: "list_all2 (entry_rep K ?h) xs ls" and hx: "?h (buffptr x) = Some l"
      and xnew: "buffptr x \<notin> buffptr ` set xs" "buffptr x \<noteq> buffer ?wb" "buffer ?wb \<notin> buffptr ` set xs"
      using ents dist new x l by (auto simp: entry_rep_def)
    have "buffptr x \<noteq> NULL" "buffptr x \<noteq> ZERO_SIZE_PTR K"
      using hx null by (metis option.distinct(1))+
    then have rx: "r = buffptr x" "r \<noteq> NULL" "r \<noteq> ZERO_SIZE_PTR K" using True r x by simp_all
    obtain w' where free: "kfree_chk K r (wld s) = Some w'" "kheap w' = ?h(r := None)"
      using kfree_chk_live [OF K _ rx(2,3)] hx rx(1) by metis
    have "length lines = 10" using lens inv True by simp
    then have "last_n 10 (lines @ [pend]) = ls @ [pend]"
      using last_n_snoc_full [of 10 lines pend] l by simp
    moreover have "enqueue_working K s = Some (s\<lparr>dev := ?d', wld := w'\<rparr>)"
      using rx free by (simp add: enqueue_working_def add)
    moreover have o': "owned ?d' = insert (buffer ?wb) (buffptr ` set xs)"
      using True live' x by (simp add: owned_def)
    moreover have o: "owned ?d = insert (buffptr x) (insert (buffer ?wb) (buffptr ` set xs))"
      using more x by (auto simp add: owned_def)
    have "owned ?d' = owned ?d - {buffptr x}" and "buffptr x \<in> owned ?d"
      unfolding o o' using xnew by blast+
    then have "unowned (s\<lparr>dev := ?d', wld := w'\<rparr>) = unowned s"
      using free rx by (simp add: unowned_def restrict_free)
    moreover have "list_all2 (entry_rep K (?h(r := None))) xs ls"
      using xnew(1) unfolding rx(1) by (intro entries_rep_cong [OF xs] fun_upd_other) metis
    then have "list_all2 (entry_rep K (?h(r := None))) (cb_live cb') (ls @ [pend])"
      using True e live' x xnew(2) rx(1) by (simp add: entry_rep_def list_all2_appendI)
    moreover have "distinct (map buffptr (cb_live cb'))"
      using True dist new live' x by simp
    ultimately show ?thesis
      using inv' null free by (simp add: step_post_def dev_rep_def work_rep_def)
  qed
qed

end
