(* ===== verification/CharDriverWrite.thy ===== *)
theory CharDriverWrite
  imports CharDriverRep
begin

text \<open>
  Correctness of \<open>aesd_write\<close>: a write with at most one newline does what \<open>accept_bytes\<close> says, never
  touches memory it should not and gives every byte back it does not keep; a write with a second
  newline does not, because \<open>mem_to_malloc\<close> subtracts \<open>start_ptr\<close> from an index that is already
  relative to it.
\<close>

section \<open>Finding the delimiter\<close>

lemma find_delimiter_from_spec:
  assumes "n \<le> length bytes" and "i \<le> n"
  shows "find_delimiter_from bytes i (int n) =
    Some (if nl \<in> set (drop i (take n bytes))
          then int (i + length (takeWhile (\<lambda>c. c \<noteq> nl) (drop i (take n bytes)))) else -1)"
  using assms(2)
proof (induction i rule: inc_induct)
  case base
  then show ?case by (simp add: find_delimiter_from.simps)
next
  case (step i)
  have "drop i (take n bytes) = bytes ! i # drop (Suc i) (take n bytes)"
    using step assms(1) by (metis Cons_nth_drop_Suc length_take min.absorb2 nth_take)
  then show ?case
    using step assms(1) by (simp add: find_delimiter_from.simps [of bytes i])
qed

lemma find_delimiter_none:
  "n \<le> length bytes \<Longrightarrow> nl \<notin> set (take n bytes) \<Longrightarrow> find_delimiter bytes (int n) = Some (-1)"
  by (simp add: find_delimiter_def find_delimiter_from_spec)

lemma find_delimiter_first:
  assumes "take n bytes = a @ nl # b" and "nl \<notin> set a" and "n \<le> length bytes"
  shows "find_delimiter bytes (int n) = Some (int (length a))"
  using assms takeWhile_first [OF assms(2), of b]
  by (simp add: find_delimiter_def find_delimiter_from_spec)

section \<open>The loop\<close>

lemma step_post_trans:
  "step_post K s s1 l1 p1 \<Longrightarrow> step_post K s1 s2 l2 p2 \<Longrightarrow> step_post K s s2 l2 p2"
  by (simp add: step_post_def)

lemma failed_post_trans:
  "step_post K s s1 l1 p1 \<Longrightarrow> circular_buffer (dev s1) = circular_buffer (dev s) \<Longrightarrow>
     failed_post K s1 s2 l2 p2 \<Longrightarrow> failed_post K s s2 l2 p2"
  by (simp add: step_post_def failed_post_def)

text \<open>The copy buffer during the loop: a block of \<open>count\<close> bytes that the device does not own.\<close>

definition copy_ok :: "'w kernel \<Rightarrow> 'w kst \<Rightarrow> ptr \<Rightarrow> u64 \<Rightarrow> byte list \<Rightarrow> bool" where
  "copy_ok K s cb count blk \<longleftrightarrow>
     unowned s cb = Some blk \<and> length blk = unat count \<and> length blk \<le> kmalloc_max K"

lemma copy_ok_step: "copy_ok K s cb count blk \<Longrightarrow> step_post K s s' l p \<Longrightarrow> copy_ok K s' cb count blk"
  by (simp add: copy_ok_def step_post_def)

lemma remaining_size:
  assumes "kernel_ok K" and "copy_ok K s cb count blk" and "st \<le> length blk"
  shows "int_of_size (count - size_of_int (int st)) = int (length blk - st)"
proof -
  have len: "length blk = unat count" and b: "unat count \<le> 2 ^ 25"
    using assms(1,2) kernel_okD(2) [OF assms(1)] by (auto simp: copy_ok_def)
  have "unat (count - size_of_int (int st)) = unat count - st"
    using assms(3) len b by (simp add: size_of_int_of_nat unat_sub word_le_nat_alt unat_of_nat)
  then show ?thesis
    using len b by (subst int_of_size_small) simp_all
qed

text \<open>The last turn: no newline is left.\<close>

lemma write_loop_tail:
  assumes K: "kernel_ok K" and rep: "dev_rep K (dev s) (kheap (wld s)) lines pend"
    and copy: "copy_ok K s cb count blk" and st: "st \<le> length blk"
    and no: "nl \<notin> set (drop st blk)"
  shows "\<exists>r s'. aesd_write_loop K cb count (int st) ret s = Some (r, s') \<and>
    (r = ret + int (length blk - st) \<and> step_post K s s' lines (pend @ drop st blk) \<or>
     r = - ENOMEM \<and> failed_post K s s' lines pend)"
proof -
  have cb: "unowned s cb = Some blk" "kheap (wld s) cb = Some blk" "length blk \<le> kmalloc_max K"
    using copy by (auto simp: copy_ok_def unowned_Some)
  have delim: "find_delimiter (drop st blk) (int (length blk - st)) = Some (-1)"
    using no by (intro find_delimiter_none) auto
  obtain r s' where "append_working K cb (int st) (int (length blk - st)) s = Some (r, s')"
    and "r = 0 \<and> step_post K s s' lines (pend @ take (length blk - st) (drop st blk)) \<or>
     r = - ENOMEM \<and> failed_post K s s' lines pend"
    using append_working_rep [OF K rep cb(1), of st "length blk - st"] st cb(3) by auto
  then show ?thesis
    using cb delim remaining_size [OF K copy st]
    by (auto simp: aesd_write_loop.simps [of K cb count "int st"] Let_def)
qed

text \<open>A turn that finds a newline, with nothing of the copy buffer consumed yet.\<close>

lemma write_loop_first_line:
  assumes K: "kernel_ok K" and rep: "dev_rep K (dev s) (kheap (wld s)) lines pend"
    and copy: "copy_ok K s cb count blk" and blk: "blk = a @ nl # b" and a: "nl \<notin> set a"
  shows "(\<exists>s'. aesd_write_loop K cb count 0 ret s = Some (- ENOMEM, s') \<and> failed_post K s s' lines pend) \<or>
    (\<exists>s'. aesd_write_loop K cb count 0 ret s =
            aesd_write_loop K cb count (int (Suc (length a))) (ret + int (Suc (length a))) s' \<and>
          step_post K s s' (last_n 10 (lines @ [pend @ a @ [nl]])) [])"
proof -
  have cb: "unowned s cb = Some blk" "kheap (wld s) cb = Some blk" "length blk \<le> kmalloc_max K"
    using copy by (auto simp: copy_ok_def unowned_Some)
  have delim: "find_delimiter blk (int (length blk)) = Some (int (length a))"
    using a blk by (intro find_delimiter_first [where b = b]) auto
  have tk: "take (Suc (length a)) blk = a @ [nl]" using blk by simp
  have rem: "int_of_size count = int (length blk)"
    using remaining_size [OF K copy, of 0] by simp
  obtain r s1 where app: "append_working K cb 0 (int (Suc (length a))) s = Some (r, s1)"
    and r: "r = 0 \<and> step_post K s s1 lines (pend @ a @ [nl]) \<or>
     r = - ENOMEM \<and> failed_post K s s1 lines pend"
    using append_working_rep [OF K rep cb(1), of 0 "Suc (length a)"] cb(3) blk tk
    by (auto simp del: of_nat_Suc)
  have unfold: "aesd_write_loop K cb count 0 ret s =
      (if r < 0 then Some (r, s1)
       else Option.bind (enqueue_working K s1) (\<lambda>s2. aesd_write_loop K cb count
              (int (Suc (length a))) (ret + int (Suc (length a))) s2))"
    using cb delim rem app
    by (simp add: aesd_write_loop.simps [of K cb count 0] Let_def add.commute)
  show ?thesis
  proof (cases "r = 0")
    case True
    with r have post: "step_post K s s1 lines (pend @ a @ [nl])" by simp
    then have "dev_rep K (dev s1) (kheap (wld s1)) lines (pend @ a @ [nl])" by (simp add: step_post_def)
    from enqueue_working_rep [OF K this] obtain s2 where "enqueue_working K s1 = Some s2"
      and "step_post K s1 s2 (last_n 10 (lines @ [pend @ a @ [nl]])) []" by auto
    with True unfold step_post_trans [OF post] show ?thesis by auto
  qed (use r unfold in auto)
qed

text \<open>
  How a write of \<open>blk\<close> ends when memory runs out: nothing was stored, or the incomplete line was lost and
  its buffer left dangling, or the line up to the first newline was stored, further ones perhaps if
  \<open>blk\<close> has more newlines, and the rest was not.
\<close>

definition write_aborted :: "'w kernel \<Rightarrow> 'w kst \<Rightarrow> byte list list \<Rightarrow> byte list \<Rightarrow> byte list \<Rightarrow> bool" where
  "write_aborted K s lines pend blk \<longleftrightarrow>
     dev_rep K (dev s) (kheap (wld s)) lines pend \<or>
     pend \<noteq> [] \<and> work_lost K s lines \<or>
     (\<exists>a b ls. blk = a @ nl # b \<and> nl \<notin> set a \<and> (count_list blk nl \<le> 1 \<longrightarrow> ls = []) \<and>
        dev_rep K (dev s) (kheap (wld s)) (last_n 10 (lines @ (pend @ a @ [nl]) # ls)) [])"

lemma write_aborted_first:
  assumes "dev_rep K (dev s) (kheap (wld s)) (last_n 10 (lines @ (pend @ a @ [nl]) # ls)) []" and "nl \<notin> set a"
    and "blk = a @ nl # b" and "count_list blk nl \<le> 1 \<longrightarrow> ls = []"
  shows "write_aborted K s lines pend blk"
  using assms unfolding write_aborted_def by blast

definition enomem_post ::
  "'w kernel \<Rightarrow> 'w kst \<Rightarrow> 'w kst \<Rightarrow> byte list list \<Rightarrow> byte list \<Rightarrow> byte list \<Rightarrow> bool" where
  "enomem_post K s s' lines pend blk \<longleftrightarrow>
     lock (dev s') = lock (dev s) \<and> unowned s' = unowned s \<and> write_aborted K s' lines pend blk"

lemma failed_enomem: "failed_post K s s' lines pend \<Longrightarrow> enomem_post K s s' lines pend blk"
  by (auto simp: failed_post_def enomem_post_def write_aborted_def split: if_splits)

lemma count_list_le1:
  assumes "count_list xs x \<le> 1"
  obtains "x \<notin> set xs" | a b where "xs = a @ x # b" and "x \<notin> set a" and "x \<notin> set b"
proof (cases "x \<in> set xs")
  case True
  then obtain a b where "xs = a @ x # b" and "x \<notin> set a" using split_list_first by metis
  with assms that(2) show ?thesis by (auto simp: count_list_0_iff)
qed (rule that(1))

lemma write_loop_one_newline:
  assumes K: "kernel_ok K" and rep: "dev_rep K (dev s) (kheap (wld s)) lines pend"
    and pend: "nl \<notin> set pend" and copy: "copy_ok K s cb count blk" and one: "count_list blk nl \<le> 1"
    and acc: "accept_bytes lines pend blk = (lines', pend')"
  shows "\<exists>r s'. aesd_write_loop K cb count 0 0 s = Some (r, s') \<and>
    (r = int (length blk) \<and> step_post K s s' lines' pend' \<or> r = - ENOMEM \<and> enomem_post K s s' lines pend blk)"
  using one
proof (cases rule: count_list_le1)
  case 1
  have "lines' = lines" and "pend' = pend @ blk"
    using acc accept_none [OF pend 1 dev_rep_le10 [OF rep]] by auto
  then show ?thesis
    using write_loop_tail [OF K rep copy, of 0 0] 1 by (auto dest: failed_enomem)
next
  case (2 a b)
  have acc': "lines' = last_n 10 (lines @ [pend @ a @ [nl]])" "pend' = b"
    using acc accept_one [OF pend 2(2,3)] 2(1) by auto
  from write_loop_first_line [OF K rep copy 2(1,2), of 0] show ?thesis
  proof (elim disjE exE conjE)
    fix s1
    assume loop: "aesd_write_loop K cb count 0 0 s =
        aesd_write_loop K cb count (int (Suc (length a))) (0 + int (Suc (length a))) s1"
      and post: "step_post K s s1 (last_n 10 (lines @ [pend @ a @ [nl]])) []"
    have rep1: "dev_rep K (dev s1) (kheap (wld s1)) lines' []"
      using post acc' by (simp add: step_post_def)
    have st: "Suc (length a) \<le> length blk" and "drop (Suc (length a)) blk = b"
      using 2 by simp_all
    with write_loop_tail [OF K rep1 copy_ok_step [OF copy post] st] 2(3) loop
    obtain r s2 where "aesd_write_loop K cb count 0 0 s = Some (r, s2)"
      and "r = int (length blk) \<and> step_post K s1 s2 lines' b \<or> r = - ENOMEM \<and> failed_post K s1 s2 lines' []"
      by fastforce
    moreover have "enomem_post K s s2 lines pend blk" if "failed_post K s1 s2 lines' []"
      using that post write_aborted_first [of K s2 lines pend a "[]" blk b] 2 acc'(1)
      by (simp add: failed_post_def enomem_post_def step_post_def)
    ultimately show ?thesis
      using acc' post step_post_trans [OF post] by auto
  qed (auto dest: failed_enomem)
qed

section \<open>The whole operation\<close>

lemma dev_rep_cong:
  assumes "dev_rep K d h lines pend" and "\<And>p. p \<in> owned d \<Longrightarrow> h' p = h p"
    and "h' NULL = None" and "h' (ZERO_SIZE_PTR K) = None"
  shows "dev_rep K d h' lines pend"
proof -
  have "list_all2 (entry_rep K h') (live d) lines"
    using assms(1,2) by (auto simp: dev_rep_def owned_def intro!: entries_rep_cong [where h = h])
  moreover have "work_rep K d h' pend"
    using assms(1,2) by (auto simp: dev_rep_def work_rep_def owned_def)
  ultimately show ?thesis
    using assms by (simp add: dev_rep_def)
qed

lemma owned_live: "dev_rep K d h lines pend \<Longrightarrow> p \<in> owned d \<Longrightarrow> h p \<noteq> None"
  using live_ptrs_live [of K d h lines pend p]
  by (auto simp: owned_def dev_rep_def work_rep_def split: if_splits)

text \<open>Taking the copy buffer and giving it back.\<close>

lemma with_block:
  assumes rep: "dev_rep K (dev s) (kheap (wld s)) lines pend"
    and "kheap (wld s) cb = None" and "cb \<noteq> NULL" and "cb \<noteq> ZERO_SIZE_PTR K"
    and heap: "kheap (wld s') = (kheap (wld s))(cb \<mapsto> blk)" and "dev s' = (dev s)\<lparr>lock := x\<rparr>"
  shows "dev_rep K (dev s') (kheap (wld s')) lines pend" and "unowned s' = (unowned s)(cb \<mapsto> blk)"
proof -
  have o: "owned (dev s') = owned (dev s)" using assms by (simp add: owned_def)
  have cb: "cb \<notin> owned (dev s)" using owned_live [OF rep] assms(2) by blast
  have "dev_rep K (dev s) (kheap (wld s')) lines pend"
    using assms cb rep by (intro dev_rep_cong [OF rep]) (auto simp: dev_rep_def)
  then show "dev_rep K (dev s') (kheap (wld s')) lines pend"
    using assms(6) by simp
  show "unowned s' = (unowned s)(cb \<mapsto> blk)"
    using cb o heap by (simp add: unowned_def restrict_map_def fun_eq_iff)
qed

lemma without_block:
  assumes K: "kernel_ok K" and cb: "unowned s cb = Some blk" "cb \<noteq> NULL" "cb \<noteq> ZERO_SIZE_PTR K"
  obtains s' where "copy_buff_free K cb r (mutex_unlock s) = Some (r, s')"
    and "unowned s' = (unowned s)(cb := None)" and "lock (dev s') = False"
    and "dev_rep K (dev s) (kheap (wld s)) lines pend \<Longrightarrow> dev_rep K (dev s') (kheap (wld s')) lines pend"
    and "work_lost K s lines \<Longrightarrow> work_lost K s' lines"
proof -
  have h: "kheap (wld s) cb = Some blk" "cb \<notin> owned (dev s)" using cb by (auto simp: unowned_Some)
  obtain w where w: "kfree_chk K cb (wld s) = Some w" "kheap w = (kheap (wld s))(cb := None)"
    by (rule kfree_chk_live [OF K h(1) cb(2,3)])
  let ?s = "(mutex_unlock s)\<lparr>wld := w\<rparr>"
  have o: "owned (dev ?s) = owned (dev s)" by (simp add: owned_def mutex_unlock_def)
  show ?thesis
  proof (rule that [of ?s])
    show "copy_buff_free K cb r (mutex_unlock s) = Some (r, ?s)"
      using w by (simp add: copy_buff_free_def mutex_unlock_def)
    show "unowned ?s = (unowned s)(cb := None)"
      using o w by (simp add: unowned_def restrict_map_def fun_eq_iff)
    show "lock (dev ?s) = False" by (simp add: mutex_unlock_def)
    show "work_lost K s lines \<Longrightarrow> work_lost K ?s lines"
      using w h(2) by (auto simp: work_lost_def work_dangling_def owned_def mutex_unlock_def entries_rep_off)
    assume rep: "dev_rep K (dev s) (kheap (wld s)) lines pend"
    then have "dev_rep K (dev s) (kheap w) lines pend"
      using h w by (intro dev_rep_cong [OF rep]) (auto simp: dev_rep_def)
    then show "dev_rep K (dev ?s) (kheap (wld ?s)) lines pend"
      by simp
  qed
qed

lemma without_block_rep:
  assumes "kernel_ok K" and "unowned s cb = Some blk" "cb \<noteq> NULL" "cb \<noteq> ZERO_SIZE_PTR K"
    and "dev_rep K (dev s) (kheap (wld s)) lines pend"
  obtains s' where "copy_buff_free K cb r (mutex_unlock s) = Some (r, s')"
    and "unowned s' = (unowned s)(cb := None)" and "lock (dev s') = False"
    and "dev_rep K (dev s') (kheap (wld s')) lines pend"
  using assms(5) without_block [OF assms(1-4), of r lines pend] by metis

lemma without_block_aborted:
  assumes "kernel_ok K" and "unowned s cb = Some blk" "cb \<noteq> NULL" "cb \<noteq> ZERO_SIZE_PTR K"
    and "write_aborted K s lines pend buf"
  obtains s' where "copy_buff_free K cb r (mutex_unlock s) = Some (r, s')"
    and "unowned s' = (unowned s)(cb := None)" and "lock (dev s') = False"
    and "write_aborted K s' lines pend buf"
  using assms(5) unfolding write_aborted_def
proof (elim disjE exE conjE)
  assume "dev_rep K (dev s) (kheap (wld s)) lines pend"
  then show thesis using that without_block [OF assms(1-4), of r lines pend] unfolding write_aborted_def by metis
next
  assume "pend \<noteq> []" "work_lost K s lines"
  then show thesis using that without_block [OF assms(1-4), of r lines pend] unfolding write_aborted_def by metis
next
  fix a b ls
  assume blk: "nl \<notin> set a" "buf = a @ nl # b" "count_list buf nl \<le> 1 \<longrightarrow> ls = []"
    and "dev_rep K (dev s) (kheap (wld s)) (last_n 10 (lines @ (pend @ a @ [nl]) # ls)) []"
  then show thesis
    using that without_block [OF assms(1-4), of r "last_n 10 (lines @ (pend @ a @ [nl]) # ls)" "[]"]
      write_aborted_first [OF _ blk] by metis
qed

text \<open>Leaving before the lock was taken, with the copy buffer to free.\<close>

lemma copy_buff_free_unlocked:
  assumes "lock (dev s) = False"
  shows "copy_buff_free K cb r s = copy_buff_free K cb r (mutex_unlock s)"
proof -
  have "(dev s)\<lparr>lock := False\<rparr> = dev s" using assms by (cases "dev s") simp
  then have "mutex_unlock s = s" by (cases s) (simp add: mutex_unlock_def)
  then show ?thesis by simp
qed

lemma unlocked_update:
  "lock (dev s) = False \<Longrightarrow> s\<lparr>dev := (dev s)\<lparr>lock := False\<rparr>, wld := w\<rparr> = s\<lparr>wld := w\<rparr>"
  by (cases s, cases "dev s") simp

text \<open>
  The outcomes of a write of \<open>blk\<close> that should return \<open>r0\<close> and leave \<open>lines'\<close> and \<open>pend'\<close>: that, or an error
  with the device as it was, or memory ran out on the way.  Always the mutex is free again and
  every block the device does not own is as before, so the copy buffer has not leaked.
\<close>

definition write_outcome ::
  "'w kernel \<Rightarrow> 'w kst \<Rightarrow> byte list list \<Rightarrow> byte list \<Rightarrow> byte list \<Rightarrow> int \<Rightarrow> byte list list \<Rightarrow> byte list \<Rightarrow>
     int \<Rightarrow> 'w kst \<Rightarrow> bool" where
  "write_outcome K s lines pend blk r0 lines' pend' r s' \<longleftrightarrow>
     lock (dev s') = False \<and> unowned s' = unowned s \<and>
     (r = r0 \<and> dev_rep K (dev s') (kheap (wld s')) lines' pend' \<or>
      (r = - EFAULT \<or> r = - EINTR \<and> \<not> uninterrupted K) \<and> dev_rep K (dev s') (kheap (wld s')) lines pend \<or>
      r = - ENOMEM \<and> write_aborted K s' lines pend blk)"

text \<open>
  What happens before the loop: the operation either ends with an error and the device unchanged,
  or enters the loop holding the lock, with the bytes in a fresh copy buffer.
\<close>

lemma aesd_write_enter:
  assumes K: "kernel_ok K" and rep: "dev_rep K (dev s) (kheap (wld s)) lines pend"
    and dev_file: "private_data f \<noteq> None" and unlocked: "lock (dev s) = False"
    and len: "unat count \<le> length buf" and nz: "count \<noteq> 0"
  obtains (error) r s' where "aesd_write K (Some f) buf count s = Some (r, s')"
      "r = - ENOMEM \<or> r = - EFAULT \<or> r = - EINTR \<and> \<not> uninterrupted K"
      "lock (dev s') = False" "unowned s' = unowned s" "dev_rep K (dev s') (kheap (wld s')) lines pend"
  | (loop) cb s3 where
      "aesd_write K (Some f) buf count s = Option.bind (aesd_write_loop K cb count 0 0 s3)
         (\<lambda>(retval, s4). copy_buff_free K cb retval (mutex_unlock s4))"
      "dev_rep K (dev s3) (kheap (wld s3)) lines pend"
      "copy_ok K s3 cb count (take (unat count) buf)" "(unowned s3)(cb := None) = unowned s"
      "cb \<noteq> NULL" "cb \<noteq> ZERO_SIZE_PTR K"
proof -
  let ?data = "take (unat count) buf"
  obtain d0 where pd: "private_data f = Some d0" using dev_file by auto
  obtain cb w1 where alloc: "kmalloc K count (wld s) = (cb, w1)" by fastforce
  from K alloc show ?thesis
  proof (cases rule: kmallocE)
    case failed
    obtain w' where "kfree_chk K NULL w1 = Some w'" and h: "kheap w' = kheap w1"
      by (rule kfree_chk_NULL [OF K])
    then have "aesd_write K (Some f) buf count s = Some (- ENOMEM, s\<lparr>wld := w'\<rparr>)"
      using nz pd alloc failed by (simp add: aesd_write_def copy_buff_free_def)
    then show ?thesis
      by (rule error) (use rep h failed unlocked in \<open>simp_all add: unowned_def\<close>)
  next
    case (fresh blk0)
    obtain r blk w2 where copy: "copy_from_user K buf count w1 = (r, blk, w2)" by (metis prod_cases3)
    let ?s2 = "s\<lparr>wld := w2\<lparr>kheap := (kheap w2)(cb \<mapsto> blk)\<rparr>\<rparr>"
    obtain m w3 where mutex: "mutex_lock_interruptible K (wld ?s2) = (m, w3)" by fastforce
    let ?s3 = "\<lambda>x. s\<lparr>dev := (dev s)\<lparr>lock := x\<rparr>, wld := w3\<rparr>"
    have h2: "kheap w2 = (kheap (wld s))(cb \<mapsto> blk0)" and lenb: "length blk = unat count"
      and blk: "r = 0 \<Longrightarrow> blk = ?data"
      using copy_from_userE [OF K copy] fresh by (metis, metis, metis)
    have w2s: "kheap (wld ?s2) = (kheap (wld s))(cb \<mapsto> blk)" using h2 by simp
    have w3s: "kheap (wld (?s3 x)) = (kheap (wld s))(cb \<mapsto> blk)" for x
      using mutex_lock_heap [OF K mutex] h2 by simp
    have dev2: "dev ?s2 = (dev s)\<lparr>lock := lock (dev s)\<rparr>" and dev3: "dev (?s3 x) = (dev s)\<lparr>lock := x\<rparr>" for x
      by simp_all
    note block2 = with_block [OF rep fresh(4,2,3) w2s dev2]
    note block3 = with_block [OF rep fresh(4,2,3) w3s dev3]
    have un: "(unowned s)(cb := None) = unowned s"
      using fresh(4) by (auto simp: unowned_def restrict_map_def)
    have un2: "unowned ?s2 cb = Some blk" and un3: "unowned (?s3 x) cb = Some blk" for x
      using block2(2) block3(2) [of x] by simp_all
    consider "r \<noteq> 0" | "r = 0" "m \<noteq> 0" | "r = 0" "m = 0" by blast
    then show ?thesis
    proof cases
      case 1
      obtain s' where s': "copy_buff_free K cb (- EFAULT) (mutex_unlock ?s2) = Some (- EFAULT, s')"
        and "unowned s' = (unowned ?s2)(cb := None)" "lock (dev s') = False"
          "dev_rep K (dev s') (kheap (wld s')) lines pend"
        by (rule without_block_rep [OF K un2 fresh(2,3) block2(1)]) (use unlocked in simp_all)
      moreover have "aesd_write K (Some f) buf count s = Some (- EFAULT, s')"
        using 1 nz pd fresh s' copy_buff_free_unlocked [of ?s2 K cb "- EFAULT"] unlocked
        by (simp add: aesd_write_def alloc copy Let_def)
      ultimately show ?thesis
        by (intro error [of "- EFAULT" s']) (use block2(2) un in simp_all)
    next
      case 2
      have not_un: "\<not> uninterrupted K"
        using 2 mutex unfolding uninterrupted_def by (metis fst_conv)
      obtain s' where s': "copy_buff_free K cb (- EINTR) (mutex_unlock (?s3 False)) = Some (- EINTR, s')"
        and "unowned s' = (unowned (?s3 False))(cb := None)" "lock (dev s') = False"
          "dev_rep K (dev s') (kheap (wld s')) lines pend"
        by (rule without_block_rep [OF K un3 fresh(2,3) block3(1)]) simp_all
      moreover have "aesd_write K (Some f) buf count s = Some (- EINTR, s')"
        using 2 nz pd fresh mutex s' copy_buff_free_unlocked [of "?s3 False" K cb "- EINTR"] unlocked
        by (simp add: unlocked_update aesd_write_def alloc copy lock_interruptible_def Let_def)
      ultimately show ?thesis
        by (intro error [of "- EINTR" s']) (use block3(2) [of False] un not_un in simp_all)
    next
      case 3
      have enters: "aesd_write K (Some f) buf count s = Option.bind (aesd_write_loop K cb count 0 0 (?s3 True))
         (\<lambda>(retval, s4). copy_buff_free K cb retval (mutex_unlock s4))"
        using 3 nz pd fresh mutex
        by (simp add: aesd_write_def alloc copy lock_interruptible_def Let_def)
      have copy_buf: "copy_ok K (?s3 True) cb count ?data"
        using un3 lenb fresh(5) blk 3 by (simp add: copy_ok_def)
      show ?thesis
        by (rule loop [OF enters _ copy_buf]) (use block3 [of True] un fresh in simp_all)
    qed
  qed (use nz in simp)
qed

text \<open>A result of the loop is a result of the whole operation.\<close>

lemma aesd_write_via_loop:
  assumes K: "kernel_ok K" and rep: "dev_rep K (dev s) (kheap (wld s)) lines pend"
    and dev_file: "private_data f \<noteq> None" and unlocked: "lock (dev s) = False"
    and len: "unat count \<le> length buf" and nz: "count \<noteq> 0"
    and loop: "\<And>cb s3. dev_rep K (dev s3) (kheap (wld s3)) lines pend \<Longrightarrow>
      copy_ok K s3 cb count (take (unat count) buf) \<Longrightarrow>
      \<exists>r s4. aesd_write_loop K cb count 0 0 s3 = Some (r, s4) \<and>
        (r = r0 \<and> step_post K s3 s4 lines' pend' \<or>
         r = - ENOMEM \<and> enomem_post K s3 s4 lines pend (take (unat count) buf))"
  shows "\<exists>r s'. aesd_write K (Some f) buf count s = Some (r, s') \<and>
    write_outcome K s lines pend (take (unat count) buf) r0 lines' pend' r s'"
  using K rep dev_file unlocked len nz
proof (cases rule: aesd_write_enter)
  case (error r s')
  then show ?thesis by (auto simp: write_outcome_def write_aborted_def)
next
  case (loop cb s3)
  obtain r s4 where run: "aesd_write_loop K cb count 0 0 s3 = Some (r, s4)"
    and res: "r = r0 \<and> step_post K s3 s4 lines' pend' \<or>
      r = - ENOMEM \<and> enomem_post K s3 s4 lines pend (take (unat count) buf)"
    using assms(7) [OF loop(2,3)] by metis
  have unfold: "aesd_write K (Some f) buf count s = copy_buff_free K cb r (mutex_unlock s4)"
    by (simp add: loop(1) run)
  have un: "unowned s4 = unowned s3" using res by (auto simp: step_post_def enomem_post_def)
  then have un4: "unowned s4 cb = Some (take (unat count) buf)" using loop(3) by (simp add: copy_ok_def)
  from res show ?thesis
  proof (elim disjE conjE)
    assume r: "r = r0" and "step_post K s3 s4 lines' pend'"
    then have "dev_rep K (dev s4) (kheap (wld s4)) lines' pend'" by (simp add: step_post_def)
    from without_block_rep [OF K un4 loop(5,6) this, of r] obtain s' where
      "copy_buff_free K cb r (mutex_unlock s4) = Some (r, s')" and "lock (dev s') = False"
      "unowned s' = (unowned s4)(cb := None)" "dev_rep K (dev s') (kheap (wld s')) lines' pend'"
      by metis
    then show ?thesis
      using unfold r un loop(4) by (simp add: write_outcome_def)
  next
    assume r: "r = - ENOMEM" and "enomem_post K s3 s4 lines pend (take (unat count) buf)"
    then have "write_aborted K s4 lines pend (take (unat count) buf)" by (simp add: enomem_post_def)
    from without_block_aborted [OF K un4 loop(5,6) this, of r] obtain s' where
      "copy_buff_free K cb r (mutex_unlock s4) = Some (r, s')" and "lock (dev s') = False"
      "unowned s' = (unowned s4)(cb := None)" "write_aborted K s' lines pend (take (unat count) buf)"
      by metis
    then show ?thesis
      using unfold r un loop(4) by (simp add: write_outcome_def)
  qed
qed

lemma aesd_write_run:
  assumes K: "kernel_ok K" and rep: "dev_rep K (dev s) (kheap (wld s)) lines pend"
    and pend: "nl \<notin> set pend" and dev_file: "private_data f \<noteq> None" and unlocked: "lock (dev s) = False"
    and len: "unat count \<le> length buf" and one: "count_list (take (unat count) buf) nl \<le> 1"
    and acc: "accept_bytes lines pend (take (unat count) buf) = (lines', pend')"
  shows "\<exists>r s'. aesd_write K (Some f) buf count s = Some (r, s') \<and>
    write_outcome K s lines pend (take (unat count) buf) (int (unat count)) lines' pend' r s'"
proof (cases "count = 0")
  case True
  then show ?thesis
    using accept_none [OF pend _ dev_rep_le10 [OF rep], of "[]"] rep unlocked dev_file acc
    by (auto simp add: aesd_write_def write_outcome_def)
next
  case False
  have "length (take (unat count) buf) = unat count" using len by simp
  with write_loop_one_newline [OF K _ pend _ one acc]
  show ?thesis
    by (intro aesd_write_via_loop [OF K rep dev_file unlocked len False]) simp
qed

section \<open>A second newline\<close>

text \<open>
  After a first line \<open>a\<close> the loop looks for the newline from \<open>start_ptr\<close> on, so \<open>delim_loc\<close> is
  already relative to it, and \<open>mem_to_malloc\<close> becomes \<open>length b - length a\<close> for a second line \<open>b\<close>.
\<close>

lemma write_loop_second_line:
  assumes K: "kernel_ok K" and copy: "copy_ok K s cb count (a @ nl # b @ nl # c)"
    and b: "nl \<notin> set b"
  shows "aesd_write_loop K cb count (int (Suc (length a))) ret s =
    Option.bind (append_working K cb (int (Suc (length a))) (int (length b) - int (length a)) s) (\<lambda>(r, s1).
      if r < 0 then Some (r, s1)
      else Option.bind (enqueue_working K s1) (\<lambda>s2.
        aesd_write_loop K cb count (int (Suc (Suc (length a + length b))))
          (ret + (int (length b) - int (length a))) s2))"
proof -
  let ?blk = "a @ nl # b @ nl # c" and ?st = "Suc (length a)"
  have blk: "kheap (wld s) cb = Some ?blk" using copy by (auto simp: copy_ok_def unowned_Some)
  have dr: "drop ?st ?blk = b @ nl # c" by simp
  have "int_of_size (count - size_of_int (int ?st)) = int (length (b @ nl # c))"
    using remaining_size [OF K copy, of ?st] by simp
  moreover have "find_delimiter (b @ nl # c) (int (length (b @ nl # c))) = Some (int (length b))"
    using b by (intro find_delimiter_first [where b = c]) auto
  ultimately have delim: "find_delimiter (drop ?st ?blk)
      (int_of_size (count - size_of_int (int ?st))) = Some (int (length b))"
    by (simp only: dr)
  have st: "nat (int ?st) = ?st" by simp
  have ne: "int (length b) \<noteq> - 1"
    and mem: "int (length b) - int ?st + 1 = int (length b) - int (length a)"
    and nxt: "int ?st + (int (length b) + 1) = int (Suc (Suc (length a + length b)))" by simp_all
  show ?thesis
    by (subst aesd_write_loop.simps)
      (simp only: st blk delim Option.bind.bind_lunit Let_def ne mem nxt if_False)
qed

text \<open>A negative \<open>mem_to_malloc\<close> asks for more memory than there is.\<close>

lemma negative_size:
  assumes "0 < m" and "m \<le> 2 ^ 25"
  shows "2 ^ 25 < unat (size_of_int (- int m))"
proof -
  have "- int m mod 2 ^ 64 = (- int m + 2 ^ 64) mod 2 ^ 64" by (rule mod_add_self2 [symmetric])
  also have "\<dots> = 2 ^ 64 - int m" using assms by (subst mod_pos_pos_trivial) simp_all
  finally have "uint (size_of_int (- int m)) = 2 ^ 64 - int m"
    unfolding size_of_int_def uint_word_of_int by simp
  then have u: "int (unat (size_of_int (- int m))) = 2 ^ 64 - int m" by (simp only: uint_nat)
  have "int m \<le> int (2 ^ 25)" using assms(2) by (simp only: of_nat_le_iff)
  then have "int (2 ^ 25) < int (unat (size_of_int (- int m)))" unfolding u by simp
  then show ?thesis by (simp only: of_nat_less_iff)
qed

lemma append_working_negative:
  assumes K: "kernel_ok K" and rep: "dev_rep K (dev s) (kheap (wld s)) lines []"
    and m: "0 < m" "m \<le> 2 ^ 25"
  shows "\<exists>s'. append_working K cb st (- int m) s = Some (- ENOMEM, s') \<and> failed_post K s s' lines []"
proof -
  have empty: "wsize (working_buffer (dev s)) = 0"
    using rep by (auto simp: dev_rep_def work_rep_def unat_eq_0 split: if_splits)
  obtain p w' where alloc: "kmalloc K (size_of_int (- int m)) (wld s) = (p, w')" by fastforce
  have big: "kmalloc_max K < unat (size_of_int (- int m))"
    using negative_size [OF m] kernel_okD(2) [OF K] by linarith
  from K alloc have "p = NULL" and h: "kheap w' = kheap (wld s)"
    using big by (cases rule: kmallocE; auto)+
  let ?s' = "s\<lparr>dev := (dev s)\<lparr>working_buffer := (working_buffer (dev s))\<lparr>buffer := NULL\<rparr>\<rparr>, wld := w'\<rparr>"
  have "append_working K cb st (- int m) s = Some (- ENOMEM, ?s')"
    using alloc empty \<open>p = NULL\<close> by (intro append_working_failed) (simp add: allocate_memory_def)
  moreover have "failed_post K s ?s' lines []"
    using rep h empty by (auto simp: failed_post_def dev_rep_def work_rep_def unowned_def owned_def)
  ultimately show ?thesis by blast
qed

lemma write_loop_short_second:
  assumes K: "kernel_ok K" and rep: "dev_rep K (dev s) (kheap (wld s)) lines pend"
    and copy: "copy_ok K s cb count (a @ nl # b @ nl # c)"
    and a: "nl \<notin> set a" and b: "nl \<notin> set b" and less: "length b < length a"
  shows "\<exists>s'. aesd_write_loop K cb count 0 0 s = Some (- ENOMEM, s') \<and>
    enomem_post K s s' lines pend (a @ nl # b @ nl # c)"
  using write_loop_first_line [OF K rep copy refl a, of 0]
proof (elim disjE exE conjE)
  fix s1
  assume loop: "aesd_write_loop K cb count 0 0 s =
      aesd_write_loop K cb count (int (Suc (length a))) (0 + int (Suc (length a))) s1"
    and post: "step_post K s s1 (last_n 10 (lines @ [pend @ a @ [nl]])) []"
  have m: "0 < length a - length b" "length a - length b \<le> 2 ^ 25"
    using less copy kernel_okD(2) [OF K] by (auto simp: copy_ok_def)
  have "dev_rep K (dev s1) (kheap (wld s1)) (last_n 10 (lines @ [pend @ a @ [nl]])) []"
    using post by (simp add: step_post_def)
  from append_working_negative [OF K this m] obtain s2 where
    "append_working K cb (int (Suc (length a))) (int (length b) - int (length a)) s1 = Some (- ENOMEM, s2)"
    and "failed_post K s1 s2 (last_n 10 (lines @ [pend @ a @ [nl]])) []"
    using less by (metis minus_diff_eq of_nat_diff less_imp_le)
  moreover from this(2) have "enomem_post K s s2 lines pend (a @ nl # b @ nl # c)"
    using post write_aborted_first [of K s2 lines pend a "[]" _ "b @ nl # c"] a
    by (simp add: failed_post_def enomem_post_def step_post_def)
  ultimately show ?thesis
    using loop write_loop_second_line [OF K copy_ok_step [OF copy post] b] by auto
qed (auto dest: failed_enomem)

lemma write_loop_long_second:
  assumes K: "kernel_ok K" and rep: "dev_rep K (dev s) (kheap (wld s)) lines pend"
    and copy: "copy_ok K s cb count (a @ nl # b @ nl # c)"
    and a: "nl \<notin> set a" and b: "nl \<notin> set b" and c: "nl \<notin> set c" and less: "length a < length b"
  shows "\<exists>r s'. aesd_write_loop K cb count 0 0 s = Some (r, s') \<and>
    (r = int (length b + 1 + length c) \<and> step_post K s s'
       (last_n 10 (lines @ [pend @ a @ [nl], take (length b - length a) b])) c \<or>
     r = - ENOMEM \<and> enomem_post K s s' lines pend (a @ nl # b @ nl # c))"
  using write_loop_first_line [OF K rep copy refl a, of 0]
proof (elim disjE exE conjE)
  let ?lines1 = "last_n 10 (lines @ [pend @ a @ [nl]])" and ?m = "length b - length a"
  let ?lines2 = "last_n 10 (lines @ [pend @ a @ [nl], take ?m b])" and ?blk = "a @ nl # b @ nl # c"
  let ?st2 = "Suc (Suc (length a + length b))"
  fix s1
  assume loop: "aesd_write_loop K cb count 0 0 s =
      aesd_write_loop K cb count (int (Suc (length a))) (0 + int (Suc (length a))) s1"
    and post: "step_post K s s1 ?lines1 []"
  have rep1: "dev_rep K (dev s1) (kheap (wld s1)) ?lines1 []" using post by (simp add: step_post_def)
  have copy1: "copy_ok K s1 cb count ?blk" by (rule copy_ok_step [OF copy post])
  then have cb: "unowned s1 cb = Some ?blk" "length ?blk \<le> kmalloc_max K" by (simp_all add: copy_ok_def)
  have tk: "take ?m (drop (Suc (length a)) ?blk) = take ?m b" by simp
  have m: "int ?m = int (length b) - int (length a)" using less by simp
  obtain r s2 where app: "append_working K cb (int (Suc (length a))) (int ?m) s1 = Some (r, s2)"
    and r: "r = 0 \<and> step_post K s1 s2 ?lines1 (take ?m b) \<or> r = - ENOMEM \<and> failed_post K s1 s2 ?lines1 []"
    using append_working_rep [OF K rep1 cb(1), of "Suc (length a)" ?m] cb(2) less tk by auto
  note second = write_loop_second_line [OF K copy1 b, folded m, unfolded app]
  show ?thesis
  proof (cases "r = 0")
    case False
    with r have "r = - ENOMEM" "failed_post K s1 s2 ?lines1 []" by auto
    moreover from this(2) have "enomem_post K s s2 lines pend ?blk"
      using post write_aborted_first [of K s2 lines pend a "[]" _ "b @ nl # c"] a
      by (simp add: failed_post_def enomem_post_def step_post_def)
    ultimately show ?thesis using second loop by auto
  next
    case True
    with r have post2: "step_post K s1 s2 ?lines1 (take ?m b)" by simp
    moreover have "take ?m b \<noteq> []" using less by auto
    ultimately obtain s3 where enq: "enqueue_working K s2 = Some s3"
      and post3: "step_post K s2 s3 ?lines2 []"
      using enqueue_working_rep [OF K, of s2 ?lines1 "take ?m b"]
      by (auto simp: step_post_def last_n_last_n_append)
    have post13: "step_post K s1 s3 ?lines2 []" by (rule step_post_trans [OF post2 post3])
    then have rep3: "dev_rep K (dev s3) (kheap (wld s3)) ?lines2 []" by (simp add: step_post_def)
    have st2: "?st2 \<le> length ?blk" "drop ?st2 ?blk = c" "length ?blk - ?st2 = length c" by simp_all
    from write_loop_tail [OF K rep3 copy_ok_step [OF copy1 post13] st2(1), of "int (Suc (length a)) + int ?m"]
    obtain r' s4 where tail: "aesd_write_loop K cb count (int ?st2) (int (Suc (length a)) + int ?m) s3 = Some (r', s4)"
      and r': "r' = int (Suc (length a)) + int ?m + int (length c) \<and> step_post K s3 s4 ?lines2 c \<or>
        r' = - ENOMEM \<and> failed_post K s3 s4 ?lines2 []"
      unfolding st2(2,3) using c by auto
    have run: "aesd_write_loop K cb count 0 0 s = Some (r', s4)"
      unfolding loop second using True enq tail by simp
    have "int (Suc (length a)) + int ?m + int (length c) = int (length b + 1 + length c)"
      using less by simp
    moreover have "step_post K s3 s4 ?lines2 c \<Longrightarrow> step_post K s s4 ?lines2 c"
      by (rule step_post_trans [OF step_post_trans [OF post post13]])
    moreover have "failed_post K s3 s4 ?lines2 [] \<Longrightarrow> enomem_post K s s4 lines pend ?blk"
      using post post13 write_aborted_first [of K s4 lines pend a "[take ?m b]" _ "b @ nl # c"] a
      by (simp add: failed_post_def enomem_post_def step_post_def)
    ultimately show ?thesis using run r' by auto
  qed
qed (auto dest: failed_enomem)

section \<open>The driver as a log\<close>

text \<open>The contract \<open>line_log\<close>, of a kernel that behaves and an open file.\<close>

definition driver_rep :: "'w kernel \<Rightarrow> file_t \<Rightarrow> 'w kst \<Rightarrow> byte list list \<Rightarrow> byte list \<Rightarrow> bool" where
  "driver_rep K f s lines pend \<longleftrightarrow>
     kernel_ok K \<and> private_data f \<noteq> None \<and> lock (dev s) = False \<and> nl \<notin> set pend \<and>
     dev_rep K (dev s) (kheap (wld s)) lines pend"

definition driver_write :: "'w kernel \<Rightarrow> file_t \<Rightarrow> byte list \<Rightarrow> 'w kst \<Rightarrow> (int \<times> 'w kst) option" where
  "driver_write K f bs s = aesd_write K (Some f) bs (of_nat (length bs)) s"

lemma unat_length_u64: "length bs < 2 ^ 64 \<Longrightarrow> unat (of_nat (length bs) :: u64) = length bs"
  by (simp add: unat_of_nat)

interpretation driver: line_log "driver_rep K f" "driver_write K f" for K f
proof
  fix s lines pend bs lines' pend'
  assume rep: "driver_rep K f s lines pend" and one: "count_list bs nl \<le> 1"
    and len: "length bs < 2 ^ 64" and acc: "accept_bytes lines pend bs = (lines', pend')"
  have "nl \<notin> set pend'" using accept_rest [OF acc] .
  with aesd_write_run [of K s lines pend f "of_nat (length bs)" bs lines' pend'] rep one acc
  show "\<exists>r s'. driver_write K f bs s = Some (r, s') \<and>
      (r < 0 \<or> r = int (length bs) \<and> driver_rep K f s' lines' pend')"
    by (auto simp: driver_rep_def driver_write_def write_outcome_def unat_length_u64 [OF len])
next
  fix s lines pend
  assume "driver_rep K f s lines pend"
  then show "length lines \<le> 10" and "nl \<notin> set pend"
    by (auto simp: driver_rep_def dest: dev_rep_le10)
qed

section \<open>Properties\<close>

text \<open>For the witnesses: the freshly loaded driver on the bump allocator, and an open file.\<close>

definition fresh_driver :: "nat kst" where
  "fresh_driver = \<lparr>dev = zero_device, wld = \<lparr>kheap = Map.empty, kenv = 17\<rparr>\<rparr>"

definition dev_file :: file_t where
  "dev_file = \<lparr>private_data = Some Aesd_device, f_pos = 0\<rparr>"

lemma zero_device_rep: "h NULL = None \<Longrightarrow> h (ZERO_SIZE_PTR K) = None \<Longrightarrow> dev_rep K zero_device h [] []"
  using cb_inv_init cb_live_init
  by (simp add: dev_rep_def work_rep_def zero_device_def aesd_circular_buffer_init_def)

lemma fresh_driver_rep: "dev_rep bump_kernel (dev fresh_driver) (kheap (wld fresh_driver)) [] []"
  by (simp add: fresh_driver_def zero_device_rep)

lemma fresh_driver_unlocked: "lock (dev fresh_driver) = False"
  by (simp add: fresh_driver_def zero_device_def)

lemma dev_file_private: "private_data dev_file \<noteq> None"
  by (simp add: dev_file_def)

lemma fresh_driver_log: "driver_rep bump_kernel dev_file fresh_driver [] []"
  by (simp add: driver_rep_def bump_kernel_ok fresh_driver_rep fresh_driver_unlocked dev_file_private)

text \<open>
  C4: a write of \<open>count\<close> bytes with at most one newline always returns.  It returns \<open>count\<close>, and the
  device then holds the last ten of its lines and the completed one, and the new incomplete line; or
  \<open>-EFAULT\<close> or \<open>-EINTR\<close>, with the device unchanged; or \<open>-ENOMEM\<close>, after which there are three cases: the
  device is unchanged; or only the line that the newline completes was stored and the bytes after it
  are lost; or there was an incomplete line before, which is lost and whose working buffer is left
  dangling, freed but still in use, next to the unchanged lines.  On every path the mutex is free again,
  no block that is not the device's is touched, and the copy buffer is freed.
\<close>

theorem aesd_write_stores:
  assumes "kernel_ok K" and "dev_rep K (dev s) (kheap (wld s)) lines pend" and "nl \<notin> set pend"
    and "private_data f \<noteq> None" and "lock (dev s) = False"
    and "unat count \<le> length buf" and "count_list (take (unat count) buf) nl \<le> 1"
  shows "\<exists>r s'. aesd_write K (Some f) buf count s = Some (r, s') \<and>
    lock (dev s') = False \<and> unowned s' = unowned s \<and>
    (r = int (unat count) \<and>
       (\<exists>lines' pend'. accept_bytes lines pend (take (unat count) buf) = (lines', pend') \<and>
          dev_rep K (dev s') (kheap (wld s')) lines' pend') \<or>
     r \<in> {- EFAULT, - EINTR} \<and> dev_rep K (dev s') (kheap (wld s')) lines pend \<or>
     r = - ENOMEM \<and>
       (dev_rep K (dev s') (kheap (wld s')) lines pend \<or>
        (\<exists>a b. take (unat count) buf = a @ nl # b \<and> nl \<notin> set a \<and>
           dev_rep K (dev s') (kheap (wld s')) (last_n 10 (lines @ [pend @ a @ [nl]])) []) \<or>
        pend \<noteq> [] \<and> work_lost K s' lines))"
proof -
  obtain lines' pend' where acc: "accept_bytes lines pend (take (unat count) buf) = (lines', pend')"
    by fastforce
  from aesd_write_run [OF assms this] obtain r s' where run: "aesd_write K (Some f) buf count s = Some (r, s')"
    and out: "write_outcome K s lines pend (take (unat count) buf) (int (unat count)) lines' pend' r s'" by blast
  have "write_aborted K s' lines pend (take (unat count) buf) \<Longrightarrow>
      dev_rep K (dev s') (kheap (wld s')) lines pend \<or>
      (\<exists>a b. take (unat count) buf = a @ nl # b \<and> nl \<notin> set a \<and>
         dev_rep K (dev s') (kheap (wld s')) (last_n 10 (lines @ [pend @ a @ [nl]])) []) \<or>
      pend \<noteq> [] \<and> work_lost K s' lines"
    unfolding write_aborted_def using assms(7) by auto
  with run out acc show ?thesis by (auto simp: write_outcome_def)
qed

theorem aesd_write_stores_witness:
  "\<exists>r s'. aesd_write bump_kernel (Some dev_file) ''hello'' 5 fresh_driver = Some (r, s') \<and>
    lock (dev s') = False \<and> unowned s' = unowned fresh_driver"
  using aesd_write_stores [OF bump_kernel_ok fresh_driver_rep _ dev_file_private
      fresh_driver_unlocked, of 5 "''hello''"]
  by (auto simp: nl_def)

text \<open>
  After any sequence of writes to a fresh driver, each with at most one newline and none
  refused, the device holds the last ten complete lines of everything written and the incomplete
  rest, however the bytes were cut into writes.
\<close>

theorem driver_keeps_last_ten_lines:
  assumes "driver_rep K f s [] []" and "\<forall>b\<in>set bs. count_list b nl \<le> 1 \<and> length b < 2 ^ 64"
    and "split_lines (concat bs) = (lines, rest)"
  shows "\<exists>ok s'. send_all (driver_write K f) bs s = Some (ok, s') \<and>
    (ok \<longrightarrow> dev_rep K (dev s') (kheap (wld s')) (last_n 10 lines) rest)"
proof -
  have "accept_bytes [] [] (concat bs) = (last_n 10 lines, rest)"
    using assms(3) by (simp add: accept_bytes_def)
  from driver.send_all_accepts [OF assms(1,2) this] show ?thesis
    by (auto simp: driver_rep_def)
qed

theorem driver_keeps_last_ten_lines_witness:
  "\<exists>s'. send_all (driver_write bump_kernel dev_file) [''ab'', ''c'' @ [nl] @ ''d''] fresh_driver
       = Some (True, s') \<and>
     dev_rep bump_kernel (dev s') (kheap (wld s')) [''abc'' @ [nl]] ''d''"
proof -
  have "split_lines (concat [''ab'', ''c'' @ [nl] @ ''d'']) = ([''abc'' @ [nl]], ''d'')"
    using split_lines_first [of "''abc''" "''d''"] by (simp add: nl_def split_lines_none)
  moreover have "map_option fst (send_all (driver_write bump_kernel dev_file)
      [''ab'', ''c'' @ [nl] @ ''d''] fresh_driver) = Some True"
    by code_simp
  ultimately show ?thesis
    using driver_keeps_last_ten_lines [OF fresh_driver_log, of "[''ab'', ''c'' @ [nl] @ ''d'']"]
    by (force simp: nl_def)
qed

text \<open>
  A write whose second line is shorter than its first never succeeds: \<open>mem_to_malloc\<close> becomes
  negative, the allocation asks for almost \<open>2 ^ 64\<close> bytes and fails, and the write returns an
  error although the first line may have been stored.
\<close>

theorem aesd_write_short_second_line:
  assumes "kernel_ok K" and "dev_rep K (dev s) (kheap (wld s)) lines pend"
    and "private_data f \<noteq> None" and "lock (dev s) = False"
    and "unat count = length (a @ [nl] @ b @ [nl] @ c)"
    and "nl \<notin> set a" and "nl \<notin> set b" and "length b < length a"
  shows "\<exists>r s'. aesd_write K (Some f) (a @ [nl] @ b @ [nl] @ c) count s = Some (r, s') \<and> r < 0"
proof -
  have loop: "\<exists>r s4. aesd_write_loop K cb count 0 0 s3 = Some (r, s4) \<and>
        (r = - ENOMEM \<and> step_post K s3 s4 lines pend \<or>
         r = - ENOMEM \<and> enomem_post K s3 s4 lines pend (take (unat count) (a @ [nl] @ b @ [nl] @ c)))"
    if "dev_rep K (dev s3) (kheap (wld s3)) lines pend"
      and "copy_ok K s3 cb count (take (unat count) (a @ [nl] @ b @ [nl] @ c))" for cb s3
    using write_loop_short_second [OF assms(1) that(1) _ assms(6,7,8), of cb count c] that(2) assms(5)
    by auto
  have "count \<noteq> 0" using assms(5) by auto
  with aesd_write_via_loop [OF assms(1-4) _ _ loop] assms(5) show ?thesis
    by (force simp: write_outcome_def)
qed

theorem aesd_write_short_second_line_witness:
  "\<exists>r s'. aesd_write bump_kernel (Some dev_file) (''abc'' @ [nl] @ ''d'' @ [nl] @ []) 6 fresh_driver
     = Some (r, s') \<and> r < 0"
  by (rule aesd_write_short_second_line [OF bump_kernel_ok fresh_driver_rep dev_file_private
      fresh_driver_unlocked]) (simp_all add: nl_def)

text \<open>
  A write whose second line is longer than its first stores, for the second line, only its
  first \<open>length b - length a\<close> bytes without the newline, as if they were a complete line, and
  reports fewer bytes than it was given.
\<close>

theorem aesd_write_long_second_line:
  assumes "kernel_ok K" and "dev_rep K (dev s) (kheap (wld s)) lines pend"
    and "private_data f \<noteq> None" and "lock (dev s) = False"
    and "unat count = length (a @ [nl] @ b @ [nl] @ c)"
    and "nl \<notin> set a" and "nl \<notin> set b" and "nl \<notin> set c" and "length a < length b"
  shows "\<exists>r s'. aesd_write K (Some f) (a @ [nl] @ b @ [nl] @ c) count s = Some (r, s') \<and>
    (r < 0 \<or> r = int (length b + 1 + length c) \<and> dev_rep K (dev s') (kheap (wld s'))
       (last_n 10 (lines @ [pend @ a @ [nl], take (length b - length a) b])) c)"
proof -
  let ?lines = "last_n 10 (lines @ [pend @ a @ [nl], take (length b - length a) b])"
  have loop: "\<exists>r s4. aesd_write_loop K cb count 0 0 s3 = Some (r, s4) \<and>
        (r = int (length b + 1 + length c) \<and> step_post K s3 s4 ?lines c \<or>
         r = - ENOMEM \<and> enomem_post K s3 s4 lines pend (take (unat count) (a @ [nl] @ b @ [nl] @ c)))"
    if "dev_rep K (dev s3) (kheap (wld s3)) lines pend"
      and "copy_ok K s3 cb count (take (unat count) (a @ [nl] @ b @ [nl] @ c))" for cb s3
    using write_loop_long_second [OF assms(1) that(1) _ assms(6-9), of cb count] that(2) assms(5)
    by auto
  have "count \<noteq> 0" using assms(5) by auto
  with aesd_write_via_loop [OF assms(1-4) _ _ loop] assms(5) show ?thesis
    by (force simp: write_outcome_def)
qed

theorem aesd_write_long_second_line_witness:
  "\<exists>r s'. aesd_write bump_kernel (Some dev_file) (''a'' @ [nl] @ ''bcd'' @ [nl] @ []) 6 fresh_driver
     = Some (r, s') \<and>
    (r < 0 \<or> r = int (length ''bcd'' + 1 + length ([] :: byte list)) \<and>
       dev_rep bump_kernel (dev s') (kheap (wld s'))
         (last_n 10 ([] @ [[] @ ''a'' @ [nl], take (length ''bcd'' - length ''a'') ''bcd''])) [])"
  by (rule aesd_write_long_second_line [OF bump_kernel_ok fresh_driver_rep dev_file_private
      fresh_driver_unlocked]) (simp_all add: nl_def)

text \<open>
  When \<open>krealloc\<close> fails, \<open>allocate_memory\<close> frees the working buffer but keeps its pointer and
  size: the next time it grows, the freed pointer is handed to \<open>krealloc\<close>, which is undefined
  behaviour (a use after free).
\<close>

theorem allocate_memory_dangling:
  assumes "kernel_ok K" and "wsize wb \<noteq> 0" and "kheap w (buffer wb) = Some bytes"
    and "buffer wb \<noteq> NULL" and "buffer wb \<noteq> ZERO_SIZE_PTR K"
    and "wsize wb + size_of_int sz \<noteq> 0" and "fst (krealloc K (buffer wb) (wsize wb + size_of_int sz) w) = NULL"
  shows "\<exists>w'. allocate_memory K wb sz w = Some (- ENOMEM, wb, w') \<and> kheap w' (buffer wb) = None \<and>
    allocate_memory K wb sz' w' = None"
proof -
  obtain w1 where re: "krealloc K (buffer wb) (wsize wb + size_of_int sz) w = (NULL, w1)"
    using assms(7) by (metis prod.collapse)
  have w1: "kheap w1 = kheap w"
    by (cases rule: kreallocE [OF assms(1,3,6) re]) auto
  then obtain w2 where "kfree_chk K (buffer wb) w1 = Some w2" and "kheap w2 (buffer wb) = None"
    using kfree_chk_live [OF assms(1) _ assms(4,5), of w1 bytes] assms(3) by (metis fun_upd_same)
  then show ?thesis
    using assms re by (simp add: allocate_memory_def krealloc_chk_def)
qed

theorem allocate_memory_dangling_witness:
  "\<exists>w'. allocate_memory bump_kernel \<lparr>buffer = 17, wsize = 2\<rparr> (2 ^ 20) \<lparr>kheap = [17 \<mapsto> ''ab''], kenv = 18\<rparr>
      = Some (- ENOMEM, \<lparr>buffer = 17, wsize = 2\<rparr>, w') \<and> kheap w' 17 = None \<and>
    allocate_memory bump_kernel \<lparr>buffer = 17, wsize = 2\<rparr> 1 w' = None"
  using allocate_memory_dangling [OF bump_kernel_ok, of "\<lparr>buffer = 17, wsize = 2\<rparr>"
      "\<lparr>kheap = [17 \<mapsto> ''ab''], kenv = 18\<rparr>" "''ab''" "2 ^ 20" 1]
  by (simp add: bump_kernel_def bump_krealloc_def size_of_int_def Let_def)

end
