(* ===== verification/CharDriverRead.thy ===== *)
theory CharDriverRead
  imports CharDriverWrite
begin

text \<open>
  Correctness of \<open>aesd_read\<close>, \<open>aesd_llseek\<close>, \<open>aesd_ioctl\<close> and of loading and unloading the module:
  a reader sees the concatenation of the lines the device holds, whatever the layout of the
  circular buffer.
\<close>

section \<open>Sizes of the lines\<close>

lemma dev_rep_sizes: "dev_rep K d h lines pend \<Longrightarrow> cb_sizes (circular_buffer d) = map length lines"
  unfolding dev_rep_def cb_sizes_def
  by (auto simp: list_all2_conv_all_nth entry_rep_def intro!: nth_equalityI)

lemma sum_list_bounded: "\<forall>x\<in>set xs. x \<le> b \<Longrightarrow> sum_list xs \<le> length xs * b" for b :: nat
  by (induction xs) auto

lemma dev_rep_line:
  "dev_rep K d h lines pend \<Longrightarrow> k < length lines \<Longrightarrow>
     entry_rep K h (live d ! k) (lines ! k)"
  using dev_rep_lengths [of K d h lines pend] by (simp add: dev_rep_def list_all2_nthD)

lemma dev_rep_total:
  assumes K: "kernel_ok K" and rep: "dev_rep K d h lines pend"
  shows "length (concat lines) < 2 ^ 31"
proof -
  have "\<forall>x\<in>set (map length lines). x \<le> 2 ^ 25"
    using dev_rep_line [OF rep] kernel_okD(2) [OF K]
    by (fastforce simp: entry_rep_def in_set_conv_nth)
  then have "sum_list (map length lines) \<le> length lines * 2 ^ 25"
    using sum_list_bounded [of "map length lines" "2 ^ 25"] by (simp only: length_map)
  also have "\<dots> \<le> 10 * 2 ^ 25" using dev_rep_le10 [OF rep] by (rule mult_le_mono1)
  also have "\<dots> < 2 ^ 31" by simp
  finally show ?thesis by (simp add: length_concat)
qed

lemma dev_rep_sized:
  assumes K: "kernel_ok K" and rep: "dev_rep K d h lines pend"
  shows "cb_sized (circular_buffer d)"
proof -
  have "lines ! k \<noteq> []" if "k < length lines" for k
    using dev_rep_line [OF rep that] by (simp add: entry_rep_def)
  then have "[] \<notin> set lines" by (metis in_set_conv_nth)
  then show ?thesis
    using dev_rep_total [OF K rep]
    by (auto simp: cb_sized_def dev_rep_sizes [OF rep] length_concat)
qed

section \<open>Reading with the mutex held\<close>

lemma locate_rep:
  assumes K: "kernel_ok K" and rep: "dev_rep K d h lines pend" and pos: "0 \<le> fpos" "fpos < 2 ^ 63"
  shows "find_entry (circular_buffer d) (size_of_int fpos) =
    map_option (\<lambda>(k, r). ((unat (out_offs (circular_buffer d)) + k) mod 10, of_nat r))
      (locate (map length lines) (nat fpos))"
proof -
  have "unat (size_of_int fpos) = nat fpos" using pos by (intro unat_size_of_int) simp_all
  then show ?thesis
    using rep find_entry_locate [OF _ dev_rep_sized [OF K rep]]
    by (simp add: dev_rep_def dev_rep_sizes [OF rep])
qed

lemma aesd_read_locked_eof:
  assumes "kernel_ok K" and "dev_rep K (dev s) (kheap (wld s)) lines pend"
    and "0 \<le> fpos" "fpos < 2 ^ 63" and "length (concat lines) \<le> nat fpos"
  shows "aesd_read_locked K count fpos s = Some (0, 0, [], s)"
proof -
  have "locate (map length lines) (nat fpos) = None"
    using assms(5) by (simp add: locate_None length_concat)
  then show ?thesis
    using locate_rep [OF assms(1-4)]
    by (simp add: aesd_read_locked_def aesd_circular_buffer_find_entry_offset_for_fpos_def)
qed

text \<open>How many bytes a read at \<open>fpos\<close> returns: up to the end of the line, at most \<open>count\<close>.\<close>

definition read_len :: "byte list list \<Rightarrow> u64 \<Rightarrow> int \<Rightarrow> nat" where
  "read_len lines count fpos =
     (case locate (map length lines) (nat fpos) of
        None \<Rightarrow> 0
      | Some (k, r) \<Rightarrow> min (length (lines ! k) - r) (unat count))"

lemma int_of_size_min:
  assumes "n < 2 ^ 31"
  shows "int_of_size (if of_nat n < count then of_nat n else count) = int (min n (unat count))"
proof -
  have n: "unat (of_nat n :: u64) = n" using assms by (simp add: unat_of_nat)
  have i: "int_of_size (of_nat n) = int n"
    using int_of_size_small [of "of_nat n"] assms unfolding n .
  show ?thesis
  proof (cases "n < unat count")
    case True
    then show ?thesis using i by (simp add: word_less_nat_alt n)
  next
    case False
    then have "unat count < 2 ^ 31" using assms by simp
    then show ?thesis using False by (simp add: word_less_nat_alt n int_of_size_small)
  qed
qed

lemma aesd_read_locked_data:
  assumes K: "kernel_ok K" and rep: "dev_rep K (dev s) (kheap (wld s)) lines pend"
    and pos: "0 \<le> fpos" "nat fpos < length (concat lines)"
    and copy: "copy_to_user K (take (read_len lines count fpos) (drop (nat fpos) (concat lines))) (wld s)
      = (e, got, w)"
  shows "aesd_read_locked K count fpos s =
    Some (if e \<noteq> 0 then - EFAULT else int (read_len lines count fpos),
          fpos + int (read_len lines count fpos), got, s\<lparr>wld := w\<rparr>)"
proof -
  let ?b = "circular_buffer (dev s)"
  have tot: "length (concat lines) < 2 ^ 31" by (rule dev_rep_total [OF K rep])
  obtain k r where loc: "locate (map length lines) (nat fpos) = Some (k, r)"
    using pos locate_None [of "map length lines" "nat fpos"]
    by (metis length_concat not_le option.exhaust surj_pair)
  have k: "k < length lines" "r < length (lines ! k)" using locate_bound [OF loc] by auto
  have inv: "cb_inv ?b" using rep by (simp add: dev_rep_def)
  have klive: "k < cb_count ?b" using k dev_rep_lengths [OF rep] inv by simp
  have "nat fpos < 2 ^ 31" using pos(2) tot by (rule less_trans)
  then have "fpos < 2 ^ 31" using pos(1) by (simp add: nat_less_iff)
  then have "fpos < 2 ^ 63" by (rule less_trans) simp
  then have find: "find_entry ?b (size_of_int fpos) = Some ((unat (out_offs ?b) + k) mod 10, of_nat r)"
    using locate_rep [OF K rep pos(1)] loc by simp
  have ent: "entry ?b ! ((unat (out_offs ?b) + k) mod 10) = live (dev s) ! k"
    using cb_live_nth [OF inv klive] by simp
  have er: "kheap (wld s) (buffptr (live (dev s) ! k)) = Some (lines ! k)"
    "length (lines ! k) = unat (entry_size (live (dev s) ! k))"
    using dev_rep_line [OF rep k(1)] by (auto simp: entry_rep_def)
  have "length (lines ! k) \<le> 2 ^ 25"
    using dev_rep_line [OF rep k(1)] kernel_okD(2) [OF K] by (simp add: entry_rep_def)
  then have small: "length (lines ! k) < 2 ^ 31" by simp
  define n where "n = length (lines ! k) - r"
  have n: "n < 2 ^ 31" using small by (simp add: n_def)
  have rlen: "read_len lines count fpos = min n (unat count)"
    using loc by (simp add: read_len_def n_def)
  have r64: "unat (of_nat r :: u64) = r" using small k by (simp add: unat_of_nat)
  have "unat (entry_size (live (dev s) ! k) - of_nat r) = n"
    using k er by (simp add: unat_sub word_le_nat_alt r64 n_def)
  then have eob: "int_of_size (entry_size (live (dev s) ! k) - of_nat r) = int n"
    using n by (simp add: int_of_size_small)
  have copy_n: "int_of_size (if size_of_int (int n) < count then size_of_int (int n) else count)
      = int (min n (unat count))"
    using int_of_size_min [OF n] by (simp only: size_of_int_of_nat)
  have u: "unat (size_of_int (int (min n (unat count)))) = min n (unat count)"
    using n by (intro unat_size_of_nat) simp
  have "drop (nat fpos) (concat lines) = drop r (lines ! k) @ concat (drop (Suc k) lines)"
    using locate_concat [OF loc] by simp
  then have bytes: "take (min n (unat count)) (drop (nat fpos) (concat lines))
      = take (min n (unat count)) (drop r (lines ! k))"
    by (simp add: n_def)
  have mem: "mem_read (buffptr (live (dev s) ! k)) r (min n (unat count)) (wld s)
      = Some (take (min n (unat count)) (drop r (lines ! k)))"
  proof -
    have "r + min n (unat count) \<le> length (lines ! k)" using k by (simp add: n_def)
    then show ?thesis using er(1) by (simp add: mem_read_def)
  qed
  show ?thesis
    using copy unfolding rlen bytes
    by (simp add: aesd_read_locked_def aesd_circular_buffer_find_entry_offset_for_fpos_def find ent
        eob copy_n u r64 mem del: of_nat_min) (simp add: Let_def)
qed

lemma read_len_pos:
  assumes "nat fpos < length (concat lines)" and "0 < count"
  shows "0 < read_len lines count fpos"
proof -
  obtain k r where loc: "locate (map length lines) (nat fpos) = Some (k, r)"
    using assms locate_None [of "map length lines" "nat fpos"]
    by (metis length_concat not_le option.exhaust surj_pair)
  moreover have "k < length lines" "r < length (lines ! k)" using locate_bound [OF loc] by auto
  ultimately show ?thesis using assms(2) by (simp add: read_len_def unat_gt_0)
qed

lemma read_len_bound: "read_len lines count fpos \<le> length (concat lines) - nat fpos"
proof (cases "locate (map length lines) (nat fpos)")
  case (Some kr)
  then obtain k r where loc: "locate (map length lines) (nat fpos) = Some (k, r)" by (cases kr) auto
  have "length (drop r (lines ! k) @ concat (drop (Suc k) lines)) = length (drop (nat fpos) (concat lines))"
    by (simp only: locate_concat [OF loc])
  then show ?thesis by (simp add: read_len_def loc)
qed (simp add: read_len_def)

lemma read_len_count: "read_len lines count fpos \<le> unat count"
  by (auto simp: read_len_def split: option.splits)

section \<open>The whole operation\<close>

text \<open>What every path of a read leaves: the device's buffers, the heap and a free mutex.\<close>

definition read_frame :: "'w kst \<Rightarrow> 'w kst \<Rightarrow> bool" where
  "read_frame s s' \<longleftrightarrow> dev s' = (dev s)\<lparr>lock := False\<rparr> \<and> kheap (wld s') = kheap (wld s)"

lemma lock_interruptible_frame:
  assumes "kernel_ok K" and "lock_interruptible K s = (m, s1)"
  shows "kheap (wld s1) = kheap (wld s)" and "dev s1 = (if m = 0 then (dev s)\<lparr>lock := True\<rparr> else dev s)"
  using assms mutex_lock_heap [OF assms(1)]
  by (auto simp: lock_interruptible_def split: prod.splits)

lemma aesd_read_exact:
  assumes K: "kernel_ok K" and rep: "dev_rep K (dev s) (kheap (wld s)) lines pend"
    and dev_file: "private_data f \<noteq> None" and unlocked: "lock (dev s) = False"
    and pos: "0 \<le> fpos" "fpos < 2 ^ 63"
  shows "\<exists>r fpos' got s'. aesd_read K (Some f) count fpos s = Some (r, fpos', got, s') \<and> read_frame s s' \<and>
    (r = - EINTR \<and> fpos' = fpos \<and> got = [] \<and> fst (mutex_lock_interruptible K (wld s)) \<noteq> 0 \<or>
     fst (mutex_lock_interruptible K (wld s)) = 0 \<and>
     (if length (concat lines) \<le> nat fpos then r = 0 \<and> fpos' = 0 \<and> got = []
      else fpos' = fpos + int (read_len lines count fpos) \<and>
        (r = - EFAULT \<and> (\<exists>k < read_len lines count fpos. got = take k (drop (nat fpos) (concat lines))) \<or>
         r = int (read_len lines count fpos) \<and>
           got = take (read_len lines count fpos) (drop (nat fpos) (concat lines)))))"
proof -
  obtain m s1 where lck: "lock_interruptible K s = (m, s1)" by fastforce
  note frame = lock_interruptible_frame [OF K lck]
  have unlock: "(dev s)\<lparr>lock := False\<rparr> = dev s" using unlocked by (cases "dev s") simp
  have m: "fst (mutex_lock_interruptible K (wld s)) = m"
    using lck by (simp add: lock_interruptible_def split: prod.splits)
  have rep1: "dev_rep K (dev s1) (kheap (wld s1)) lines pend" using rep frame by simp
  show ?thesis
  proof (cases "m = 0")
    case False
    then show ?thesis
      using lck dev_file frame unlock m by (auto simp: aesd_read_def read_frame_def)
  next
    case True
    show ?thesis
    proof (cases "length (concat lines) \<le> nat fpos")
      case eof: True
      then show ?thesis
        using aesd_read_locked_eof [OF K rep1 pos eof] True lck dev_file frame m
        by (auto simp: aesd_read_def read_frame_def)
    next
      case False
      obtain e got w where copy: "copy_to_user K (take (read_len lines count fpos)
          (drop (nat fpos) (concat lines))) (wld s1) = (e, got, w)"
        by (metis prod_cases3)
      have "kheap w = kheap (wld s1)"
        and "e = 0 \<Longrightarrow> got = take (read_len lines count fpos) (drop (nat fpos) (concat lines))"
        and part: "e \<noteq> 0 \<Longrightarrow> \<exists>k < length (take (read_len lines count fpos) (drop (nat fpos) (concat lines))).
          got = take k (take (read_len lines count fpos) (drop (nat fpos) (concat lines)))"
        using copy_to_userE [OF K copy] by metis+
      moreover have "\<exists>k < read_len lines count fpos. got = take k (drop (nat fpos) (concat lines))" if "e \<noteq> 0"
      proof -
        let ?n = "read_len lines count fpos" and ?rest = "drop (nat fpos) (concat lines)"
        from part [OF that] obtain k where "k < length (take ?n ?rest)" "got = take k (take ?n ?rest)" by blast
        moreover from this(1) have "k < ?n" by simp
        ultimately show ?thesis by (intro exI [of _ k]) (simp add: min.absorb1)
      qed
      ultimately show ?thesis
        using aesd_read_locked_data [OF K rep1 pos(1) _ copy] False True lck dev_file frame m
        by (auto simp: aesd_read_def read_frame_def)
    qed
  qed
qed

lemma aesd_read_run:
  assumes "kernel_ok K" and "dev_rep K (dev s) (kheap (wld s)) lines pend"
    and "private_data f \<noteq> None" and "lock (dev s) = False" and "0 \<le> fpos" "fpos < 2 ^ 63"
  shows "\<exists>r fpos' got s'. aesd_read K (Some f) count fpos s = Some (r, fpos', got, s') \<and> read_frame s s' \<and>
    (r = - EINTR \<and> fpos' = fpos \<and> got = [] \<and> fst (mutex_lock_interruptible K (wld s)) \<noteq> 0 \<or>
     fst (mutex_lock_interruptible K (wld s)) = 0 \<and>
     (if length (concat lines) \<le> nat fpos then r = 0 \<and> fpos' = 0 \<and> got = []
      else fpos' = fpos + int (read_len lines count fpos) \<and>
        (r = - EFAULT \<or>
         r = int (read_len lines count fpos) \<and>
           got = take (read_len lines count fpos) (drop (nat fpos) (concat lines)))))"
  using aesd_read_exact [OF assms, of count]
  by (elim exE) (intro exI, auto split: if_splits)

lemma read_frame_rep:
  "read_frame s s' \<Longrightarrow> dev_rep K (dev s) (kheap (wld s)) lines pend \<Longrightarrow>
     dev_rep K (dev s') (kheap (wld s')) lines pend \<and> lock (dev s') = False"
  by (simp add: read_frame_def)

section \<open>The driver as a stream\<close>

text \<open>
  \<open>read(2)\<close> on the device: the kernel keeps the position and the C library turns a negative result
  into -1 and \<open>errno\<close>.
\<close>

definition libc_result :: "int \<Rightarrow> int \<times> int" where
  "libc_result r = (if r < 0 then (-1, - r) else (r, 0))"

definition driver_read ::
  "'w kernel \<Rightarrow> file_t \<Rightarrow> nat \<Rightarrow> int \<times> 'w kst \<Rightarrow> (int \<times> int \<times> byte list \<times> int \<times> 'w kst) option" where
  "driver_read K f n = (\<lambda>(fpos, s).
     Option.bind (aesd_read K (Some f) (of_nat n) fpos s) (\<lambda>(r, fpos', got, s').
       let (ret, errno) = libc_result r in Some (ret, errno, got, fpos', s')))"

definition driver_stream ::
  "'w kernel \<Rightarrow> file_t \<Rightarrow> byte list list \<Rightarrow> byte list \<Rightarrow> int \<times> 'w kst \<Rightarrow> byte list \<Rightarrow> bool" where
  "driver_stream K f lines pend = (\<lambda>(fpos, s) rest.
     kernel_ok K \<and> uninterrupted K \<and> private_data f \<noteq> None \<and> lock (dev s) = False \<and>
     dev_rep K (dev s) (kheap (wld s)) lines pend \<and>
     0 \<le> fpos \<and> fpos < 2 ^ 63 \<and> rest = drop (nat fpos) (concat lines))"

lemma driver_read_data:
  assumes "driver_stream K f lines pend (fpos, s) rest" and n: "0 < n" "n < 2 ^ 31" and ne: "rest \<noteq> []"
  shows "\<exists>r e bs fpos' s'. driver_read K f n (fpos, s) = Some (r, e, bs, fpos', s') \<and>
    (r = -1 \<and> e = EFAULT \<or>
     0 < r \<and> r \<le> int n \<and> nat r \<le> length rest \<and> bs = take (nat r) rest \<and>
       driver_stream K f lines pend (fpos', s') (drop (nat r) rest))"
proof -
  have K: "kernel_ok K" and un: "fst (mutex_lock_interruptible K (wld s)) = 0"
    and dev_file: "private_data f \<noteq> None" and lck: "lock (dev s) = False"
    and rep: "dev_rep K (dev s) (kheap (wld s)) lines pend" and pos: "0 \<le> fpos" "fpos < 2 ^ 63"
    and rest: "rest = drop (nat fpos) (concat lines)"
    using assms(1) by (auto simp: driver_stream_def uninterrupted_def)
  have inside: "nat fpos < length (concat lines)" using rest ne by simp
  have un64: "unat (of_nat n :: u64) = n" using n by (simp add: unat_of_nat)
  then have "(of_nat n :: u64) \<noteq> 0" using n(1) by (metis unsigned_0 not_less_zero)
  then have "0 < (of_nat n :: u64)" by (simp add: word_neq_0_conv)
  then have len: "0 < read_len lines (of_nat n) fpos" by (rule read_len_pos [OF inside])
  let ?n = "read_len lines (of_nat n) fpos"
  have bounds: "?n \<le> length (concat lines) - nat fpos" "?n \<le> n"
    using read_len_bound [of lines "of_nat n" fpos] read_len_count [of lines "of_nat n" fpos] un64 by simp_all
  have "length (concat lines) < 2 ^ 63"
    using dev_rep_total [OF K rep] by (rule less_trans) simp
  moreover have "nat fpos + ?n \<le> length (concat lines)" using inside bounds by linarith
  ultimately have "nat fpos + ?n < 2 ^ 63" by (rule le_less_trans [rotated])
  then have top: "fpos + int ?n < 2 ^ 63"
    using pos(1) by (simp add: nat_less_iff nat_add_distrib flip: zless_nat_eq_int_zless)
  have split: "drop (nat (fpos + int ?n)) (concat lines) = drop ?n rest"
    using pos(1) rest by (simp add: nat_add_distrib add.commute)
  obtain r fpos' got s' where run: "aesd_read K (Some f) (of_nat n) fpos s = Some (r, fpos', got, s')"
    and frame: "read_frame s s'" and fpos': "fpos' = fpos + int ?n"
    and r: "r = - EFAULT \<or> r = int ?n \<and> got = take ?n rest"
    using aesd_read_run [OF K rep dev_file lck pos, of "of_nat n"] un inside rest by auto
  have "driver_stream K f lines pend (fpos', s') (drop ?n rest)"
    using assms(1) read_frame_rep [OF frame rep] fpos' top split pos by (simp add: driver_stream_def)
  then show ?thesis
    using run r len bounds rest by (auto simp: driver_read_def libc_result_def)
qed

interpretation driver_source: byte_source "driver_stream K f lines pend" "\<lambda>_. 0" "\<lambda>_. True" "driver_read K f"
  for K f lines pend
proof
  fix s rest and n :: nat
  assume src: "driver_stream K f lines pend s rest" and n: "0 < n" "n < 2 ^ 31"
  obtain fpos k where s: "s = (fpos, k)" by fastforce
  show "\<exists>r e bs s'. driver_read K f n s = Some (r, e, bs, s') \<and>
    (r = -1 \<and> (if e = EINTR then driver_stream K f lines pend s' rest \<and> (0::nat) < 0 else True) \<or> r = 0 \<and> rest = [] \<or>
     0 < r \<and> r \<le> int n \<and> nat r \<le> length rest \<and> bs = take (nat r) rest \<and>
     driver_stream K f lines pend s' (drop (nat r) rest) \<and> (0::nat) \<le> 0)"
  proof (cases "rest = []")
    case True
    then obtain fpos' got s' where "aesd_read K (Some f) (of_nat n) fpos k = Some (0, fpos', got, s')"
      using src s aesd_read_run [of K k lines pend f fpos "of_nat n"]
      by (auto simp: driver_stream_def uninterrupted_def)
    then have "driver_read K f n s = Some (0, 0, got, fpos', s')"
      using s by (simp add: driver_read_def libc_result_def)
    then show ?thesis using True by blast
  next
    case False
    with driver_read_data [OF src [unfolded s] n] s show ?thesis by fastforce
  qed
qed

section \<open>Unloading: freeing every entry\<close>

lemma free_all_kfree:
  assumes K: "kernel_ok K" and "distinct ps" and "\<forall>p\<in>set ps. kheap w p \<noteq> None \<and> p \<noteq> NULL \<and> p \<noteq> ZERO_SIZE_PTR K"
  shows "\<exists>w'. free_all (kfree_chk K) ps w = Some w' \<and> kheap w' = kheap w |` (- set ps)"
  using assms(2,3)
proof (induction ps arbitrary: w)
  case Nil
  then show ?case by (simp add: restrict_map_def)
next
  case (Cons p ps)
  then obtain blk where "kheap w p = Some blk" by auto
  then obtain w1 where w1: "kfree_chk K p w = Some w1" "kheap w1 = (kheap w)(p := None)"
    using kfree_chk_live [OF K, of w p blk] Cons.prems(2) by (metis list.set_intros(1))
  with Cons.prems have "\<forall>q\<in>set ps. kheap w1 q \<noteq> None \<and> q \<noteq> NULL \<and> q \<noteq> ZERO_SIZE_PTR K" by auto
  with Cons.IH [of w1] Cons.prems(1) obtain w2
    where "free_all (kfree_chk K) ps w1 = Some w2" and "kheap w2 = kheap w1 |` (- set ps)" by auto
  then show ?case using w1 by (auto simp: restrict_map_def fun_eq_iff)
qed

lemma dev_rep_destroy:
  assumes K: "kernel_ok K" and rep: "dev_rep K d (kheap w) lines pend"
  shows "\<exists>w'. destroy_circular_buffer (kfree_chk K) (Some (circular_buffer d)) w = Some w' \<and>
    kheap w' = kheap w |` (- buffptr ` set (live d))"
proof -
  have alive: "\<forall>p\<in>set (map buffptr (live d)). kheap w p \<noteq> None \<and> p \<noteq> NULL \<and> p \<noteq> ZERO_SIZE_PTR K"
  proof
    fix p
    assume "p \<in> set (map buffptr (live d))"
    then have "kheap w p \<noteq> None" using live_ptrs_live [OF rep] by simp
    moreover from this have "p \<noteq> NULL" and "p \<noteq> ZERO_SIZE_PTR K"
      using rep unfolding dev_rep_def by metis+
    ultimately show "kheap w p \<noteq> None \<and> p \<noteq> NULL \<and> p \<noteq> ZERO_SIZE_PTR K" by blast
  qed
  have "distinct (map buffptr (live d))" and inv: "cb_inv (circular_buffer d)"
    using rep by (simp_all add: dev_rep_def)
  moreover have "NULL \<notin> buffptr ` set (live d)" using alive by force
  ultimately show ?thesis
    using free_all_kfree [OF K _ alive] destroy_live [of "circular_buffer d" "kfree_chk K" w] by auto
qed

section \<open>Properties\<close>

text \<open>A driver that holds the line \<open>ab\<close>, with \<open>c\<close> still incomplete, for the witnesses.\<close>

definition loaded_driver :: "nat kst" where
  "loaded_driver =
     \<lparr>dev = zero_device\<lparr>
        circular_buffer := snd (add_entry zero_buffer \<lparr>buffptr = 17, entry_size = 3\<rparr>),
        working_buffer := \<lparr>buffer = 18, wsize = 1\<rparr>\<rparr>,
      wld = \<lparr>kheap = [17 \<mapsto> ''ab'' @ [nl], 18 \<mapsto> ''c''], kenv = 19\<rparr>\<rparr>"

lemma loaded_driver_live: "live (dev loaded_driver) = [\<lparr>buffptr = 17, entry_size = 3\<rparr>]"
  using cb.add_last_n [OF cb_inv_init, of undefined "\<lparr>buffptr = 17, entry_size = 3\<rparr>"]
  by (simp add: loaded_driver_def aesd_circular_buffer_init_def)
    (simp add: cb_live_init [unfolded aesd_circular_buffer_init_def])

lemma loaded_driver_rep:
  "dev_rep bump_kernel (dev loaded_driver) (kheap (wld loaded_driver)) [''ab'' @ [nl]] ''c''"
proof -
  have "cb_inv (circular_buffer (dev loaded_driver))"
    using cb.add_invar [OF cb_inv_init, of undefined "\<lparr>buffptr = 17, entry_size = 3\<rparr>"]
    by (simp add: loaded_driver_def aesd_circular_buffer_init_def)
  then show ?thesis
    by (simp add: dev_rep_def loaded_driver_live work_rep_def entry_rep_def)
      (simp add: loaded_driver_def bump_kernel_def)
qed

lemma loaded_driver_unlocked: "lock (dev loaded_driver) = False"
  by (simp add: loaded_driver_def zero_device_def)

text \<open>
  C18: a read at any position of the device always returns, releases the mutex and changes neither the
  device's data nor the heap.  Interrupted while it waits for the mutex it returns \<open>-EINTR\<close>, with the
  position unchanged and nothing delivered.  Otherwise, at the end of the data it returns 0 and moves
  the position back to the start; before it, the position advances by \<open>n\<close>, the rest of the line at the
  position or \<open>count\<close> if that is less, at least one byte, and either it returns \<open>n\<close>, having delivered the
  next \<open>n\<close> bytes of the concatenated lines (the incomplete line is not readable), or the user's buffer
  faults and it returns \<open>-EFAULT\<close>, having delivered only fewer of these bytes although the position has
  advanced over all of them.
\<close>

theorem aesd_read_stream:
  assumes "kernel_ok K" and "dev_rep K (dev s) (kheap (wld s)) lines pend"
    and "private_data f \<noteq> None" and "lock (dev s) = False" and "0 \<le> fpos" and "fpos < 2 ^ 63"
    and "0 < count"
  defines "n \<equiv> read_len lines count fpos" and "rest \<equiv> drop (nat fpos) (concat lines)"
  shows "\<exists>r fpos' got s'. aesd_read K (Some f) count fpos s = Some (r, fpos', got, s') \<and>
    lock (dev s') = False \<and> dev_rep K (dev s') (kheap (wld s')) lines pend \<and>
    kheap (wld s') = kheap (wld s) \<and>
    (if fst (mutex_lock_interruptible K (wld s)) \<noteq> 0 then r = - EINTR \<and> fpos' = fpos \<and> got = []
     else if rest = [] then r = 0 \<and> fpos' = 0 \<and> got = []
     else 0 < n \<and> n \<le> unat count \<and> n \<le> length rest \<and> fpos' = fpos + int n \<and>
       (r = int n \<and> got = take n rest \<or> r = - EFAULT \<and> (\<exists>k < n. got = take k rest)))"
proof -
  obtain r fpos' got s' where run: "aesd_read K (Some f) count fpos s = Some (r, fpos', got, s')"
    and frame: "read_frame s s'"
    and r: "r = - EINTR \<and> fpos' = fpos \<and> got = [] \<and> fst (mutex_lock_interruptible K (wld s)) \<noteq> 0 \<or>
     fst (mutex_lock_interruptible K (wld s)) = 0 \<and>
     (if length (concat lines) \<le> nat fpos then r = 0 \<and> fpos' = 0 \<and> got = []
      else fpos' = fpos + int n \<and>
        (r = - EFAULT \<and> (\<exists>k < n. got = take k rest) \<or> r = int n \<and> got = take n rest))"
    unfolding n_def rest_def using aesd_read_exact [OF assms(1-6), of count] by blast
  have "n \<le> length rest" and "n \<le> unat count"
    unfolding n_def rest_def using read_len_bound read_len_count by simp_all
  moreover have "0 < n" if "rest \<noteq> []"
    unfolding n_def using read_len_pos [OF _ assms(7), of fpos lines] that by (simp add: rest_def)
  moreover have "rest = [] \<longleftrightarrow> length (concat lines) \<le> nat fpos" by (simp add: rest_def)
  ultimately show ?thesis
    using run r read_frame_rep [OF frame assms(2)] frame
    by (auto simp: read_frame_def split: if_splits)
qed

theorem aesd_read_stream_witness:
  "\<exists>r fpos' got s'. aesd_read bump_kernel (Some dev_file) 5 1 loaded_driver = Some (r, fpos', got, s') \<and>
     lock (dev s') = False \<and> kheap (wld s') = kheap (wld loaded_driver) \<and> r = 2 \<and> got = ''b'' @ [nl]"
proof -
  have "map_option fst (aesd_read bump_kernel (Some dev_file) 5 1 loaded_driver) = Some 2"
    by code_simp
  moreover have "read_len [''ab'' @ [nl]] 5 1 = 2" by code_simp
  moreover have "fst (mutex_lock_interruptible bump_kernel (wld loaded_driver)) = 0" by (simp add: bump_kernel_def)
  moreover have "(0 :: u64) < 5" by simp
  ultimately show ?thesis
    using aesd_read_stream [OF bump_kernel_ok loaded_driver_rep dev_file_private
      loaded_driver_unlocked _ _ \<open>0 < 5\<close>, of 1]
    by auto
qed

text \<open>
  When copying to the user fails, \<open>*f_pos\<close> has been advanced all the same: a caller that keeps this
  position skips the bytes it never received.
\<close>

theorem aesd_read_fault_skips:
  assumes "kernel_ok K" and "dev_rep K (dev s) (kheap (wld s)) lines pend"
    and "private_data f \<noteq> None" and "lock (dev s) = False" and "0 \<le> fpos" and "fpos < 2 ^ 63"
    and "0 < count" and "aesd_read K (Some f) count fpos s = Some (- EFAULT, fpos', got, s')"
  shows "fpos < fpos' \<and> nat fpos < length (concat lines) \<and> fpos' \<le> int (length (concat lines))"
proof -
  have fpos': "fpos' = fpos + int (read_len lines count fpos)"
    and inside: "\<not> length (concat lines) \<le> nat fpos"
    using aesd_read_run [OF assms(1-6), of count] assms(8) by (auto split: if_splits)
  then show ?thesis
    using read_len_pos [OF _ assms(7), of fpos lines] read_len_bound [of lines count fpos] assms(5)
    by linarith
qed

text \<open>A kernel whose user copies fault, for the witness.\<close>

definition faulting_kernel :: "nat kernel" where
  "faulting_kernel = bump_kernel\<lparr>copy_to_user := (\<lambda>bs w. (if bs = [] then 0 else 1, [], w))\<rparr>"

lemma copy_to_user_update:
  "kmalloc_ok (K\<lparr>copy_to_user := g\<rparr>) = kmalloc_ok K"
  "krealloc_ok (K\<lparr>copy_to_user := g\<rparr>) = krealloc_ok K"
  "kfree_ok (K\<lparr>copy_to_user := g\<rparr>) = kfree_ok K"
  "copy_from_user_ok (K\<lparr>copy_to_user := g\<rparr>) = copy_from_user_ok K"
  "mutex_ok (K\<lparr>copy_to_user := g\<rparr>) = mutex_ok K"
  "llseek_ok (K\<lparr>copy_to_user := g\<rparr>) = llseek_ok K"
  "ioc_ok (K\<lparr>copy_to_user := g\<rparr>) = ioc_ok K"
  "cdev_ok (K\<lparr>copy_to_user := g\<rparr>) = cdev_ok K"
  unfolding kmalloc_ok_def krealloc_ok_def kfree_ok_def copy_from_user_ok_def mutex_ok_def
    llseek_ok_def ioc_ok_def cdev_ok_def by simp_all

lemma faulting_kernel_ok: "kernel_ok faulting_kernel"
  using bump_kernel_ok unfolding faulting_kernel_def kernel_ok_def copy_to_user_update
  by (simp add: copy_to_user_ok_def)

lemma dev_rep_kernel:
  "ZERO_SIZE_PTR K' = ZERO_SIZE_PTR K \<Longrightarrow> kmalloc_max K' = kmalloc_max K \<Longrightarrow> dev_rep K' = dev_rep K"
  unfolding dev_rep_def work_rep_def entry_rep_def [abs_def] fun_eq_iff by simp

lemma loaded_driver_faulting:
  "dev_rep faulting_kernel (dev loaded_driver) (kheap (wld loaded_driver)) [''ab'' @ [nl]] ''c''"
  using loaded_driver_rep dev_rep_kernel [of faulting_kernel bump_kernel]
  by (simp add: faulting_kernel_def)

theorem aesd_read_fault_skips_witness:
  "\<exists>s'. aesd_read faulting_kernel (Some dev_file) 5 0 loaded_driver = Some (- EFAULT, 3, [], s') \<and>
     0 < (3 :: int)"
proof -
  have "map_option (\<lambda>(r, p, got, s'). (r, p, got)) (aesd_read faulting_kernel (Some dev_file) 5 0 loaded_driver)
      = Some (- EFAULT, 3, [])"
    by code_simp
  then obtain s' where "aesd_read faulting_kernel (Some dev_file) 5 0 loaded_driver
      = Some (- EFAULT, 3, [], s')" by auto
  with aesd_read_fault_skips [OF faulting_kernel_ok loaded_driver_faulting dev_file_private
      loaded_driver_unlocked _ _ _ this]
  show ?thesis by auto
qed

lemma buff_size_total:
  assumes K: "kernel_ok K" and rep: "dev_rep K d h lines pend"
  shows "unat (buff_size (circular_buffer d)) = length (concat lines)"
proof -
  have nats: "unat (sum_list xs) = sum_list (map unat xs)" if "sum_list (map unat xs) < 2 ^ 64" for xs :: "u64 list"
    using that by (induction xs) (simp_all add: unat_add_small)
  have sizes: "map unat (map entry_size (live d)) = map length lines"
    using dev_rep_sizes [OF rep] by (simp add: cb_sizes_def comp_def)
  have "sum_list (map length lines) < 2 ^ 64"
    using dev_rep_total [OF K rep] by (simp add: length_concat)
  then show ?thesis
    using rep nats [of "map entry_size (live d)"] unfolding sizes
    by (simp add: dev_rep_def cb_inv_def length_concat)
qed

lemma file_stays: "\<exists>pos. f = f\<lparr>f_pos := pos\<rparr> \<and> (pos = f_pos f \<or> P pos)"
  by (rule exI [of _ "f_pos f"]) simp

text \<open>From any position, a seek moves to a position within the data or does not move at all.\<close>

lemma aesd_llseek_run:
  assumes K: "kernel_ok K" and rep: "dev_rep K (dev s) (kheap (wld s)) lines pend"
    and dev_file: "private_data f \<noteq> None" and unlocked: "lock (dev s) = False"
  shows "\<exists>r pos s'. aesd_llseek K f off whence s = (r, f\<lparr>f_pos := pos\<rparr>, s') \<and>
    dev s' = dev s \<and> kheap (wld s') = kheap (wld s) \<and>
    (pos = f_pos f \<and> (r = f_pos f \<or> r \<in> {- EINVAL, - EINTR}) \<or>
     r = pos \<and> 0 \<le> pos \<and> pos \<le> int (length (concat lines)))"
proof -
  obtain m s1 where lck: "lock_interruptible K s = (m, s1)" by fastforce
  note frame = lock_interruptible_frame [OF K lck]
  have unlock: "(dev s)\<lparr>lock := False\<rparr> = dev s" using unlocked by (cases "dev s") simp
  have size: "int (unat (buff_size (circular_buffer (dev s)))) = int (length (concat lines))"
    using buff_size_total [OF K rep] by simp
  obtain ret pos where sk: "fixed_size_llseek K (f_pos f) off whence (buff_size (circular_buffer (dev s)))
      = (ret, pos)" by fastforce
  have "llseek_ok K" using K by (simp add: kernel_ok_def)
  then have "fixed_size_llseek K (f_pos f) off whence (buff_size (circular_buffer (dev s))) =
      (let target = (if whence = 0 then off else if whence = 1 then f_pos f + off
                     else int (length (concat lines)) + off)
       in if whence = 1 \<and> off = 0 then (f_pos f, f_pos f)
          else if whence \<in> {0, 1, 2} \<and> 0 \<le> target \<and> target \<le> int (length (concat lines))
          then (target, target) else (- EINVAL, f_pos f))"
    unfolding llseek_ok_def size [symmetric] by blast
  then have "pos = f_pos f \<and> (ret = f_pos f \<or> ret = - EINVAL) \<or>
      ret = pos \<and> 0 \<le> pos \<and> pos \<le> int (length (concat lines))"
    unfolding sk by (auto simp: Let_def split: if_splits)
  then show ?thesis
    using dev_file lck frame unlock sk file_stays [of f]
    by (cases "m = 0") (auto simp: aesd_llseek_def)
qed

text \<open>
  C20: seeking keeps the position inside the data: from a position within the concatenated lines,
  every \<open>llseek\<close> ends within them and returns the new position; or it is refused with \<open>-EINVAL\<close> or
  interrupted with \<open>-EINTR\<close>, both without moving; the mutex is released and the data unchanged.
\<close>

theorem aesd_llseek_in_bounds:
  assumes "kernel_ok K" and "dev_rep K (dev s) (kheap (wld s)) lines pend"
    and "private_data f \<noteq> None" and "lock (dev s) = False"
    and "0 \<le> f_pos f" and "f_pos f \<le> int (length (concat lines))"
  shows "case aesd_llseek K f off whence s of (r, f', s') \<Rightarrow>
    0 \<le> f_pos f' \<and> f_pos f' \<le> int (length (concat lines)) \<and>
    (r = f_pos f' \<or> r \<in> {- EINVAL, - EINTR} \<and> f_pos f' = f_pos f) \<and>
    private_data f' = private_data f \<and> lock (dev s') = False \<and>
    dev_rep K (dev s') (kheap (wld s')) lines pend"
  using aesd_llseek_run [OF assms(1-4), of off whence] assms(2,4-6) by auto

theorem aesd_llseek_in_bounds_witness:
  "case aesd_llseek bump_kernel dev_file 2 0 loaded_driver of (r, f', s') \<Rightarrow>
     f_pos f' = 2 \<and> r = 2 \<and> lock (dev s') = False"
proof -
  have "case aesd_llseek bump_kernel dev_file 2 0 loaded_driver of (r, f', s') \<Rightarrow> f_pos f' = 2 \<and> r = 2"
    by code_simp
  with aesd_llseek_in_bounds [OF bump_kernel_ok loaded_driver_rep dev_file_private
      loaded_driver_unlocked, of 2 0]
  show ?thesis by (auto simp: dev_file_def)
qed

section \<open>The seek request\<close>

text \<open>How user space lays out the argument of the request.\<close>

fun le_bytes :: "nat \<Rightarrow> nat \<Rightarrow> byte list" where
  "le_bytes 0 x = []"
| "le_bytes (Suc n) x = char_of (x mod 256) # le_bytes n (x div 256)"

lemma length_le_bytes [simp]: "length (le_bytes n x) = n"
  by (induction n arbitrary: x) auto

lemma le_nat_bytes: "x < 256 ^ n \<Longrightarrow> le_nat (le_bytes n x) = x"
proof (induction n arbitrary: x)
  case (Suc n)
  have "x div 256 < 256 ^ n" using Suc.prems by (simp add: less_mult_imp_div_less)
  then show ?case using Suc.IH [of "x div 256"] by (simp add: mult.commute)
qed simp

definition seekto_bytes :: "u32 \<Rightarrow> u32 \<Rightarrow> byte list" where
  "seekto_bytes c off = le_bytes 4 (unat c) @ le_bytes 4 (unat off)"

lemma seekto_roundtrip:
  "write_cmd (seekto_of_bytes (seekto_bytes c off)) = c"
  "write_cmd_offset (seekto_of_bytes (seekto_bytes c off)) = off"
proof -
  have "unat x < 256 ^ 4" for x :: u32 using unsigned_less [of x] by simp
  then show "write_cmd (seekto_of_bytes (seekto_bytes c off)) = c"
    "write_cmd_offset (seekto_of_bytes (seekto_bytes c off)) = off"
    by (simp_all add: seekto_of_bytes_def seekto_bytes_def le_nat_bytes)
qed

text \<open>What the request does once its argument has been copied.\<close>

lemma aesd_ioctl_seek:
  assumes "kernel_ok K"
    and "copy_from_user K (seekto_bytes c off) 8 (wld s) = (0, bytes, w)"
  shows "aesd_ioctl K f (AESDCHAR_IOCSEEKTO K) (seekto_bytes c off) s =
    aesd_adjust_file_offset K f c off (s\<lparr>wld := w\<rparr>)"
proof -
  have "ioc_ok K" using assms(1) by (simp add: kernel_ok_def)
  then have "IOC_TYPE K (AESDCHAR_IOCSEEKTO K) = AESD_IOC_MAGIC" "IOC_NR K (AESDCHAR_IOCSEEKTO K) = 1"
    by (auto simp: ioc_ok_def AESDCHAR_IOCSEEKTO_def)
  moreover have "bytes = seekto_bytes c off"
    using copy_from_userE [OF assms] by (auto simp: seekto_bytes_def)
  ultimately show ?thesis
    using assms(2) by (simp add: aesd_ioctl_def seekto_roundtrip)
qed

lemma ret_offset_range: "ret_offset b c off = -1 \<or> 0 \<le> ret_offset b c off \<and> ret_offset b c off < 2 ^ 32"
proof -
  have "uint x < 2 ^ 32" for x :: u32 using unsigned_less [of x] by simp
  then show ?thesis by (simp add: ret_offset_def split: option.splits)
qed

text \<open>Whatever the command and its argument, the request keeps the device and ends at a valid position.\<close>

lemma aesd_ioctl_run:
  assumes K: "kernel_ok K" and unlocked: "lock (dev s) = False"
  shows "\<exists>r pos s'. aesd_ioctl K f cmd arg s = (r, f\<lparr>f_pos := pos\<rparr>, s') \<and>
    dev s' = dev s \<and> kheap (wld s') = kheap (wld s) \<and>
    (pos = f_pos f \<or> r = 0 \<and> 0 \<le> pos \<and> pos < 2 ^ 32)"
proof -
  obtain e bytes w where copy: "copy_from_user K arg 8 (wld s) = (e, bytes, w)" by (metis prod_cases3)
  have h: "kheap w = kheap (wld s)" using copy_from_userE [OF K copy] by metis
  obtain m s1 where lck: "lock_interruptible K (s\<lparr>wld := w\<rparr>) = (m, s1)" by fastforce
  note frame = lock_interruptible_frame [OF K lck]
  have unlock: "(dev s)\<lparr>lock := False\<rparr> = dev s" using unlocked by (cases "dev s") simp
  have "\<exists>r pos s'. aesd_adjust_file_offset K f c off (s\<lparr>wld := w\<rparr>) = (r, f\<lparr>f_pos := pos\<rparr>, s') \<and>
      dev s' = dev s \<and> kheap (wld s') = kheap (wld s) \<and>
      (pos = f_pos f \<or> r = 0 \<and> 0 \<le> pos \<and> pos < 2 ^ 32)" for c off
    using lck frame unlock h file_stays [of f] ret_offset_range [of "circular_buffer (dev s)" c off]
    by (cases "m = 0") (auto simp: aesd_adjust_file_offset_def Let_def)
  then show ?thesis
    using copy h file_stays [of f] by (auto simp: aesd_ioctl_def Let_def)
qed

text \<open>
  C19: before any command has been overwritten, for a stored command \<open>c\<close> and an argument that can be
  copied, the seek request positions the file at byte \<open>off\<close> of \<open>c\<close>, so that the next reads return that
  command from there on and then the later ones; an offset past the command is refused with \<open>-EINVAL\<close>;
  or the request is interrupted with \<open>-ERESTARTSYS\<close>; a refused or interrupted request does not move.
\<close>

theorem aesd_ioctl_seeks:
  assumes "kernel_ok K" and "dev_rep K (dev s) (kheap (wld s)) lines pend"
    and "private_data f \<noteq> None" and "lock (dev s) = False"
    and "out_offs (circular_buffer (dev s)) = 0" and "unat c < length lines"
    and "fst (copy_from_user K (seekto_bytes c off) 8 (wld s)) = 0"
  shows "case aesd_ioctl K f (AESDCHAR_IOCSEEKTO K) (seekto_bytes c off) s of (r, f', s') \<Rightarrow>
    lock (dev s') = False \<and> dev_rep K (dev s') (kheap (wld s')) lines pend \<and>
    (r = 0 \<and> unat off < length (lines ! unat c) \<and>
       drop (nat (f_pos f')) (concat lines)
         = drop (unat off) (lines ! unat c) @ concat (drop (Suc (unat c)) lines) \<or>
     r = - EINVAL \<and> length (lines ! unat c) \<le> unat off \<and> f' = f \<or>
     r = - ERESTARTSYS \<and> f' = f)"
proof -
  obtain bytes w where copy: "copy_from_user K (seekto_bytes c off) 8 (wld s) = (0, bytes, w)"
    using assms(7) by (metis prod.collapse)
  let ?s = "s\<lparr>wld := w\<rparr>" and ?b = "circular_buffer (dev s)"
  have w: "kheap w = kheap (wld s)" using copy_from_userE [OF assms(1) copy] by metis
  obtain m s1 where lck: "lock_interruptible K ?s = (m, s1)" by fastforce
  note frame = lock_interruptible_frame [OF assms(1) lck]
  have unlock: "(dev s)\<lparr>lock := False\<rparr> = dev s" using assms(4) by (cases "dev s") simp
  have sizes: "cb_sizes ?b = map length lines" by (rule dev_rep_sizes [OF assms(2)])
  have ret: "ret_offset ?b c off = (if unat off < length (lines ! unat c)
      then int (sum_list (take (unat c) (map length lines)) + unat off) else -1)"
    using ret_offset_live [of ?b c off] dev_rep_sized [OF assms(1,2)] assms(2,5,6)
      dev_rep_lengths [OF assms(2)] sizes
    by (simp add: dev_rep_def)
  have "drop (sum_list (take (unat c) (map length lines)) + unat off) (concat lines)
      = drop (unat off) (lines ! unat c) @ concat (drop (Suc (unat c)) lines)"
    if "unat off < length (lines ! unat c)"
    using locate_concat [OF locate_at [of "unat c" "map length lines" "unat off"]] that assms(6) by simp
  then show ?thesis
    using assms(2-4) lck frame unlock w ret
    unfolding aesd_ioctl_seek [OF assms(1) copy] aesd_adjust_file_offset_def
    by (cases "m = 0") (auto simp: nat_int_add simp del: of_nat_add split: if_splits)
qed

theorem aesd_ioctl_seeks_witness:
  "case aesd_ioctl bump_kernel dev_file (AESDCHAR_IOCSEEKTO bump_kernel) (seekto_bytes 0 1) loaded_driver
   of (r, f', s') \<Rightarrow> lock (dev s') = False \<and> r = 0 \<and> f_pos f' = 1"
proof -
  have copy: "copy_from_user bump_kernel (seekto_bytes 0 1) 8 (wld loaded_driver)
      = (0, seekto_bytes 0 1, wld loaded_driver)"
    by (simp add: bump_kernel_def seekto_bytes_def)
  have "out_offs (circular_buffer (dev loaded_driver)) = 0" by code_simp
  then have "case aesd_ioctl bump_kernel dev_file (AESDCHAR_IOCSEEKTO bump_kernel) (seekto_bytes 0 1)
      loaded_driver of (r, f', s') \<Rightarrow> lock (dev s') = False"
    using aesd_ioctl_seeks [OF bump_kernel_ok loaded_driver_rep dev_file_private
      loaded_driver_unlocked, of 0 1] copy
    by (auto split: prod.splits)
  moreover have "case aesd_adjust_file_offset bump_kernel dev_file 0 1 loaded_driver
      of (r, f', s') \<Rightarrow> r = 0 \<and> f_pos f' = 1"
    by code_simp
  ultimately show ?thesis
    unfolding aesd_ioctl_seek [OF bump_kernel_ok copy] by (simp split: prod.splits)
qed

text \<open>
  Loading the module either registers the device, with an empty log, or fails and leaves
  neither the region of device numbers nor the \<open>cdev\<close> registered.  It allocates nothing.
\<close>

theorem aesd_init_module_registers:
  assumes "kernel_ok K" and "region m = False" and "cdev_live m = False"
    and "kheap (wld (kst m)) NULL = None" and "kheap (wld (kst m)) (ZERO_SIZE_PTR K) = None"
  shows "case aesd_init_module K m of (r, m') \<Rightarrow>
    region m' = (r = 0) \<and> cdev_live m' = (r = 0) \<and> kheap (wld (kst m')) = kheap (wld (kst m)) \<and>
    (r \<noteq> 0 \<or> cdev_ops (dev (kst m')) \<and> lock (dev (kst m')) = False \<and>
       dev_rep K (dev (kst m')) (kheap (wld (kst m'))) [] [])"
proof -
  obtain result devno w where alloc: "alloc_chrdev_region K (wld (kst m)) = (result, devno, w)"
    by (metis prod_cases3)
  obtain err w' where add: "cdev_add K w = (err, w')" by fastforce
  have "cdev_ok K" using assms(1) by (simp add: kernel_ok_def)
  then have h: "kheap w = kheap (wld (kst m))" "kheap w' = kheap w"
    using alloc add unfolding cdev_ok_def by (metis snd_conv)+
  have rep: "dev_rep K (zero_device\<lparr>cdev_ops := True\<rparr>) (kheap w') [] []"
    using zero_device_rep [of "kheap w'" K] assms(4,5) h by simp
  show ?thesis
  proof (cases "result < 0")
    case True
    then show ?thesis using assms(2,3) alloc h by (simp add: aesd_init_module_def)
  next
    case False
    then show ?thesis
      using assms(2,3) alloc add rep h
      by (auto simp: aesd_init_module_def aesd_setup_cdev_def Let_def zero_device_def)
  qed
qed

definition unloaded :: "nat module_state" where
  "unloaded = \<lparr>kst = fresh_driver, aesd_major = 0, region = False, cdev_live = False, mutex_live = False\<rparr>"

theorem aesd_init_module_registers_witness:
  "case aesd_init_module bump_kernel unloaded of (r, m') \<Rightarrow> region m' = (r = 0) \<and> cdev_live m' = (r = 0)"
  using aesd_init_module_registers [OF bump_kernel_ok, of unloaded]
  by (simp add: unloaded_def fresh_driver_def split: prod.splits)

text \<open>
  Unloading the module frees every line the device holds and nothing else: an incomplete line
  is leaked, its block stays allocated with no pointer to it left.
\<close>

theorem aesd_cleanup_module_leaks_rest:
  assumes "kernel_ok K" and "dev_rep K (dev (kst m)) (kheap (wld (kst m))) lines pend"
  shows "\<exists>m'. aesd_cleanup_module K m = Some m' \<and> region m' = False \<and> cdev_live m' = False \<and>
    kheap (wld (kst m')) = kheap (wld (kst m)) |` (- buffptr ` set (live (dev (kst m)))) \<and>
    (pend = [] \<or> kheap (wld (kst m')) (buffer (working_buffer (dev (kst m)))) = Some pend)"
proof -
  obtain r s1 where lck: "lock_interruptible K (kst m) = (r, s1)" by fastforce
  note frame = lock_interruptible_frame [OF assms(1) lck]
  have cb: "circular_buffer (dev s1) = circular_buffer (dev (kst m))" using frame by simp
  have rep: "dev_rep K (dev (kst m)) (kheap (wld s1)) lines pend" using assms(2) frame by simp
  from dev_rep_destroy [OF assms(1) rep] obtain w where
    "destroy_circular_buffer (kfree_chk K) (Some (circular_buffer (dev s1))) (wld s1) = Some w"
    and w: "kheap w = kheap (wld (kst m)) |` (- buffptr ` set (live (dev (kst m))))"
    unfolding cb frame(1) by auto
  moreover have "pend = [] \<or> kheap w (buffer (working_buffer (dev (kst m)))) = Some pend"
    using assms(2) unfolding w dev_rep_def work_rep_def by (auto simp: restrict_map_def split: if_splits)
  ultimately show ?thesis using lck by (simp add: aesd_cleanup_module_def)
qed

theorem aesd_cleanup_module_leaks_rest_witness:
  "\<exists>m'. aesd_cleanup_module bump_kernel (unloaded\<lparr>kst := loaded_driver, region := True\<rparr>) = Some m' \<and>
     region m' = False \<and> kheap (wld (kst m')) 17 = None \<and> kheap (wld (kst m')) 18 = Some ''c''"
proof -
  have "buffer (working_buffer (dev loaded_driver)) = 18" by (simp add: loaded_driver_def)
  then show ?thesis
    using aesd_cleanup_module_leaks_rest [OF bump_kernel_ok, of "unloaded\<lparr>kst := loaded_driver, region := True\<rparr>"]
      loaded_driver_rep
    by (force simp: loaded_driver_live)
qed

text \<open>
  A write of two lines of equal length stores the second as an entry of size 0, and the lookup
  stops at an entry of size 0: everything written later can no longer be read.  Here \<open>a\<close> and \<open>b\<close> are
  written at once, then \<open>c\<close> alone; a reader gets \<open>a\<close> and then the end of the data.
\<close>

theorem aesd_write_equal_lines_hide:
  "Option.bind (driver_write bump_kernel dev_file (''a'' @ [nl] @ ''b'' @ [nl]) fresh_driver) (\<lambda>(r1, s1).
   Option.bind (driver_write bump_kernel dev_file (''c'' @ [nl]) s1) (\<lambda>(r2, s2).
   Option.bind (driver_read bump_kernel dev_file 100 (0, s2)) (\<lambda>(n1, e1, got1, p1, s3).
   Option.bind (driver_read bump_kernel dev_file 100 (p1, s3)) (\<lambda>(n2, e2, got2, p2, s4).
     Some (r1, r2, got1, n2, got2, buff_size (circular_buffer (dev s4)))))))
   = Some (2, 2, ''a'' @ [nl], 0, [], 4)"
  by code_simp

end
