(* ===== verification/DriverServer.thy ===== *)
theory DriverServer
  imports WorkerProofs CharDriverRead
begin

text \<open>
  The server on the driver: the system calls of \<open>aesd_char_thread\<close> built from the file operations of
  src/aesd-char-driver/main.c as the kernel dispatches them, with the network, the descriptor table
  and the allocator of the process as parameters.  The contract \<open>log_server\<close> is interpreted on it,
  which gives the properties of the server and the driver together.
\<close>

section \<open>The process\<close>

text \<open>
  What the process asks of the rest of the system: free descriptors, its sockets and its allocator,
  each over an environment.  \<open>errno\<close> after a failed \<open>send\<close> is not looked at by the code, so it is
  left out.
\<close>

record 'n net =
  n_open :: "(int \<Rightarrow> bool) \<Rightarrow> 'n \<Rightarrow> int \<times> 'n" \<comment> \<open>given those in use: a free descriptor, or -1\<close>
  n_close :: "int \<Rightarrow> 'n \<Rightarrow> 'n"
  n_send :: "int \<Rightarrow> byte list \<Rightarrow> 'n \<Rightarrow> int \<times> 'n"
  n_recv :: "int \<Rightarrow> nat \<Rightarrow> 'n \<Rightarrow> int \<times> byte list \<times> 'n"
  n_malloc :: "nat \<Rightarrow> 'n \<Rightarrow> byte list option \<times> 'n"
  n_realloc :: "byte list \<Rightarrow> nat \<Rightarrow> 'n \<Rightarrow> byte list option \<times> 'n"

text \<open>
  Their documented behaviour for the connection on \<open>sock\<close>, where \<open>arr\<close> are the bytes that will still
  arrive on it and \<open>dl\<close> the bytes delivered so far.
\<close>

definition net_calm :: "('n \<Rightarrow> byte list) \<Rightarrow> ('n \<Rightarrow> byte list) \<Rightarrow> 'n \<Rightarrow> 'n \<Rightarrow> bool" where
  "net_calm arr dl e e' \<longleftrightarrow> arr e' = arr e \<and> dl e' = dl e"

definition send_ok :: "'n net \<Rightarrow> int \<Rightarrow> ('n \<Rightarrow> byte list) \<Rightarrow> ('n \<Rightarrow> byte list) \<Rightarrow> bool" where
  "send_ok N sock arr dl \<longleftrightarrow> (\<forall>bs e r e'. bs \<noteq> [] \<longrightarrow> n_send N sock bs e = (r, e') \<longrightarrow>
     arr e' = arr e \<and> (r = -1 \<and> dl e' = dl e \<or> 0 < r \<and> nat r \<le> length bs \<and> dl e' = dl e @ take (nat r) bs))"

definition recv_ok :: "'n net \<Rightarrow> int \<Rightarrow> ('n \<Rightarrow> byte list) \<Rightarrow> ('n \<Rightarrow> byte list) \<Rightarrow> bool" where
  "recv_ok N sock arr dl \<longleftrightarrow> (\<forall>n e r bs e'. 0 < n \<longrightarrow> n_recv N sock n e = (r, bs, e') \<longrightarrow> dl e' = dl e \<and>
     (r = -1 \<and> bs = [] \<or> r = 0 \<and> bs = [] \<and> arr e = [] \<and> arr e' = [] \<or>
      0 < r \<and> r \<le> int n \<and> nat r \<le> length (arr e) \<and> bs = take (nat r) (arr e) \<and> arr e' = drop (nat r) (arr e)))"

definition open_ok :: "'n net \<Rightarrow> int \<Rightarrow> ('n \<Rightarrow> byte list) \<Rightarrow> ('n \<Rightarrow> byte list) \<Rightarrow> bool" where
  "open_ok N sock arr dl \<longleftrightarrow> (\<forall>used e fd e'. n_open N used e = (fd, e') \<longrightarrow>
     (fd = -1 \<or> \<not> used fd \<and> fd \<noteq> sock) \<and> net_calm arr dl e e') \<and>
     (\<forall>fd e. net_calm arr dl e (n_close N fd e))"

definition alloc_ok :: "'n net \<Rightarrow> ('n \<Rightarrow> byte list) \<Rightarrow> ('n \<Rightarrow> byte list) \<Rightarrow> bool" where
  "alloc_ok N arr dl \<longleftrightarrow>
     (\<forall>n e res e'. n_malloc N n e = (res, e') \<longrightarrow> net_calm arr dl e e' \<and>
        (\<forall>blk. res = Some blk \<longrightarrow> length blk = n)) \<and>
     (\<forall>old n e res e'. length old \<le> n \<longrightarrow> n_realloc N old n e = (res, e') \<longrightarrow> net_calm arr dl e e' \<and>
        (\<forall>blk. res = Some blk \<longrightarrow> length blk = n \<and> take (length old) blk = old))"

definition net_ok :: "'n net \<Rightarrow> int \<Rightarrow> ('n \<Rightarrow> byte list) \<Rightarrow> ('n \<Rightarrow> byte list) \<Rightarrow> bool" where
  "net_ok N sock arr dl \<longleftrightarrow>
     open_ok N sock arr dl \<and> send_ok N sock arr dl \<and> recv_ok N sock arr dl \<and> alloc_ok N arr dl"

text \<open>\<open>failed\<close> records, for the statements only, that some call has failed.\<close>

record ('k, 'n) server_world =
  driver :: "'k kst"
  files :: "int \<Rightarrow> file_t option"
  net_env :: 'n
  failed :: bool

section \<open>The system calls\<close>

definition sys_open :: "'n net \<Rightarrow> ('k, 'n) server_world \<Rightarrow> int \<times> ('k, 'n) server_world" where
  "sys_open N w =
     (let (fd, e) = n_open N (\<lambda>fd. files w fd \<noteq> None) (net_env w) in
      if fd = -1 then (-1, w\<lparr>net_env := e, failed := True\<rparr>)
      else (fd, w\<lparr>net_env := e,
                  files := (files w)(fd \<mapsto> snd (aesd_open dev_inode \<lparr>private_data = None, f_pos = 0\<rparr>))\<rparr>))"

text \<open>The last close of a file calls \<open>aesd_release\<close>; the open file is gone after it.\<close>

definition sys_close :: "'n net \<Rightarrow> int \<Rightarrow> ('k, 'n) server_world \<Rightarrow> ('k, 'n) server_world" where
  "sys_close N fd w =
     (case files w fd of
        None \<Rightarrow> w\<lparr>net_env := n_close N fd (net_env w), files := (files w)(fd := None)\<rparr>
      | Some f \<Rightarrow>
          let (r, f') = aesd_release dev_inode f
          in w\<lparr>net_env := n_close N fd (net_env w), files := (files w)(fd := None)\<rparr>)"

definition sys_write :: "'k kernel \<Rightarrow> int \<Rightarrow> byte list \<Rightarrow> ('k, 'n) server_world \<Rightarrow>
    (int \<times> int \<times> ('k, 'n) server_world) option" where
  "sys_write K fd bs w =
     (case files w fd of
        None \<Rightarrow> Some (-1, EBADF, w\<lparr>failed := True\<rparr>)
      | Some f \<Rightarrow> Option.bind (driver_write K f bs (driver w)) (\<lambda>(r, s).
          let (ret, errno) = libc_result r
          in Some (ret, errno, w\<lparr>driver := s, failed := (failed w \<or> ret = -1)\<rparr>)))"

text \<open>The kernel stores the position back only when the driver reports no error.\<close>

definition sys_read :: "'k kernel \<Rightarrow> int \<Rightarrow> nat \<Rightarrow> ('k, 'n) server_world \<Rightarrow>
    (int \<times> int \<times> byte list \<times> ('k, 'n) server_world) option" where
  "sys_read K fd n w =
     (case files w fd of
        None \<Rightarrow> Some (-1, EBADF, [], w\<lparr>failed := True\<rparr>)
      | Some f \<Rightarrow> Option.bind (driver_read K f n (f_pos f, driver w)) (\<lambda>(ret, errno, bs, pos, s).
          Some (ret, errno, bs, w\<lparr>driver := s,
              files := (files w)(fd \<mapsto> (if ret = -1 then f else f\<lparr>f_pos := pos\<rparr>)),
              failed := (failed w \<or> ret = -1)\<rparr>)))"

definition sys_ioctl :: "'k kernel \<Rightarrow> int \<Rightarrow> u32 \<Rightarrow> u32 \<Rightarrow> ('k, 'n) server_world \<Rightarrow>
    int \<times> ('k, 'n) server_world" where
  "sys_ioctl K fd c off w =
     (case files w fd of
        None \<Rightarrow> (-1, w)
      | Some f \<Rightarrow>
          let (r, f', s) = aesd_ioctl K f (AESDCHAR_IOCSEEKTO K) (seekto_bytes c off) (driver w)
          in (fst (libc_result r), w\<lparr>driver := s, files := (files w)(fd \<mapsto> f')\<rparr>))"

definition driver_sys :: "'k kernel \<Rightarrow> 'n net \<Rightarrow> ('k, 'n) server_world sys" where
  "driver_sys K N = \<lparr>
     open_log = (\<lambda>w. Some (sys_open N w)),
     close_fd = (\<lambda>fd w. Some (sys_close N fd w)),
     write_fd = sys_write K,
     read_fd = sys_read K,
     lseek_start = (\<lambda>fd w. map_option (\<lambda>f. case aesd_llseek K f 0 0 (driver w) of
        (r, f', s) \<Rightarrow> w\<lparr>driver := s, files := (files w)(fd \<mapsto> f')\<rparr>) (files w fd)),
     ioctl_seekto = (\<lambda>fd c off w. Some (sys_ioctl K fd c off w)),
     send_sock = (\<lambda>fd bs w. let (r, e) = n_send N fd bs (net_env w)
        in Some (r, 0, w\<lparr>net_env := e, failed := (failed w \<or> r = -1)\<rparr>)),
     recv_sock = (\<lambda>fd n w. let (r, bs, e) = n_recv N fd n (net_env w)
        in Some (r, bs, w\<lparr>net_env := e, failed := (failed w \<or> r = -1)\<rparr>)),
     malloc = (\<lambda>n w. let (res, e) = n_malloc N n (net_env w)
        in (res, w\<lparr>net_env := e, failed := (failed w \<or> res = None)\<rparr>)),
     realloc = (\<lambda>old n w. let (res, e) = n_realloc N old n (net_env w)
        in (res, w\<lparr>net_env := e, failed := (failed w \<or> res = None)\<rparr>)),
     pthread_mutex_lock = (\<lambda>w. (0, w)),
     pthread_mutex_trylock = (\<lambda>w. (0, w)),
     pthread_mutex_unlock = (\<lambda>w. (0, w))\<rparr>"

section \<open>The view of the world\<close>

definition srv_rep :: "'k kernel \<Rightarrow> 'n net \<Rightarrow> int \<Rightarrow> ('n \<Rightarrow> byte list) \<Rightarrow> ('n \<Rightarrow> byte list) \<Rightarrow>
    ('k, 'n) server_world \<Rightarrow> view \<Rightarrow> bool" where
  "srv_rep K N sock arr dl w v \<longleftrightarrow>
     kernel_ok K \<and> uninterrupted K \<and> net_ok N sock arr dl \<and>
     lock (dev (driver w)) = False \<and> nl \<notin> set (v_pend v) \<and>
     dev_rep K (dev (driver w)) (kheap (wld (driver w))) (v_lines v) (v_pend v) \<and>
     (\<forall>fd f. files w fd = Some f \<longrightarrow> private_data f \<noteq> None \<and> 0 \<le> f_pos f \<and> f_pos f < 2 ^ 63) \<and>
     v_files v = (\<lambda>fd. map_option (\<lambda>f. nat (f_pos f)) (files w fd)) \<and>
     v_inbox v = arr (net_env w) \<and> v_sent v = dl (net_env w)"

definition srv_seek :: "('k, 'n) server_world \<Rightarrow> u32 \<Rightarrow> u32 \<Rightarrow> nat option" where
  "srv_seek w c off =
     (let p = ret_offset (circular_buffer (dev (driver w))) c off in if p = -1 then None else Some (nat p))"

section \<open>Each call keeps the contract\<close>

lemma srv_files:
  assumes "srv_rep K N sock arr dl w v" and "v_files v fd \<noteq> None"
  obtains f where "files w fd = Some f" and "private_data f \<noteq> None" and "0 \<le> f_pos f" and "f_pos f < 2 ^ 63"
    and "v_files v fd = Some (nat (f_pos f))"
  using assms by (auto simp: srv_rep_def)

lemma srv_rep_failed [simp]: "srv_rep K N sock arr dl (w\<lparr>failed := x\<rparr>) v = srv_rep K N sock arr dl w v"
  by (simp add: srv_rep_def)

lemma srv_rep_driver:
  assumes "srv_rep K N sock arr dl w v" and "lock (dev s) = False" and "nl \<notin> set pend"
    and "dev_rep K (dev s) (kheap (wld s)) lines pend"
  shows "srv_rep K N sock arr dl (w\<lparr>driver := s\<rparr>) (v\<lparr>v_lines := lines, v_pend := pend\<rparr>)"
  using assms by (simp add: srv_rep_def)

lemma srv_open:
  assumes rep: "srv_rep K N sock arr dl w v" and opn: "sys_open N w = (fd, w')"
  shows "fd = -1 \<and> failed w' \<or> fd \<noteq> -1 \<and> fd \<noteq> sock \<and> v_files v fd = None \<and>
    srv_rep K N sock arr dl w' (at_pos fd 0 v) \<and> srv_seek w' = srv_seek w"
proof -
  obtain q e where ne: "n_open N (\<lambda>fd. files w fd \<noteq> None) (net_env w) = (q, e)" by fastforce
  have "open_ok N sock arr dl" using rep by (simp add: srv_rep_def net_ok_def)
  then have "(q = -1 \<or> \<not> (files w q \<noteq> None) \<and> q \<noteq> sock) \<and> net_calm arr dl (net_env w) e"
    using ne unfolding open_ok_def by blast
  then have "q = -1 \<or> files w q = None \<and> q \<noteq> sock" and "arr e = arr (net_env w)" "dl e = dl (net_env w)"
    unfolding net_calm_def by simp_all
  then show ?thesis
    using rep opn ne
    by (auto simp: sys_open_def srv_rep_def at_pos_def srv_seek_def aesd_open_def fun_eq_iff split: if_splits)
qed

lemma srv_close:
  "(failed w \<longrightarrow> failed (sys_close N fd w)) \<and>
   (srv_rep K N sock arr dl w v \<longrightarrow>
      srv_rep K N sock arr dl (sys_close N fd w) (v\<lparr>v_files := (v_files v)(fd := None)\<rparr>))"
  by (auto simp: sys_close_def srv_rep_def net_ok_def open_ok_def net_calm_def aesd_release_def fun_eq_iff
      split: option.splits)

lemma srv_write:
  assumes rep: "srv_rep K N sock arr dl w v" and fd: "v_files v fd \<noteq> None" and one: "count_list bs nl \<le> 1"
    and len: "length bs < 2 ^ 31" and bs: "bs \<noteq> []"
  shows "\<exists>r e w'. sys_write K fd bs w = Some (r, e, w') \<and>
    (r = -1 \<and> e \<noteq> EINTR \<and> failed w' \<or>
     r = int (length bs) \<and> srv_rep K N sock arr dl w' (accept_view v bs))"
proof -
  obtain f where f: "files w fd = Some f" and pd: "private_data f \<noteq> None"
    using srv_files [OF rep fd] by metis
  have K: "kernel_ok K" and un: "uninterrupted K" and lk: "lock (dev (driver w)) = False"
    and pend: "nl \<notin> set (v_pend v)"
    and dr: "dev_rep K (dev (driver w)) (kheap (wld (driver w))) (v_lines v) (v_pend v)"
    using rep by (auto simp: srv_rep_def)
  have len64: "length bs < 2 ^ 64" using len by (rule less_trans) simp
  obtain lines' pend' where acc: "accept_bytes (v_lines v) (v_pend v) bs = (lines', pend')" by fastforce
  from aesd_write_run [OF K dr pend pd lk, of "of_nat (length bs)" bs lines' pend'] one acc
  obtain r s' where run: "aesd_write K (Some f) bs (of_nat (length bs)) (driver w) = Some (r, s')"
    and out: "write_outcome K (driver w) (v_lines v) (v_pend v) bs (int (length bs)) lines' pend' r s'"
    by (auto simp: unat_length_u64 [OF len64])
  have view: "accept_view v bs = v\<lparr>v_lines := lines', v_pend := pend'\<rparr>" by (simp add: accept_view_def acc)
  have "r = int (length bs) \<and> dev_rep K (dev s') (kheap (wld s')) lines' pend' \<and> lock (dev s') = False \<or>
      r = - EFAULT \<or> r = - ENOMEM"
    using out un by (auto simp: write_outcome_def)
  then show ?thesis
    using f run srv_rep_driver [OF rep _ accept_rest [OF acc], of s'] view
    by (auto simp: sys_write_def driver_write_def libc_result_def)
qed

lemma srv_read:
  assumes rep: "srv_rep K N sock arr dl w v" and fd: "v_files v fd = Some p" and n: "0 < n" "n < 2 ^ 31"
  shows "\<exists>r e bs w'. sys_read K fd n w = Some (r, e, bs, w') \<and>
    (r = -1 \<and> (\<exists>p'. srv_rep K N sock arr dl w' (at_pos fd p' v)) \<and> e \<noteq> EINTR \<and> failed w' \<or>
     r = 0 \<and> drop p (concat (v_lines v)) = [] \<and> (\<exists>p'. srv_rep K N sock arr dl w' (at_pos fd p' v)) \<or>
     0 < r \<and> r \<le> int n \<and> p + nat r \<le> length (concat (v_lines v)) \<and>
       bs = take (nat r) (drop p (concat (v_lines v))) \<and>
       srv_rep K N sock arr dl w' (at_pos fd (p + nat r) v))"
proof -
  obtain f where f: "files w fd = Some f" and pd: "private_data f \<noteq> None" and pos: "0 \<le> f_pos f" "f_pos f < 2 ^ 63"
    and p: "p = nat (f_pos f)"
    using srv_files [OF rep, of fd] fd by auto
  have K: "kernel_ok K" and un: "fst (mutex_lock_interruptible K (wld (driver w))) = 0"
    and lk: "lock (dev (driver w)) = False"
    and dr: "dev_rep K (dev (driver w)) (kheap (wld (driver w))) (v_lines v) (v_pend v)"
    using rep by (auto simp: srv_rep_def uninterrupted_def)
  let ?all = "concat (v_lines v)" and ?n = "read_len (v_lines v) (of_nat n) (f_pos f)"
  obtain r fpos' got s' where run: "aesd_read K (Some f) (of_nat n) (f_pos f) (driver w) = Some (r, fpos', got, s')"
    and frame: "read_frame (driver w) s'"
    and res: "if length ?all \<le> p then r = 0 \<and> fpos' = 0 \<and> got = []
      else fpos' = f_pos f + int ?n \<and> (r = - EFAULT \<or> r = int ?n \<and> got = take ?n (drop p ?all))"
    using aesd_read_run [OF K dr pd lk pos, of "of_nat n"] un p by auto
  have keep: "srv_rep K N sock arr dl
      (w\<lparr>driver := s', files := (files w)(fd \<mapsto> f\<lparr>f_pos := q\<rparr>)\<rparr>) (at_pos fd (nat q) v)"
    if "0 \<le> q" "q < 2 ^ 63" for q
    using rep that pd read_frame_rep [OF frame dr]
    by (auto simp: srv_rep_def at_pos_def fun_eq_iff)
  have stay: "srv_rep K N sock arr dl (w\<lparr>driver := s', files := (files w)(fd \<mapsto> f)\<rparr>) (at_pos fd p v)"
    using keep [OF pos] p by simp
  show ?thesis
  proof (cases "length ?all \<le> p")
    case True
    then show ?thesis
      using f run res keep [of 0] by (auto simp: sys_read_def driver_read_def libc_result_def)
  next
    case False
    have un64: "unat (of_nat n :: u64) = n" using n by (simp add: unat_of_nat)
    then have "(of_nat n :: u64) \<noteq> 0" using n(1) by (metis unsigned_0 not_less_zero)
    then have "0 < ?n" using read_len_pos [of "f_pos f" "v_lines v"] False p by (simp add: word_neq_0_conv)
    moreover have bounds: "?n \<le> length ?all - p" "?n \<le> n"
      using read_len_bound [of "v_lines v" "of_nat n" "f_pos f"]
        read_len_count [of "v_lines v" "of_nat n" "f_pos f"] un64 p by simp_all
    moreover have "length ?all < 2 ^ 31" by (rule dev_rep_total [OF K dr])
    ultimately have top: "f_pos f + int ?n < 2 ^ 63" "0 \<le> f_pos f + int ?n" "nat (f_pos f + int ?n) = p + ?n"
      using pos p False by (auto simp: nat_add_distrib)
    show ?thesis
      using f run res False stay keep [OF top(2,1)] \<open>0 < ?n\<close> bounds top(3)
      by (auto simp: sys_read_def driver_read_def libc_result_def)
  qed
qed

lemma srv_ioctl:
  assumes rep: "srv_rep K N sock arr dl w v" and fd: "v_files v fd \<noteq> None"
    and run: "sys_ioctl K fd c off w = (r, w')"
  shows "case srv_seek w c off of
      Some p' \<Rightarrow> r = 0 \<and> srv_rep K N sock arr dl w' (at_pos fd p' v) \<or> r \<noteq> 0 \<and> srv_rep K N sock arr dl w' v
    | None \<Rightarrow> r \<noteq> 0 \<and> srv_rep K N sock arr dl w' v"
proof -
  obtain f where f: "files w fd = Some f" "private_data f \<noteq> None" "0 \<le> f_pos f" "f_pos f < 2 ^ 63"
    "v_files v fd = Some (nat (f_pos f))"
    using srv_files [OF rep fd] by metis
  have K: "kernel_ok K" and un: "uninterrupted K" and lk: "lock (dev (driver w)) = False"
    using rep by (auto simp: srv_rep_def)
  obtain e bytes wk where copy: "copy_from_user K (seekto_bytes c off) 8 (wld (driver w)) = (e, bytes, wk)"
    by (metis prod_cases3)
  have h: "kheap wk = kheap (wld (driver w))" using copy_from_userE [OF K copy] by metis
  have moved: "srv_rep K N sock arr dl (w\<lparr>driver := s\<rparr>) v"
    if "dev s = dev (driver w)" "kheap (wld s) = kheap (wld (driver w))" for s
    using rep that by (simp add: srv_rep_def)
  have keep: "srv_rep K N sock arr dl (w\<lparr>driver := s, files := (files w)(fd \<mapsto> f\<lparr>f_pos := q\<rparr>)\<rparr>) (at_pos fd (nat q) v)"
    if "dev s = dev (driver w)" "kheap (wld s) = kheap (wld (driver w))" "0 \<le> q" "q < 2 ^ 63" for s q
    using moved [OF that(1,2)] that(3,4) f by (auto simp: srv_rep_def at_pos_def fun_eq_iff)
  have same: "srv_rep K N sock arr dl (w\<lparr>driver := s, files := (files w)(fd \<mapsto> f)\<rparr>) v"
    if "dev s = dev (driver w)" "kheap (wld s) = kheap (wld (driver w))" for s
    using moved [OF that] f by (auto simp: srv_rep_def fun_eq_iff)
  show ?thesis
  proof (cases "e = 0")
    case False
    have "ioc_ok K" using K by (simp add: kernel_ok_def)
    then have "IOC_TYPE K (AESDCHAR_IOCSEEKTO K) = AESD_IOC_MAGIC" "IOC_NR K (AESDCHAR_IOCSEEKTO K) = 1"
      by (auto simp: ioc_ok_def AESDCHAR_IOCSEEKTO_def)
    then have "aesd_ioctl K f (AESDCHAR_IOCSEEKTO K) (seekto_bytes c off) (driver w)
        = (- EFAULT, f, (driver w)\<lparr>wld := wk\<rparr>)"
      using copy False by (simp add: aesd_ioctl_def)
    then have "r = -1" and "srv_rep K N sock arr dl w' v"
      using run f(1) same [of "(driver w)\<lparr>wld := wk\<rparr>"] h by (auto simp: sys_ioctl_def libc_result_def)
    then show ?thesis by (simp split: option.split)
  next
    case True
    let ?s = "(driver w)\<lparr>wld := wk\<rparr>"
    obtain m s1 where lck: "lock_interruptible K ?s = (m, s1)" by fastforce
    have "fst (mutex_lock_interruptible K wk) = m"
      using lck by (auto simp: lock_interruptible_def split: prod.splits)
    then have m: "m = 0" using un by (simp add: uninterrupted_def)
    note frame = lock_interruptible_frame [OF K lck]
    have unlock: "(dev (driver w))\<lparr>lock := False\<rparr> = dev (driver w)" using lk by (cases "dev (driver w)") simp
    let ?p = "ret_offset (circular_buffer (dev (driver w))) c off"
    have sk: "aesd_ioctl K f (AESDCHAR_IOCSEEKTO K) (seekto_bytes c off) (driver w) =
        (if ?p = -1 then (- EINVAL, f, mutex_unlock s1) else (0, f\<lparr>f_pos := ?p\<rparr>, mutex_unlock s1))"
      using aesd_ioctl_seek [OF K copy [unfolded True], of f] f(2) lck m frame
      by (simp add: aesd_adjust_file_offset_def)
    have s2: "dev (mutex_unlock s1) = dev (driver w)" "kheap (wld (mutex_unlock s1)) = kheap (wld (driver w))"
      using frame m unlock h by simp_all
    show ?thesis
      using run f(1) sk same [OF s2] keep [OF s2, of ?p] ret_offset_range [of "circular_buffer (dev (driver w))" c off]
      by (auto simp: sys_ioctl_def libc_result_def srv_seek_def Let_def split: if_splits)
  qed
qed

text \<open>
  The kernel can copy from every address the process passes, as it can when the pages are there: the
  server passes the address of a variable of its own.
\<close>

definition args_readable :: "'k kernel \<Rightarrow> bool" where
  "args_readable K \<longleftrightarrow> (\<forall>src n k. unat n \<le> length src \<longrightarrow> fst (copy_from_user K src n k) = 0)"

lemma srv_ioctl_succeeds:
  assumes rep: "srv_rep K N sock arr dl w v" and fd: "v_files v fd \<noteq> None" and rd: "args_readable K"
    and run: "sys_ioctl K fd c off w = (r, w')" and tgt: "srv_seek w c off = Some p"
  shows "r = 0"
proof -
  obtain f where f: "files w fd = Some f" "private_data f \<noteq> None" using srv_files [OF rep fd] by metis
  have K: "kernel_ok K" and un: "uninterrupted K" and lk: "lock (dev (driver w)) = False"
    using rep by (auto simp: srv_rep_def)
  obtain e bytes wk where copy: "copy_from_user K (seekto_bytes c off) 8 (wld (driver w)) = (e, bytes, wk)"
    by (metis prod_cases3)
  have "unat (8 :: u64) \<le> length (seekto_bytes c off)" by (simp add: seekto_bytes_def)
  with rd have "fst (copy_from_user K (seekto_bytes c off) 8 (wld (driver w))) = 0" unfolding args_readable_def by blast
  then have e: "e = 0" using copy by simp
  let ?s = "(driver w)\<lparr>wld := wk\<rparr>" and ?p = "ret_offset (circular_buffer (dev (driver w))) c off"
  obtain m s1 where lck: "lock_interruptible K ?s = (m, s1)" by fastforce
  have "fst (mutex_lock_interruptible K wk) = m"
    using lck by (auto simp: lock_interruptible_def split: prod.splits)
  then have m: "m = 0" using un by (simp add: uninterrupted_def)
  have "aesd_ioctl K f (AESDCHAR_IOCSEEKTO K) (seekto_bytes c off) (driver w) =
      (if ?p = -1 then (- EINVAL, f, mutex_unlock s1) else (0, f\<lparr>f_pos := ?p\<rparr>, mutex_unlock s1))"
    using aesd_ioctl_seek [OF K copy [unfolded e], of f] f(2) lck m lock_interruptible_frame [OF K lck]
    by (simp add: aesd_adjust_file_offset_def)
  moreover have "?p \<noteq> -1" using tgt by (simp add: srv_seek_def Let_def split: if_splits)
  ultimately show ?thesis using run f(1) by (simp add: sys_ioctl_def libc_result_def)
qed

text \<open>The part of the contract that the receive loop needs.\<close>

interpretation driver_receiver: receiver "driver_sys K N" "srv_rep K N sock arr dl" failed v_inbox
  "\<lambda>k v. v\<lparr>v_inbox := drop k (v_inbox v)\<rparr>" sock
  for K N sock arr dl
proof
  fix w v and n :: nat
  assume rep: "srv_rep K N sock arr dl w v" and n: "0 < n"
  obtain r bs e where rc: "n_recv N sock n (net_env w) = (r, bs, e)" by (metis prod_cases3)
  have "recv_ok N sock arr dl" using rep by (simp add: srv_rep_def net_ok_def)
  then have "dl e = dl (net_env w)" and "r = -1 \<and> bs = [] \<or> r = 0 \<and> bs = [] \<and> arr (net_env w) = [] \<and> arr e = [] \<or>
      0 < r \<and> r \<le> int n \<and> nat r \<le> length (arr (net_env w)) \<and> bs = take (nat r) (arr (net_env w)) \<and>
      arr e = drop (nat r) (arr (net_env w))"
    using n rc unfolding recv_ok_def by blast+
  then show "\<exists>r bs w'. recv_sock (driver_sys K N) sock n w = Some (r, bs, w') \<and>
      (r = -1 \<and> bs = [] \<and> failed w' \<or> r = 0 \<and> bs = [] \<and> v_inbox v = [] \<and> srv_rep K N sock arr dl w' v \<or>
       0 < r \<and> r \<le> int n \<and> nat r \<le> length (v_inbox v) \<and> bs = take (nat r) (v_inbox v) \<and>
         srv_rep K N sock arr dl w' (v\<lparr>v_inbox := drop (nat r) (v_inbox v)\<rparr>))"
    using rep rc by (auto simp: driver_sys_def srv_rep_def)
next
  fix w v n res w'
  assume "srv_rep K N sock arr dl w v" and "malloc (driver_sys K N) n w = (res, w')"
  then show "case res of None \<Rightarrow> failed w' | Some blk \<Rightarrow> length blk = n \<and> srv_rep K N sock arr dl w' v"
    by (auto simp: driver_sys_def srv_rep_def net_ok_def alloc_ok_def net_calm_def split: prod.splits option.splits)
next
  fix w v and old :: "byte list" and n res w'
  assume "srv_rep K N sock arr dl w v" and "length old \<le> n" and "realloc (driver_sys K N) old n w = (res, w')"
  then show "case res of None \<Rightarrow> True
    | Some blk \<Rightarrow> length blk = n \<and> take (length old) blk = old \<and> srv_rep K N sock arr dl w' v"
    by (auto simp: driver_sys_def srv_rep_def net_ok_def alloc_ok_def net_calm_def split: prod.splits option.splits)
qed (simp_all add: add.commute)

text \<open>The whole contract.  With no signals there are no interruptions to count.\<close>

interpretation driver_server: log_server "driver_sys K N" "srv_rep K N sock arr dl" failed sock "\<lambda>_. 0" srv_seek
  for K N sock arr dl
proof
  fix w v
  assume rep: "srv_rep K N sock arr dl w v"
  then show "length (v_lines v) \<le> 10 \<and> nl \<notin> set (v_pend v)"
    by (auto simp: srv_rep_def dest: dev_rep_le10)
  show "\<exists>fd w'. open_log (driver_sys K N) w = Some (fd, w') \<and>
      (fd = -1 \<and> failed w' \<or> fd \<noteq> -1 \<and> fd \<noteq> sock \<and> v_files v fd = None \<and>
         srv_rep K N sock arr dl w' (at_pos fd 0 v) \<and> srv_seek w' = srv_seek w)"
    using srv_open [OF rep] by (cases "sys_open N w") (simp add: driver_sys_def)
  fix fd and bs :: "byte list"
  assume "v_files v fd \<noteq> None" "bs \<noteq> []" "count_list bs nl \<le> 1" "length bs < 2 ^ 31"
  with srv_write [OF rep] obtain r e w' where run: "sys_write K fd bs w = Some (r, e, w')"
    and res: "r = -1 \<and> e \<noteq> EINTR \<and> failed w' \<or>
      r = int (length bs) \<and> srv_rep K N sock arr dl w' (accept_view v bs)" by metis
  have "0 < int (length bs)" using \<open>bs \<noteq> []\<close> by simp
  then have "r = -1 \<and> (if e = EINTR then srv_rep K N sock arr dl w' v \<and> (0 :: nat) < 0 else failed w') \<or>
       0 < r \<and> nat r \<le> length bs \<and> srv_rep K N sock arr dl w' (accept_view v (take (nat r) bs)) \<and> (0 :: nat) \<le> 0"
    using res by auto
  then show "\<exists>r e w'. write_fd (driver_sys K N) fd bs w = Some (r, e, w') \<and>
      (r = -1 \<and> (if e = EINTR then srv_rep K N sock arr dl w' v \<and> (0 :: nat) < 0 else failed w') \<or>
       0 < r \<and> nat r \<le> length bs \<and> srv_rep K N sock arr dl w' (accept_view v (take (nat r) bs)) \<and> (0 :: nat) \<le> 0)"
    using run by (simp add: driver_sys_def)
next
  fix fd w
  show "\<exists>w'. close_fd (driver_sys K N) fd w = Some w' \<and> (failed w \<longrightarrow> failed w') \<and>
      (\<forall>v. srv_rep K N sock arr dl w v \<longrightarrow> srv_rep K N sock arr dl w' (v\<lparr>v_files := (v_files v)(fd := None)\<rparr>))"
    using srv_close by (simp add: driver_sys_def) blast
next
  fix w v fd p and n :: nat
  assume "srv_rep K N sock arr dl w v" "v_files v fd = Some p" "0 < n" "n < 2 ^ 31"
  from srv_read [OF this] obtain r e bs w' where run: "sys_read K fd n w = Some (r, e, bs, w')"
    and res: "r = -1 \<and> (\<exists>p'. srv_rep K N sock arr dl w' (at_pos fd p' v)) \<and> e \<noteq> EINTR \<and> failed w' \<or>
     r = 0 \<and> drop p (concat (v_lines v)) = [] \<and> (\<exists>p'. srv_rep K N sock arr dl w' (at_pos fd p' v)) \<or>
     0 < r \<and> r \<le> int n \<and> p + nat r \<le> length (concat (v_lines v)) \<and>
       bs = take (nat r) (drop p (concat (v_lines v))) \<and>
       srv_rep K N sock arr dl w' (at_pos fd (p + nat r) v)" by blast
  have "read_fd (driver_sys K N) fd n w = Some (r, e, bs, w')" using run by (simp add: driver_sys_def)
  moreover have "r = -1 \<and> (\<exists>p'. srv_rep K N sock arr dl w' (at_pos fd p' v)) \<and>
           (if e = EINTR then srv_rep K N sock arr dl w' v \<and> (0 :: nat) < 0 else failed w') \<or>
         r = 0 \<and> drop p (concat (v_lines v)) = [] \<and> (\<exists>p'. srv_rep K N sock arr dl w' (at_pos fd p' v)) \<or>
         0 < r \<and> r \<le> int n \<and> p + nat r \<le> length (concat (v_lines v)) \<and>
           bs = take (nat r) (drop p (concat (v_lines v))) \<and>
           srv_rep K N sock arr dl w' (at_pos fd (p + nat r) v) \<and> (0 :: nat) \<le> 0"
    using res
  proof (elim disjE)
    assume "r = -1 \<and> (\<exists>p'. srv_rep K N sock arr dl w' (at_pos fd p' v)) \<and> e \<noteq> EINTR \<and> failed w'"
    then show ?thesis by (intro disjI1) simp
  next
    assume "r = 0 \<and> drop p (concat (v_lines v)) = [] \<and> (\<exists>p'. srv_rep K N sock arr dl w' (at_pos fd p' v))"
    then show ?thesis by (intro disjI2 [OF disjI1])
  qed simp
  ultimately show "\<exists>r e bs w'. read_fd (driver_sys K N) fd n w = Some (r, e, bs, w') \<and>
        (r = -1 \<and> (\<exists>p'. srv_rep K N sock arr dl w' (at_pos fd p' v)) \<and>
           (if e = EINTR then srv_rep K N sock arr dl w' v \<and> (0 :: nat) < 0 else failed w') \<or>
         r = 0 \<and> drop p (concat (v_lines v)) = [] \<and> (\<exists>p'. srv_rep K N sock arr dl w' (at_pos fd p' v)) \<or>
         0 < r \<and> r \<le> int n \<and> p + nat r \<le> length (concat (v_lines v)) \<and>
           bs = take (nat r) (drop p (concat (v_lines v))) \<and>
           srv_rep K N sock arr dl w' (at_pos fd (p + nat r) v) \<and> (0 :: nat) \<le> 0)"
    by blast
next
  fix w v and bs :: "byte list"
  assume rep: "srv_rep K N sock arr dl w v" and bs: "bs \<noteq> []"
  obtain r e where send: "n_send N sock bs (net_env w) = (r, e)" by fastforce
  have "send_ok N sock arr dl" using rep by (simp add: srv_rep_def net_ok_def)
  then have "arr e = arr (net_env w)" and "r = -1 \<and> dl e = dl (net_env w) \<or>
      0 < r \<and> nat r \<le> length bs \<and> dl e = dl (net_env w) @ take (nat r) bs"
    using bs send unfolding send_ok_def by blast+
  then show "\<exists>r e w'. send_sock (driver_sys K N) sock bs w = Some (r, e, w') \<and>
        (r = -1 \<and> srv_rep K N sock arr dl w' v \<and> failed w' \<and> (e = EINTR \<longrightarrow> (0 :: nat) < 0) \<or>
         0 < r \<and> nat r \<le> length bs \<and> srv_rep K N sock arr dl w' (sent (take (nat r) bs) v) \<and> (0 :: nat) \<le> 0)"
    using rep send by (auto simp: driver_sys_def srv_rep_def sent_def)
next
  fix w v fd p c off
  assume rep: "srv_rep K N sock arr dl w v" and fd: "v_files v fd = Some p"
  then have ne: "v_files v fd \<noteq> None" by simp
  obtain r w' where run: "sys_ioctl K fd c off w = (r, w')" by fastforce
  from srv_ioctl [OF rep ne run]
  show "\<exists>r w'. ioctl_seekto (driver_sys K N) fd c off w = Some (r, w') \<and>
      (case srv_seek w c off of
         Some p' \<Rightarrow> r = 0 \<and> srv_rep K N sock arr dl w' (at_pos fd p' v) \<or> r \<noteq> 0 \<and> srv_rep K N sock arr dl w' v
       | None \<Rightarrow> r \<noteq> 0 \<and> srv_rep K N sock arr dl w' v)"
    using run by (auto simp: driver_sys_def)
qed

section \<open>Properties\<close>

text \<open>
  A world between connections: a kernel and a network that behave, no signals, no open file, and
  the device holds \<open>lines\<close> and the incomplete \<open>pend\<close>.
\<close>

definition server_idle :: "'k kernel \<Rightarrow> 'n net \<Rightarrow> int \<Rightarrow> ('n \<Rightarrow> byte list) \<Rightarrow> ('n \<Rightarrow> byte list) \<Rightarrow>
    ('k, 'n) server_world \<Rightarrow> byte list list \<Rightarrow> byte list \<Rightarrow> bool" where
  "server_idle K N sock arr dl w lines pend \<longleftrightarrow>
     kernel_ok K \<and> uninterrupted K \<and> net_ok N sock arr dl \<and> lock (dev (driver w)) = False \<and>
     nl \<notin> set pend \<and> files w = Map.empty \<and>
     dev_rep K (dev (driver w)) (kheap (wld (driver w))) lines pend"

text \<open>For the witnesses: a network that delivers chunks one by one, and nothing fails.\<close>

definition chunk_net :: "(byte list list \<times> byte list) net" where
  "chunk_net = \<lparr>
     n_open = (\<lambda>used e. (if used 5 then -1 else 5, e)),
     n_close = (\<lambda>fd e. e),
     n_send = (\<lambda>fd bs (chunks, out). (int (length bs), (chunks, out @ bs))),
     n_recv = (\<lambda>fd n (chunks, out). case dropWhile (\<lambda>c. c = []) chunks of
        [] \<Rightarrow> (0, [], ([], out))
      | c # cs \<Rightarrow> if length c \<le> n then (int (length c), c, (cs, out))
                  else (int n, take n c, (drop n c # cs, out))),
     n_malloc = (\<lambda>n e. (Some (replicate n NUL), e)),
     n_realloc = (\<lambda>old n e. (Some (old @ replicate (n - length old) NUL), e))\<rparr>"

definition connection :: worker_thread_t where
  "connection = \<lparr>thread_id = 1, thread_completed = False, curr_state = Receive_From_Socket,
     socket_file_descriptor = 4, ip_addr = ''127.0.0.1''\<rparr>"

definition idle_world :: "byte list list \<Rightarrow> (nat, byte list list \<times> byte list) server_world" where
  "idle_world chunks = \<lparr>driver = fresh_driver, files = Map.empty, net_env = (chunks, []), failed = False\<rparr>"

lemma concat_dropWhile_Nil: "concat (dropWhile (\<lambda>c. c = []) cs) = concat cs"
  by (induction cs) auto

lemma chunk_net_ok: "net_ok chunk_net 4 (\<lambda>(chunks, out). concat chunks) (\<lambda>(chunks, out). out)"
proof -
  let ?arr = "\<lambda>(chunks, out). concat chunks" and ?dl = "\<lambda>(chunks, out). out"
  have "recv_ok chunk_net 4 ?arr ?dl"
    unfolding recv_ok_def
  proof (intro allI impI)
    fix n :: nat and e e' :: "byte list list \<times> byte list" and r bs
    assume n: "0 < n" and rc: "n_recv chunk_net 4 n e = (r, bs, e')"
    obtain chunks out where e: "e = (chunks, out)" by fastforce
    define d where "d = dropWhile (\<lambda>c. c = []) chunks"
    have cc: "concat chunks = concat d" by (simp add: concat_dropWhile_Nil d_def)
    show "?dl e' = ?dl e \<and> (r = -1 \<and> bs = [] \<or> r = 0 \<and> bs = [] \<and> ?arr e = [] \<and> ?arr e' = [] \<or>
        0 < r \<and> r \<le> int n \<and> nat r \<le> length (?arr e) \<and> bs = take (nat r) (?arr e) \<and> ?arr e' = drop (nat r) (?arr e))"
    proof (cases d)
      case Nil
      then have "concat chunks = []" using cc by simp
      with Nil show ?thesis using rc by (auto simp: chunk_net_def e d_def [symmetric])
    next
      case (Cons c cs)
      then have "c \<noteq> []" unfolding d_def by (metis (mono_tags) dropWhile_eq_Cons_conv)
      then show ?thesis
        using rc n Cons cc by (auto simp: chunk_net_def e d_def [symmetric] split: if_splits)
    qed
  qed
  then show ?thesis
    by (auto simp: net_ok_def open_ok_def send_ok_def alloc_ok_def net_calm_def chunk_net_def)
qed

lemma idle_world_ok:
  "server_idle bump_kernel chunk_net 4 (\<lambda>(chunks, out). concat chunks) (\<lambda>(chunks, out). out) (idle_world cs) [] []"
  by (simp add: server_idle_def bump_kernel_ok chunk_net_ok idle_world_def fresh_driver_rep
      fresh_driver_unlocked uninterrupted_def)
    (simp add: bump_kernel_def)

lemma chunk_net_realloc: "fst (n_realloc chunk_net old n e) \<noteq> None"
  by (simp add: chunk_net_def)

lemma connection_simps: "curr_state connection = Receive_From_Socket" "socket_file_descriptor connection = 4"
  by (simp_all add: connection_def)

lemma idle_world_env: "net_env (idle_world cs) = (cs, [])"
  by (simp add: idle_world_def)

lemma server_idle_rep:
  "server_idle K N sock arr dl w lines pend \<Longrightarrow>
     srv_rep K N sock arr dl w \<lparr>v_lines = lines, v_pend = pend, v_files = (\<lambda>_. None),
       v_inbox = arr (net_env w), v_sent = dl (net_env w)\<rparr>"
  by (simp add: server_idle_def srv_rep_def fun_eq_iff)

lemma srv_rep_idle:
  "srv_rep K N sock arr dl w v \<Longrightarrow> v_files v = (\<lambda>_. None) \<Longrightarrow>
     server_idle K N sock arr dl w (v_lines v) (v_pend v) \<and> arr (net_env w) = v_inbox v \<and> dl (net_env w) = v_sent v"
  by (auto simp: server_idle_def srv_rep_def fun_eq_iff)

text \<open>
  C9: a single connection to an idle device that sends one packet (not a seek command, shorter than 2^31
  bytes), in whatever pieces it arrives, when \<open>realloc\<close> does not fail: the thread ends, and unless
  another call failed the device then holds the last ten lines with the packet as the newest, the client
  has received exactly these lines, and no file is left open.
\<close>

theorem connection_stores_and_answers:
  assumes "server_idle K N sock arr dl w lines pend" and "arr (net_env w) = body @ [nl]"
    and "nl \<notin> set body" and "take 19 (body @ [nl]) \<noteq> seek_command" and "length body < 2 ^ 31 - 1"
    and "curr_state t = Receive_From_Socket" and "socket_file_descriptor t = sock"
    and "\<And>old n e. fst (n_realloc N old n e) \<noteq> None"
  shows "\<exists>t' l' w'. aesd_char_thread (driver_sys K N) t w = Some (t', l', w') \<and> thread_completed t' \<and>
    (failed w' \<or>
     server_idle K N sock arr dl w' (last_n 10 (lines @ [pend @ body @ [nl]])) [] \<and>
     dl (net_env w') = dl (net_env w) @ concat (last_n 10 (lines @ [pend @ body @ [nl]])))"
proof -
  let ?v = "\<lparr>v_lines = lines, v_pend = pend, v_files = (\<lambda>_. None), v_inbox = arr (net_env w), v_sent = dl (net_env w)\<rparr>"
  have "nl \<notin> set pend" using assms(1) by (simp add: server_idle_def)
  then have acc: "accept_bytes lines pend (body @ [nl]) = (last_n 10 (lines @ [pend @ body @ [nl]]), [])"
    using accept_one [of pend body "[]" lines] assms(3) by simp
  have re: "fst (realloc (driver_sys K N) old n w) \<noteq> None" for old n w
    using assms(8) by (simp add: driver_sys_def split: prod.splits) (metis fst_conv)
  from driver_server.aesd_char_thread_packet [OF server_idle_rep [OF assms(1)] _ assms(3-7) _ re] assms(2)
  obtain t' l' w' where "aesd_char_thread (driver_sys K N) t w = Some (t', l', w')" and "thread_completed t'"
    and res: "failed w' \<or> srv_rep K N sock arr dl w' ((answered (body @ [nl]) ?v)\<lparr>v_inbox := []\<rparr>)"
    by auto
  moreover have eq: "(answered (body @ [nl]) ?v)\<lparr>v_inbox := []\<rparr> = \<lparr>v_lines = last_n 10 (lines @ [pend @ body @ [nl]]), v_pend = [],
      v_files = (\<lambda>_. None), v_inbox = [], v_sent = dl (net_env w) @ concat (last_n 10 (lines @ [pend @ body @ [nl]]))\<rparr>"
    by (simp add: answered_def accept_view_def acc sent_def)
  ultimately show ?thesis
    using srv_rep_idle [of K N sock arr dl w' "(answered (body @ [nl]) ?v)\<lparr>v_inbox := []\<rparr>"] unfolding eq by auto
qed

theorem connection_stores_and_answers_witness:
  "\<exists>t' l' w'. aesd_char_thread (driver_sys bump_kernel chunk_net) connection (idle_world [''h'', ''i'' @ [nl]])
      = Some (t', l', w') \<and> failed w' = False \<and>
     dev_rep bump_kernel (dev (driver w')) (kheap (wld (driver w'))) [''hi'' @ [nl]] [] \<and>
     snd (net_env w') = ''hi'' @ [nl]"
proof -
  have "map_option (\<lambda>(t, l, w). failed w) (aesd_char_thread (driver_sys bump_kernel chunk_net) connection
      (idle_world [''h'', ''i'' @ [nl]])) = Some False"
    by code_simp
  moreover have hyps: "take 19 (''hi'' @ [nl]) \<noteq> seek_command" "nl \<notin> set ''hi''" by code_simp+
  moreover have arrives: "(case net_env (idle_world [''h'', ''i'' @ [nl]]) of (chunks, out) \<Rightarrow> concat chunks) = ''hi'' @ [nl]"
    by (simp add: idle_world_env)
  moreover note connection_stores_and_answers [OF idle_world_ok arrives hyps(2,1) _ connection_simps chunk_net_realloc]
  ultimately obtain t' l' w' where
    "aesd_char_thread (driver_sys bump_kernel chunk_net) connection (idle_world [''h'', ''i'' @ [nl]])
       = Some (t', l', w')" and "failed w' = False"
    and "server_idle bump_kernel chunk_net 4 (\<lambda>(chunks, out). concat chunks) (\<lambda>(chunks, out). out) w'
       (last_n 10 ([] @ [[] @ ''hi'' @ [nl]])) []"
    and "(case net_env w' of (chunks, out) \<Rightarrow> out) = [] @ concat (last_n 10 ([] @ [[] @ ''hi'' @ [nl]]))"
    by (auto simp: idle_world_env)
  then show ?thesis
    by (intro exI [of _ t'] exI [of _ l'] exI [of _ w']) (simp add: server_idle_def split_beta)
qed

text \<open>
  C12: the thread of a single connection to an idle device always ends, with its flag set, whatever
  arrives on the socket (less than 2^31 bytes, and then the end of the connection: \<open>recv\<close> returns) and in
  whatever pieces, and whatever calls fail, as long as \<open>realloc\<close> does not and no signal kills it.
\<close>

theorem connection_always_ends:
  assumes "server_idle K N sock arr dl w lines pend" and "length (arr (net_env w)) < 2 ^ 31"
    and "curr_state t = Receive_From_Socket" and "socket_file_descriptor t = sock"
    and "\<And>old n e. fst (n_realloc N old n e) \<noteq> None"
  shows "\<exists>t' l' w'. aesd_char_thread (driver_sys K N) t w = Some (t', l', w') \<and> thread_completed t'"
proof -
  have re: "fst (realloc (driver_sys K N) old n w) \<noteq> None" for old n w
    using assms(5) by (simp add: driver_sys_def split: prod.splits) (metis fst_conv)
  from driver_server.aesd_char_thread_ends [OF server_idle_rep [OF assms(1)] assms(3,4) _ re] assms(2)
  show ?thesis by simp
qed

theorem connection_always_ends_witness:
  "\<exists>t' l' w'. aesd_char_thread (driver_sys bump_kernel chunk_net) connection (idle_world [''x'', ''y'' @ [nl] @ ''z''])
     = Some (t', l', w') \<and> thread_completed t'"
  by (rule connection_always_ends [OF idle_world_ok]) (simp_all add: idle_world_env connection_simps chunk_net_realloc)


text \<open>
  C15: a packet that is a well-formed seek command, for a byte \<open>off\<close> that exists in a command \<open>c\<close> that
  is stored, on an idle device on which no command was overwritten yet: unless a call failed, it is not
  stored and the device is unchanged, and the client receives exactly command \<open>c\<close> from that byte on and
  all later ones.  The kernel can read the argument of the \<open>ioctl\<close>.
\<close>

theorem seek_packet_answers:
  assumes "server_idle K N sock arr dl w lines pend" and "args_readable K" and "buf l = Some b"
    and "socket_file_descriptor t = sock" and "take 19 (drop (nat (start_ptr l)) b) = seek_command"
    and "sscanf_seekto (drop (nat (start_ptr l)) b) = Some (c, off)"
    and "out_offs (circular_buffer (dev (driver w))) = 0" and "unat c < length lines"
    and "unat off < length (lines ! unat c)"
  shows "\<exists>lab l' w'. char_packet (driver_sys K N) t n l w = Some (lab, l', w') \<and>
    (failed w' \<or> lab = None \<and> l' = l\<lparr>start_ptr := n\<rparr> \<and> server_idle K N sock arr dl w' lines pend \<and>
      dl (net_env w') = dl (net_env w) @ drop (unat off) (lines ! unat c) @ concat (drop (Suc (unat c)) lines))"
proof -
  let ?v = "\<lparr>v_lines = lines, v_pend = pend, v_files = (\<lambda>_. None), v_inbox = arr (net_env w), v_sent = dl (net_env w)\<rparr>"
  let ?b = "circular_buffer (dev (driver w))"
  define p where "p = sum_list (take (unat c) (map length lines)) + unat off"
  have K: "kernel_ok K" and rep: "dev_rep K (dev (driver w)) (kheap (wld (driver w))) lines pend"
    using assms(1) by (simp_all add: server_idle_def)
  have "ret_offset ?b c off = int p"
    using ret_offset_live [of ?b c off] dev_rep_sized [OF K rep] assms(7-9) dev_rep_lengths [OF rep]
      rep dev_rep_sizes [OF rep] by (simp add: dev_rep_def p_def)
  then have seek: "srv_seek w c off = Some p" by (simp add: srv_seek_def)
  have rest: "drop p (concat lines) = drop (unat off) (lines ! unat c) @ concat (drop (Suc (unat c)) lines)"
    using locate_concat [OF locate_at [of "unat c" "map length lines" "unat off"]] assms(8,9)
    by (simp add: p_def)
  have "r = 0" if "srv_rep K N sock arr dl w1 (at_pos fd 0 ?v)" "srv_seek w1 = srv_seek w"
    "ioctl_seekto (driver_sys K N) fd c off w1 = Some (r, w2)" for fd w1 r w2
    using srv_ioctl_succeeds [OF that(1) _ assms(2), of fd c off r w2 p] that(2,3) seek
    by (simp add: driver_sys_def at_pos_def)
  then have sure: "\<forall>fd w1 r w2. srv_rep K N sock arr dl w1 (at_pos fd 0 ?v) \<longrightarrow> srv_seek w1 = srv_seek w \<longrightarrow>
      ioctl_seekto (driver_sys K N) fd c off w1 = Some (r, w2) \<longrightarrow> r = 0" by blast
  from driver_server.char_packet_seeks_to [OF server_idle_rep [OF assms(1)] assms(3-6) seek sure, where n = n]
  obtain lab l' w' where run: "char_packet (driver_sys K N) t n l w = Some (lab, l', w')" and
    res: "lab = None \<and> l' = l\<lparr>start_ptr := n\<rparr> \<and> srv_rep K N sock arr dl w' (sent (drop p (concat lines)) ?v) \<or> failed w'"
    by auto
  have idle: "srv_rep K N sock arr dl w' (sent bs ?v) \<Longrightarrow>
      server_idle K N sock arr dl w' lines pend \<and> dl (net_env w') = dl (net_env w) @ bs" for bs
    using srv_rep_idle [of K N sock arr dl w' "sent bs ?v"] by simp
  show ?thesis using run res idle unfolding rest by blast
qed

definition seek_locals :: worker_locals where
  "seek_locals = \<lparr>num_bytes_read = 23, start_ptr = 0, buf_len = 0, buf_cap = 40,
     buf = Some (seek_command @ ''0,1'' @ [nl] @ replicate 17 NUL)\<rparr>"

definition loaded_world :: "(nat, byte list list \<times> byte list) server_world" where
  "loaded_world = (idle_world [])\<lparr>driver := loaded_driver\<rparr>"

lemma loaded_world_ok:
  "server_idle bump_kernel chunk_net 4 (\<lambda>(chunks, out). concat chunks) (\<lambda>(chunks, out). out)
     loaded_world [''ab'' @ [nl]] ''c''"
proof -
  have "nl \<notin> set ''c''" by (simp add: nl_def)
  then show ?thesis
    using idle_world_ok [of "[]"] loaded_driver_rep loaded_driver_unlocked
    by (simp add: server_idle_def loaded_world_def idle_world_def)
qed

theorem seek_packet_answers_witness:
  "\<exists>lab l' w'. char_packet (driver_sys bump_kernel chunk_net) connection 23 seek_locals loaded_world
      = Some (lab, l', w') \<and> lab = None \<and> snd (net_env w') = ''b'' @ [nl]"
proof -
  have run: "map_option (\<lambda>(lab, l, w). (lab, failed w, snd (net_env w)))
      (char_packet (driver_sys bump_kernel chunk_net) connection 23 seek_locals loaded_world)
      = Some (None, False, ''b'' @ [nl])"
    by code_simp
  have b: "buf seek_locals = Some (seek_command @ ''0,1'' @ [nl] @ replicate 17 NUL)"
    by (simp add: seek_locals_def)
  have facts: "take 19 (drop (nat (start_ptr seek_locals)) (seek_command @ ''0,1'' @ [nl] @ replicate 17 NUL)) = seek_command"
    "sscanf_seekto (drop (nat (start_ptr seek_locals)) (seek_command @ ''0,1'' @ [nl] @ replicate 17 NUL)) = Some (0, 1)"
    "out_offs (circular_buffer (dev (driver loaded_world))) = 0"
    by code_simp+
  have "args_readable bump_kernel" by (simp add: args_readable_def bump_kernel_def)
  from seek_packet_answers [OF loaded_world_ok this b connection_simps(2) facts, of 23] run
  show ?thesis by (auto simp: nl_def)
qed

text \<open>
  C16: when \<open>realloc\<close> fails for a full buffer, both threads free the old block and jump to \<open>free_mem\<close>,
  which frees it again: undefined behaviour, whatever the world does.
\<close>

theorem realloc_failure_double_free:
  assumes "curr_state t = Receive_From_Socket" and "buf l = Some old" and "buf_cap l = buf_len l"
    and "buf_cap l \<noteq> 0" and "realloc S old (nat (buf_cap l + int BUF_SIZE_UNIT)) w = (None, w1)"
  shows "\<exists>l1. worker_loop (receive_from_socket S) parse t l w = Some (Free_mem, t, l1, w1) \<and>
    buf l1 = None \<and> free_mem S t l1 w1 = None"
  using assms
  by (simp add: worker_loop.simps [of _ _ t l w] receive_from_socket_def grow_buffer_def Let_def free_mem_def)

theorem realloc_failure_double_free_witness:
  "\<exists>l1. worker_loop (receive_from_socket (driver_sys bump_kernel (chunk_net\<lparr>n_realloc := \<lambda>old n e. (None, e)\<rparr>)))
       (parse_data (char_packet (driver_sys bump_kernel chunk_net))) connection (seek_locals\<lparr>buf_len := 40\<rparr>) loaded_world
     = Some (Free_mem, connection, l1, loaded_world\<lparr>failed := True\<rparr>) \<and> buf l1 = None"
proof -
  let ?S = "driver_sys bump_kernel (chunk_net\<lparr>n_realloc := \<lambda>old n e. (None, e)\<rparr>)"
    and ?l = "seek_locals\<lparr>buf_len := 40\<rparr>"
  have "buf ?l = Some (the (buf ?l))" "buf_cap ?l = buf_len ?l" "buf_cap ?l \<noteq> 0"
    by (simp_all add: seek_locals_def)
  moreover have "realloc ?S old n loaded_world = (None, loaded_world\<lparr>failed := True\<rparr>)" for old n
    by (simp add: driver_sys_def)
  ultimately show ?thesis
    using realloc_failure_double_free [OF connection_simps(1), of ?l _ ?S loaded_world] by blast
qed

text \<open>
  \<open>start_ptr\<close> is set to the length of the packet instead of advanced by it, so from the third
  packet of a connection on the wrong bytes are taken.  Here the client sends \<open>aa\<close>, \<open>b\<close> and \<open>c\<close> as
  lines of their own; the device holds \<open>aa\<close>, \<open>b\<close> and an empty line, and \<open>c\<close> is lost.
\<close>

theorem third_packet_lost:
  "map_option (\<lambda>(t, l, w). (failed w, snd (net_env w)))
     (aesd_char_thread (driver_sys bump_kernel chunk_net) connection (idle_world [''aa'' @ [nl], ''b'' @ [nl], ''c'' @ [nl]]))
   = Some (False, (''aa'' @ [nl]) @ (''aa'' @ [nl] @ ''b'' @ [nl]) @ (''aa'' @ [nl] @ ''b'' @ [nl] @ [nl]))"
  by code_simp

text \<open>
  Only the first newline of each \<open>recv\<close> is looked for, so a second packet that arrives with the
  first one is not answered when the client then waits and closes.
\<close>

theorem second_packet_unanswered:
  "map_option (\<lambda>(t, l, w). (failed w, snd (net_env w)))
     (aesd_char_thread (driver_sys bump_kernel chunk_net) connection (idle_world [''a'' @ [nl] @ ''b'' @ [nl]]))
   = Some (False, ''a'' @ [nl])"
  by code_simp

end
