(* ===== verification/ConcurrentServer.thy ===== *)
theory ConcurrentServer
  imports DriverServer
begin

text \<open>
  Many connections at once: src/server/aesdsocket.c runs one \<open>aesd_char_thread\<close> per connection, and
  between any two system calls of one the others may make theirs.  A discipline says which calls a
  thread makes: on the file it has open, on its own socket, and only writes of whole lines.  The other
  threads' calls are any that keep it, at any time; that this thread keeps it too is proved along the
  way, because a call outside it has no result.  The thread's code is the same as before, run over
  system calls that let the others go first.
\<close>

section \<open>The discipline\<close>

datatype call =
    Open_log
  | Close_fd int
  | Write_fd int "byte list"
  | Read_fd int nat
  | Ioctl_seekto int u32 u32
  | Send_sock int "byte list"
  | Recv_sock int nat
  | Malloc_block nat
  | Realloc_block "byte list" nat

definition whole_line :: "byte list \<Rightarrow> bool" where
  "whole_line bs \<longleftrightarrow> bs \<noteq> [] \<and> last bs = nl \<and> nl \<notin> set (butlast bs) \<and> int (length bs) < 2 ^ 31"

text \<open>\<open>mine\<close> are the descriptors of files that the caller has open, \<open>socks\<close> its sockets.\<close>

fun disciplined :: "(int \<Rightarrow> bool) \<Rightarrow> (int \<Rightarrow> bool) \<Rightarrow> call \<Rightarrow> bool" where
  "disciplined mine socks Open_log \<longleftrightarrow> True"
| "disciplined mine socks (Close_fd fd) \<longleftrightarrow> mine fd \<or> socks fd"
| "disciplined mine socks (Write_fd fd bs) \<longleftrightarrow> mine fd \<and> whole_line bs"
| "disciplined mine socks (Read_fd fd n) \<longleftrightarrow> mine fd \<and> 0 < n \<and> int n < 2 ^ 31"
| "disciplined mine socks (Ioctl_seekto fd c off) \<longleftrightarrow> mine fd"
| "disciplined mine socks (Send_sock fd bs) \<longleftrightarrow> socks fd \<and> bs \<noteq> []"
| "disciplined mine socks (Recv_sock fd n) \<longleftrightarrow> socks fd \<and> 0 < n"
| "disciplined mine socks (Malloc_block n) \<longleftrightarrow> True"
| "disciplined mine socks (Realloc_block old n) \<longleftrightarrow> length old \<le> n"

lemma whole_line_snoc: "nl \<notin> set body \<Longrightarrow> length body < 2 ^ 31 - 1 \<Longrightarrow> whole_line (body @ [nl])"
  by (simp add: whole_line_def)

lemma whole_lineE:
  assumes "whole_line bs"
  obtains body where "bs = body @ [nl]" and "nl \<notin> set body" and "length body < 2 ^ 31 - 1"
proof
  show "bs = butlast bs @ [nl]" using assms append_butlast_last_id [of bs] by (simp add: whole_line_def)
  show "nl \<notin> set (butlast bs)" using assms by (simp add: whole_line_def)
  show "length (butlast bs) < 2 ^ 31 - 1" using assms by (cases bs) (auto simp: whole_line_def)
qed

section \<open>System calls with interference\<close>

text \<open>
  \<open>log_hist\<close> records, for the statements only, what was written to the log and whether by this thread;
  \<open>own\<close> is the descriptor that this thread has open.  A call outside the discipline, such as \<open>lseek\<close>,
  and a second \<open>open\<close> before the \<open>close\<close> have no result.
\<close>

type_synonym hist = "(bool \<times> byte list) list"

record 'w shared =
  base :: 'w
  log_hist :: hist
  own :: "int option"

definition guarded :: "int \<Rightarrow> 'w shared \<Rightarrow> call \<Rightarrow> 'a option \<Rightarrow> 'a option" where
  "guarded sock w c res =
     (if disciplined (\<lambda>fd. own w = Some fd) (\<lambda>fd. fd = sock) c \<and> (c = Open_log \<longrightarrow> own w = None) then res else None)"

definition interfered :: "('w shared \<Rightarrow> 'w shared) \<Rightarrow> int \<Rightarrow> 'w sys \<Rightarrow> 'w shared sys" where
  "interfered I sock S = \<lparr>
     open_log = (\<lambda>w. let w1 = I w in guarded sock w1 Open_log (Option.bind (open_log S (base w1)) (\<lambda>(fd, b).
       Some (fd, w1\<lparr>base := b, own := (if fd = -1 then None else Some fd)\<rparr>)))),
     close_fd = (\<lambda>fd w. let w1 = I w in guarded sock w1 (Close_fd fd) (Option.bind (close_fd S fd (base w1)) (\<lambda>b.
       Some (w1\<lparr>base := b, own := (if own w1 = Some fd then None else own w1)\<rparr>)))),
     write_fd = (\<lambda>fd bs w. let w1 = I w in guarded sock w1 (Write_fd fd bs)
       (Option.bind (write_fd S fd bs (base w1)) (\<lambda>(r, e, b).
       Some (r, e, w1\<lparr>base := b,
         log_hist := (if r > 0 then log_hist w1 @ [(True, take (nat r) bs)] else log_hist w1)\<rparr>)))),
     read_fd = (\<lambda>fd n w. let w1 = I w in guarded sock w1 (Read_fd fd n)
       (Option.bind (read_fd S fd n (base w1)) (\<lambda>(r, e, bs, b). Some (r, e, bs, w1\<lparr>base := b\<rparr>)))),
     lseek_start = (\<lambda>fd w. None),
     ioctl_seekto = (\<lambda>fd c off w. let w1 = I w in guarded sock w1 (Ioctl_seekto fd c off)
       (Option.bind (ioctl_seekto S fd c off (base w1)) (\<lambda>(r, b). Some (r, w1\<lparr>base := b\<rparr>)))),
     send_sock = (\<lambda>fd bs w. let w1 = I w in guarded sock w1 (Send_sock fd bs)
       (Option.bind (send_sock S fd bs (base w1)) (\<lambda>(r, e, b). Some (r, e, w1\<lparr>base := b\<rparr>)))),
     recv_sock = (\<lambda>fd n w. let w1 = I w in guarded sock w1 (Recv_sock fd n)
       (Option.bind (recv_sock S fd n (base w1)) (\<lambda>(r, bs, b). Some (r, bs, w1\<lparr>base := b\<rparr>)))),
     malloc = (\<lambda>n w. let w1 = I w; (res, b) = malloc S n (base w1) in (res, w1\<lparr>base := b\<rparr>)),
     realloc = (\<lambda>old n w. let w1 = I w; (res, b) = realloc S old n (base w1) in (res, w1\<lparr>base := b\<rparr>)),
     pthread_mutex_lock = (\<lambda>w. let w1 = I w; (r, b) = pthread_mutex_lock S (base w1) in (r, w1\<lparr>base := b\<rparr>)),
     pthread_mutex_trylock = (\<lambda>w. let w1 = I w; (r, b) = pthread_mutex_trylock S (base w1) in (r, w1\<lparr>base := b\<rparr>)),
     pthread_mutex_unlock = (\<lambda>w. let w1 = I w; (r, b) = pthread_mutex_unlock S (base w1) in (r, w1\<lparr>base := b\<rparr>))\<rparr>"

text \<open>
  The rely: the others append whole lines to the log, and record them, they open, close and move
  files other than the one this thread has open, and they leave this thread's socket alone.
\<close>

definition rely_at :: "('w \<Rightarrow> view \<Rightarrow> bool) \<Rightarrow> ('w \<Rightarrow> bool) \<Rightarrow> 'w shared \<Rightarrow> 'w shared \<Rightarrow> bool" where
  "rely_at rep bad w w' \<longleftrightarrow> own w' = own w \<and> bad (base w') = bad (base w) \<and>
     (\<forall>v. rep (base w) v \<longrightarrow> v_pend v = [] \<longrightarrow> (\<forall>fd. own w = Some fd \<longrightarrow> v_files v fd \<noteq> None) \<longrightarrow>
        (\<exists>ls fs. log_hist w' = log_hist w @ map (Pair False) ls \<and>
           (\<forall>fd. own w = Some fd \<longrightarrow> fs fd = v_files v fd) \<and>
           rep (base w') (v\<lparr>v_lines := last_n 10 (v_lines v @ ls), v_files := fs\<rparr>)))"

definition rely :: "('w \<Rightarrow> view \<Rightarrow> bool) \<Rightarrow> ('w \<Rightarrow> bool) \<Rightarrow> ('w shared \<Rightarrow> 'w shared) \<Rightarrow> bool" where
  "rely rep bad I \<longleftrightarrow> (\<forall>w. rely_at rep bad w (I w))"

section \<open>A thread among others\<close>

text \<open>
  What it needs beyond the contract of a thread alone: a write of a packet is one step, which either
  stores all of it or fails, and the log is small, so that reading it ends even while it changes.
\<close>

locale shared_log = log_server S rep bad sock "\<lambda>_. 0" seek_target
  for S :: "'w sys" and rep :: "'w \<Rightarrow> view \<Rightarrow> bool" and bad :: "'w \<Rightarrow> bool" and sock :: int
    and seek_target :: "'w \<Rightarrow> u32 \<Rightarrow> u32 \<Rightarrow> nat option" +
  assumes write_whole: "rep w v \<Longrightarrow> v_files v fd \<noteq> None \<Longrightarrow> bs \<noteq> [] \<Longrightarrow> count_list bs nl \<le> 1 \<Longrightarrow>
      length bs < 2 ^ 31 \<Longrightarrow> write_fd S fd bs w = Some (r, e, w') \<Longrightarrow> r = -1 \<or> r = int (length bs)"
    and log_small: "rep w v \<Longrightarrow> length (concat (v_lines v)) < 2 ^ 31"

text \<open>
  What a thread knows of the history of the log and of what its client was sent is a relation \<open>G\<close>
  between them; it can rely on it when appends of the others do not break it.
\<close>

definition stable :: "(hist \<Rightarrow> byte list \<Rightarrow> bool) \<Rightarrow> bool" where
  "stable G \<longleftrightarrow> (\<forall>h out ls. G h out \<longrightarrow> G (h @ map (Pair False) ls) out)"

lemma stableD: "stable G \<Longrightarrow> G h out \<Longrightarrow> G (h @ map (Pair False) ls) out"
  by (simp add: stable_def)

text \<open>It wrote \<open>pkt\<close>; it was given \<open>bs\<close> for position \<open>q\<close>; it sent \<open>bs\<close>.\<close>

definition wrote :: "byte list \<Rightarrow> (hist \<Rightarrow> byte list \<Rightarrow> bool) \<Rightarrow> hist \<Rightarrow> byte list \<Rightarrow> bool" where
  "wrote pkt G h out \<longleftrightarrow> (\<exists>h1 ls. h = h1 @ (True, pkt) # map (Pair False) ls \<and> G h1 out)"

text \<open>
  The bytes \<open>bs\<close> that reading the log from position \<open>p\<close> on gives while it grows from the lines \<open>l0\<close> to
  the lines \<open>l\<close>: whenever a piece is read, it is what the last ten lines hold at that moment after as many
  bytes as were read before.  A line that is dropped meanwhile moves the rest under the reader.
\<close>

inductive reads_out :: "nat \<Rightarrow> byte list list \<Rightarrow> byte list list \<Rightarrow> byte list \<Rightarrow> bool" for p l0 where
  reads_start: "reads_out p l0 l0 []"
| reads_grow: "reads_out p l0 l bs \<Longrightarrow> reads_out p l0 (l @ ls) bs"
| reads_piece: "reads_out p l0 l bs \<Longrightarrow> c = take (length c) (drop (p + length bs) (concat (last_n 10 l))) \<Longrightarrow>
    reads_out p l0 l (bs @ c)"

text \<open>A complete reply: the log was read until nothing was left in it.\<close>

definition full_reply :: "nat \<Rightarrow> byte list list \<Rightarrow> byte list list \<Rightarrow> byte list \<Rightarrow> bool" where
  "full_reply p l0 l bs \<longleftrightarrow> reads_out p l0 l bs \<and> length (concat (last_n 10 l)) \<le> p + length bs"

definition got :: "byte list list \<Rightarrow> nat \<Rightarrow> byte list \<Rightarrow> (hist \<Rightarrow> byte list \<Rightarrow> bool) \<Rightarrow> hist \<Rightarrow> byte list \<Rightarrow> bool" where
  "got L0 q bs G h out \<longleftrightarrow> (\<exists>h1 ls. h = h1 @ map (Pair False) ls \<and> G h1 out \<and>
     bs = take (length bs) (drop q (concat (last_n 10 (L0 @ map snd h1)))))"

definition gave :: "byte list \<Rightarrow> (hist \<Rightarrow> byte list \<Rightarrow> bool) \<Rightarrow> hist \<Rightarrow> byte list \<Rightarrow> bool" where
  "gave bs G h out \<longleftrightarrow> (\<exists>out0. G h out0 \<and> out = out0 @ bs)"

text \<open>It has copied up to position \<open>q\<close>, from \<open>p\<close> on; it has copied all there was.\<close>

definition copied :: "byte list list \<Rightarrow> nat \<Rightarrow> (hist \<Rightarrow> byte list \<Rightarrow> bool) \<Rightarrow> nat \<Rightarrow> hist \<Rightarrow> byte list \<Rightarrow> bool" where
  "copied L0 p G q h out \<longleftrightarrow> (\<exists>h0 out0 bs. G h0 out0 \<and> reads_out p (L0 @ map snd h0) (L0 @ map snd h) bs \<and>
     (\<exists>ls. h = h0 @ map (Pair False) ls) \<and> q = p + length bs \<and> out = out0 @ bs)"

definition replied :: "byte list list \<Rightarrow> nat \<Rightarrow> (hist \<Rightarrow> byte list \<Rightarrow> bool) \<Rightarrow> hist \<Rightarrow> byte list \<Rightarrow> bool" where
  "replied L0 p G h out \<longleftrightarrow> (\<exists>h0 seen later out0 bs. h = h0 @ map (Pair False) (seen @ later) \<and> G h0 out0 \<and>
     full_reply p (L0 @ map snd h0) (L0 @ map snd h0 @ seen) bs \<and> out = out0 @ bs)"

text \<open>A packet that is no seek command is written, and answered with the log.\<close>

definition handled :: "byte list list \<Rightarrow> byte list \<Rightarrow> (hist \<Rightarrow> byte list \<Rightarrow> bool) \<Rightarrow> hist \<Rightarrow> byte list \<Rightarrow> bool" where
  "handled L0 pkt G = (if take 19 pkt = seek_command then \<lambda>h out. \<exists>p. replied L0 p G h out
     else replied L0 0 (wrote pkt G))"

lemma stable_wrote [intro]: "stable (wrote pkt G)"
  unfolding stable_def wrote_def by (metis append.assoc append_Cons map_append)

lemma stable_got [intro]: "stable (got L0 q bs G)"
  unfolding stable_def got_def by (metis append.assoc map_append)

lemma stable_gave [intro]: "stable G \<Longrightarrow> stable (gave bs G)"
  unfolding stable_def gave_def by blast

lemma copied_grows: "copied L0 p G q h out \<Longrightarrow> copied L0 p G q (h @ map (Pair False) ls) out"
proof -
  assume "copied L0 p G q h out"
  then obtain h0 out0 bs ks where G: "G h0 out0" and r: "reads_out p (L0 @ map snd h0) (L0 @ map snd h) bs"
    and h: "h = h0 @ map (Pair False) ks" and q: "q = p + length bs" "out = out0 @ bs"
    unfolding copied_def by blast
  have "reads_out p (L0 @ map snd h0) (L0 @ map snd (h @ map (Pair False) ls)) bs"
    using reads_grow [OF r, of ls] by (simp add: comp_def)
  moreover have "h @ map (Pair False) ls = h0 @ map (Pair False) (ks @ ls)" using h by simp
  ultimately show ?thesis unfolding copied_def using G q by blast
qed

lemma stable_copied [intro]: "stable (copied L0 p G q)"
  unfolding stable_def by (blast intro: copied_grows)

lemma stable_replied [intro]: "stable (replied L0 p G)"
  unfolding stable_def replied_def by (metis append.assoc map_append)

lemma stable_handled [intro]: "stable (handled L0 pkt G)"
proof (cases "take 19 pkt = seek_command")
  case True
  then show ?thesis unfolding handled_def stable_def using stableD [OF stable_replied] by (simp, blast)
qed (simp add: handled_def stable_replied)

lemma copied_none: "G h out \<Longrightarrow> copied L0 p G p h out"
  unfolding copied_def by (intro exI [of _ h] exI [of _ out] exI [of _ "[]"]) (auto intro: reads_start exI [of _ "[]"])

lemma copied_more:
  assumes "gave bs (got L0 q bs (copied L0 p G q)) h out"
  shows "copied L0 p G (q + length bs) h out"
proof -
  obtain h1 ls out1 where h: "h = h1 @ map (Pair False) ls" and out: "out = out1 @ bs"
    and c: "copied L0 p G q h1 out1" and bs: "bs = take (length bs) (drop q (concat (last_n 10 (L0 @ map snd h1))))"
    using assms by (auto simp: gave_def got_def)
  from c obtain h0 out0 bs0 ks where "G h0 out0" and r: "reads_out p (L0 @ map snd h0) (L0 @ map snd h1) bs0"
    and "h1 = h0 @ map (Pair False) ks" and q: "q = p + length bs0" and "out1 = out0 @ bs0"
    unfolding copied_def by blast
  moreover from reads_piece [OF r bs [unfolded q]] have "reads_out p (L0 @ map snd h0) (L0 @ map snd h1) (bs0 @ bs)" .
  ultimately have "copied L0 p G (q + length bs) h1 out"
    unfolding copied_def out by (intro exI [of _ h0] exI [of _ out0] exI [of _ "bs0 @ bs"]) auto
  then show ?thesis unfolding h by (rule copied_grows)
qed

lemma copied_all:
  assumes "copied L0 p G q h out" and "length (concat (last_n 10 (L0 @ map snd h))) \<le> q"
  shows "replied L0 p G h out"
proof -
  obtain h0 out0 bs ls where G: "G h0 out0" and r: "reads_out p (L0 @ map snd h0) (L0 @ map snd h) bs"
    and h: "h = h0 @ map (Pair False) ls" and q: "q = p + length bs" "out = out0 @ bs"
    using assms(1) unfolding copied_def by blast
  have "map snd h = map snd h0 @ ls" by (simp add: h comp_def)
  with r assms(2) q have "full_reply p (L0 @ map snd h0) (L0 @ map snd h0 @ ls) bs" by (simp add: full_reply_def)
  then show ?thesis
    unfolding replied_def using G h q(2)
    by (intro exI [of _ h0] exI [of _ ls] exI [of _ "[]"] exI [of _ out0] exI [of _ bs]) simp
qed

text \<open>From the start of the log, as long as it does not change or no line is dropped, a prefix of it.\<close>

lemma reads_prefix:
  "reads_out 0 l0 l bs \<Longrightarrow> (\<exists>ls. l = l0 @ ls) \<and>
     (l = l0 \<or> length l \<le> 10 \<longrightarrow> bs = take (length bs) (concat (last_n 10 l)))"
proof (induction rule: reads_out.induct)
  case reads_start
  then show ?case by simp
next
  case (reads_grow l bs ls)
  then obtain ks where l: "l = l0 @ ks" by blast
  have "bs = take (length bs) (concat (last_n 10 (l @ ls)))" if "length (l @ ls) \<le> 10"
  proof -
    have short: "last_n 10 l = l" "last_n 10 (l @ ls) = l @ ls" using that by (simp_all add: last_n_def)
    have bs: "bs = take (length bs) (concat l)" using reads_grow.IH that short by simp
    then have "length bs \<le> length (concat l)" by (metis length_take min.cobounded1 nat_le_linear take_all_iff)
    then show ?thesis using bs by (simp add: short)
  qed
  then show ?case using reads_grow.IH l by (cases "ls = []") auto
next
  case (reads_piece l bs c)
  let ?all = "concat (last_n 10 l)"
  have "bs @ c = take (length (bs @ c)) ?all" if "l = l0 \<or> length l \<le> 10"
  proof -
    have "bs = take (length bs) ?all" using reads_piece.IH that by blast
    moreover have "c = take (length c) (drop (length bs) ?all)" using reads_piece.hyps(2) by simp
    ultimately show ?thesis unfolding length_append take_add by argo
  qed
  then show ?case using reads_piece.IH by blast
qed

lemma reply_whole:
  assumes "full_reply 0 l0 l bs" and "l = l0 \<or> length l \<le> 10"
  shows "bs = concat (last_n 10 l)"
proof -
  have "bs = take (length bs) (concat (last_n 10 l))" "length (concat (last_n 10 l)) \<le> length bs"
    using assms reads_prefix [of l0 l bs] by (auto simp: full_reply_def)
  then show ?thesis by simp
qed

lemma reads_earlier: "reads_out p (l0 @ ls) l bs \<Longrightarrow> reads_out p l0 l bs"
  by (induction rule: reads_out.induct) (auto intro: reads_out.intros)

context shared_log
begin

text \<open>
  The thread's knowledge: the file it has open and where (\<open>p\<close>), the bytes still to arrive (\<open>ib\<close>), and
  \<open>G\<close>.  The log is the last ten lines of what it held at first (\<open>L0\<close>) and of all that was written since.
\<close>

definition crep :: "byte list list \<Rightarrow> 'w shared \<Rightarrow> (hist \<Rightarrow> byte list \<Rightarrow> bool) \<Rightarrow> (int \<times> nat) option \<Rightarrow> byte list \<Rightarrow> bool" where
  "crep L0 w G p ib \<longleftrightarrow> own w = map_option fst p \<and>
     (\<exists>v. rep (base w) v \<and> v_pend v = [] \<and> v_lines v = last_n 10 (L0 @ map snd (log_hist w)) \<and>
        v_inbox v = ib \<and> (\<forall>fd q. p = Some (fd, q) \<longrightarrow> v_files v fd = Some q) \<and> G (log_hist w) (v_sent v))"

text \<open>After a call failed it knows only what it has open.\<close>

definition broken :: "int option \<Rightarrow> 'w shared \<Rightarrow> bool" where
  "broken p w \<longleftrightarrow> bad (base w) \<and> own w = p"

lemma crepE:
  assumes "crep L0 w G p ib"
  obtains v where "rep (base w) v" and "v_pend v = []" and "v_lines v = last_n 10 (L0 @ map snd (log_hist w))"
    and "v_inbox v = ib" and "\<forall>fd q. p = Some (fd, q) \<longrightarrow> v_files v fd = Some q"
    and "own w = map_option fst p" and "G (log_hist w) (v_sent v)"
  using assms unfolding crep_def by blast

lemma crepI:
  assumes "rep (base w) v" and "v_pend v = []" and "v_lines v = last_n 10 (L0 @ map snd (log_hist w))"
    and "v_inbox v = ib" and "\<forall>fd q. p = Some (fd, q) \<longrightarrow> v_files v fd = Some q"
    and "own w = map_option fst p" and "G (log_hist w) (v_sent v)"
  shows "crep L0 w G p ib"
  using assms unfolding crep_def by blast

lemma crep_weaken: "crep L0 w G p ib \<Longrightarrow> (\<And>h out. G h out \<Longrightarrow> G' h out) \<Longrightarrow> crep L0 w G' p ib"
  unfolding crep_def by blast

text \<open>The steps of the others do not change it.\<close>

lemma others_step:
  assumes "rely rep bad I" and "crep L0 w G p ib" and "stable G"
  shows "crep L0 (I w) G p ib"
proof -
  obtain v where v: "rep (base w) v" "v_pend v = []" "v_lines v = last_n 10 (L0 @ map snd (log_hist w))"
    "v_inbox v = ib" "\<forall>fd q. p = Some (fd, q) \<longrightarrow> v_files v fd = Some q"
    "own w = map_option fst p" "G (log_hist w) (v_sent v)"
    using assms(2) by (rule crepE)
  have opened: "\<forall>fd. own w = Some fd \<longrightarrow> v_files v fd \<noteq> None" using v(5,6) by auto
  have "own (I w) = own w" using assms(1) by (simp add: rely_def rely_at_def)
  moreover from assms(1) v(1,2) opened obtain ls fs where "log_hist (I w) = log_hist w @ map (Pair False) ls"
    and "\<forall>fd. own w = Some fd \<longrightarrow> fs fd = v_files v fd"
    and "rep (base (I w)) (v\<lparr>v_lines := last_n 10 (v_lines v @ ls), v_files := fs\<rparr>)"
    unfolding rely_def rely_at_def by blast
  ultimately show ?thesis
    using v stableD [OF assms(3) v(7), of ls]
    by (intro crepI [of _ "v\<lparr>v_lines := last_n 10 (v_lines v @ ls), v_files := fs\<rparr>"])
      (auto simp: last_n_last_n_append comp_def)
qed

lemma others_stepE:
  assumes "rely rep bad I" and "crep L0 w G p ib" and "stable G"
  obtains v where "rep (base (I w)) v" and "v_pend v = []" and "v_lines v = last_n 10 (L0 @ map snd (log_hist (I w)))"
    and "v_inbox v = ib" and "\<forall>fd q. p = Some (fd, q) \<longrightarrow> v_files v fd = Some q"
    and "own (I w) = map_option fst p" and "G (log_hist (I w)) (v_sent v)"
  using others_step [OF assms] by (rule crepE)

lemma rely_own: "rely rep bad I \<Longrightarrow> own (I w) = own w"
  and rely_bad: "rely rep bad I \<Longrightarrow> bad (base (I w)) = bad (base w)"
  by (simp_all add: rely_def rely_at_def)

section \<open>Each call, after the others\<close>

lemma open_shared:
  assumes I: "rely rep bad I" and k: "crep L0 w G None ib" and G: "stable G"
  shows "\<exists>fd w'. open_log (interfered I sock S) w = Some (fd, w') \<and>
    (fd = -1 \<and> broken None w' \<or> fd \<noteq> -1 \<and> fd \<noteq> sock \<and> crep L0 w' G (Some (fd, 0)) ib)"
proof -
  obtain v where v: "rep (base (I w)) v" "v_pend v = []" "v_lines v = last_n 10 (L0 @ map snd (log_hist (I w)))"
    "v_inbox v = ib" "own (I w) = None" "G (log_hist (I w)) (v_sent v)"
    by (rule others_stepE [OF I k G]) simp
  from open_law [OF v(1)] obtain fd b where run: "open_log S (base (I w)) = Some (fd, b)"
    and b: "fd = -1 \<and> bad b \<or> fd \<noteq> -1 \<and> fd \<noteq> sock \<and> rep b (at_pos fd 0 v)" by blast
  have "crep L0 ((I w)\<lparr>base := b, own := Some fd\<rparr>) G (Some (fd, 0)) ib" if "rep b (at_pos fd 0 v)"
    using that v by (intro crepI [of _ "at_pos fd 0 v"]) auto
  then show ?thesis using run b v(5) by (auto simp: interfered_def guarded_def Let_def broken_def)
qed

lemma close_shared:
  assumes I: "rely rep bad I" and fd: "own w = Some fd \<or> fd = sock"
  shows "\<exists>w'. close_fd (interfered I sock S) fd w = Some w' \<and> (bad (base w) \<longrightarrow> bad (base w')) \<and>
    own w' = (if own w = Some fd then None else own w) \<and>
    (\<forall>L0 G q ib. stable G \<longrightarrow> crep L0 w G (Some (fd, q)) ib \<longrightarrow> crep L0 w' G None ib) \<and>
    (\<forall>L0 G ib. stable G \<longrightarrow> crep L0 w G None ib \<longrightarrow> crep L0 w' G None ib)"
proof -
  obtain b where run: "close_fd S fd (base (I w)) = Some b" and bad: "bad (base (I w)) \<longrightarrow> bad b"
    and b: "\<forall>v. rep (base (I w)) v \<longrightarrow> rep b (v\<lparr>v_files := (v_files v)(fd := None)\<rparr>)"
    using close_law by blast
  let ?w = "(I w)\<lparr>base := b, own := (if own (I w) = Some fd then None else own (I w))\<rparr>"
  have "crep L0 ?w G None ib"
    if G: "stable G" and k: "crep L0 w G p ib" and p: "p = None \<or> (\<exists>q. p = Some (fd, q))" for L0 G p ib
  proof -
    obtain v where v: "rep (base (I w)) v" "v_pend v = []" "v_lines v = last_n 10 (L0 @ map snd (log_hist (I w)))"
      "v_inbox v = ib" "own (I w) = map_option fst p" "G (log_hist (I w)) (v_sent v)"
      by (rule others_stepE [OF I k G]) blast
    show ?thesis
      by (rule crepI [of _ "v\<lparr>v_files := (v_files v)(fd := None)\<rparr>"]) (use v b p in auto)
  qed
  then show ?thesis
    using run bad fd unfolding interfered_def guarded_def by (simp add: Let_def rely_bad [OF I] rely_own [OF I])
qed

lemma write_shared:
  assumes I: "rely rep bad I" and k: "crep L0 w G (Some (fd, q)) ib" and G: "stable G"
    and body: "nl \<notin> set body" and small: "length body < 2 ^ 31 - 1"
  shows "\<exists>r e w'. write_fd (interfered I sock S) fd (body @ [nl]) w = Some (r, e, w') \<and>
    (r = -1 \<and> e \<noteq> EINTR \<and> broken (Some fd) w' \<or>
     r = int (length (body @ [nl])) \<and> crep L0 w' (wrote (body @ [nl]) G) (Some (fd, q)) ib)"
proof -
  let ?pkt = "body @ [nl]"
  obtain v where v: "rep (base (I w)) v" "v_pend v = []" "v_lines v = last_n 10 (L0 @ map snd (log_hist (I w)))"
    "v_inbox v = ib" "\<forall>f p. Some (fd, q) = Some (f, p) \<longrightarrow> v_files v f = Some p"
    "own (I w) = map_option fst (Some (fd, q))" "G (log_hist (I w)) (v_sent v)"
    by (rule others_stepE [OF I k G])
  have pkt: "?pkt \<noteq> []" "count_list ?pkt nl \<le> 1" "length ?pkt < 2 ^ 31" and opened: "v_files v fd \<noteq> None"
    using body small v(5) by (simp_all add: count_list_0_iff)
  obtain r e b where run: "write_fd S fd ?pkt (base (I w)) = Some (r, e, b)"
    and r: "r = -1 \<and> e \<noteq> EINTR \<and> bad b \<or> 0 < r \<and> rep b (accept_view v (take (nat r) ?pkt))"
    using write_law [OF v(1) opened pkt] by (auto split: if_splits)
  have whole: "r = -1 \<or> r = int (length ?pkt)" by (rule write_whole [OF v(1) opened pkt run])
  have "accept_bytes (v_lines v) [] ?pkt = (last_n 10 (v_lines v @ [?pkt]), [])"
    using accept_one [of "[]" body "[]" "v_lines v"] body by simp
  then have acc: "accept_view v ?pkt = v\<lparr>v_lines := last_n 10 (v_lines v @ [?pkt]), v_pend := []\<rparr>"
    using v(2) by (simp add: accept_view_def)
  let ?w = "(I w)\<lparr>base := b, log_hist := log_hist (I w) @ [(True, ?pkt)]\<rparr>"
  have "wrote ?pkt G (log_hist (I w) @ [(True, ?pkt)]) (v_sent v)" using v(7) by (auto simp: wrote_def)
  then have "crep L0 ?w (wrote ?pkt G) (Some (fd, q)) ib" if "rep b (accept_view v ?pkt)"
    by (intro crepI [of _ "accept_view v ?pkt"]) (use that v in \<open>auto simp: acc last_n_last_n_append\<close>)
  then show ?thesis
    using run r whole v(6) whole_line_snoc [OF body small]
    by (auto simp: interfered_def guarded_def Let_def broken_def)
qed

lemma read_shared:
  assumes I: "rely rep bad I" and k: "crep L0 w G (Some (fd, q)) ib" and G: "stable G" and n: "0 < n" "n < 2 ^ 31"
  shows "\<exists>r e bs w'. read_fd (interfered I sock S) fd n w = Some (r, e, bs, w') \<and>
    (r = -1 \<and> e \<noteq> EINTR \<and> broken (Some fd) w' \<or>
     r = 0 \<and> (\<exists>q'. crep L0 w' (\<lambda>h out. G h out \<and> length (concat (last_n 10 (L0 @ map snd h))) \<le> q) (Some (fd, q')) ib) \<or>
     0 < r \<and> r \<le> int n \<and> length bs = nat r \<and> q + nat r < 2 ^ 31 \<and> crep L0 w' (got L0 q bs G) (Some (fd, q + nat r)) ib)"
proof -
  obtain v where v: "rep (base (I w)) v" "v_pend v = []" "v_lines v = last_n 10 (L0 @ map snd (log_hist (I w)))"
    "v_inbox v = ib" "\<forall>f p. Some (fd, q) = Some (f, p) \<longrightarrow> v_files v f = Some p"
    "own (I w) = map_option fst (Some (fd, q))" "G (log_hist (I w)) (v_sent v)"
    by (rule others_stepE [OF I k G])
  have at: "v_files v fd = Some q" using v(5) by simp
  from read_law [OF v(1) at n] obtain r e bs b where run: "read_fd S fd n (base (I w)) = Some (r, e, bs, b)"
    and r: "r = -1 \<and> (if e = EINTR then rep b v \<and> (0 :: nat) < 0 else bad b) \<or>
      r = 0 \<and> drop q (concat (v_lines v)) = [] \<and> (\<exists>p'. rep b (at_pos fd p' v)) \<or>
      0 < r \<and> r \<le> int n \<and> q + nat r \<le> length (concat (v_lines v)) \<and>
        bs = take (nat r) (drop q (concat (v_lines v))) \<and> rep b (at_pos fd (q + nat r) v)"
    by blast
  have "crep L0 ((I w)\<lparr>base := b\<rparr>) G' (Some (fd, p)) ib"
    if "rep b (at_pos fd p v)" "G' (log_hist (I w)) (v_sent v)" for p G'
    by (rule crepI [of _ "at_pos fd p v"]) (use that v in auto)
  note know = this [where G' = "\<lambda>h out. G h out \<and> length (concat (last_n 10 (L0 @ map snd h))) \<le> q"]
    this [where G' = "got L0 q bs G"]
  have guard: "read_fd (interfered I sock S) fd n w = Some (r, e, bs, (I w)\<lparr>base := b\<rparr>)"
    using run n v(6) by (simp add: interfered_def guarded_def Let_def)
  from r show ?thesis
  proof (elim disjE)
    assume z: "r = 0 \<and> drop q (concat (v_lines v)) = [] \<and> (\<exists>p'. rep b (at_pos fd p' v))"
    then have "length (concat (last_n 10 (L0 @ map snd (log_hist (I w))))) \<le> q" using v(3) by simp
    then show ?thesis using z know(1) v(7) guard by blast
  next
    assume p: "0 < r \<and> r \<le> int n \<and> q + nat r \<le> length (concat (v_lines v)) \<and>
        bs = take (nat r) (drop q (concat (v_lines v))) \<and> rep b (at_pos fd (q + nat r) v)"
    then have "nat r \<le> length (concat (v_lines v)) - q" by linarith
    then have len: "length bs = nat r" using p by simp
    have "bs = take (length bs) (drop q (concat (last_n 10 (L0 @ map snd (log_hist (I w))))))"
      using p len v(3) by simp
    then have "got L0 q bs G (log_hist (I w)) (v_sent v)"
      using v(7) unfolding got_def by (intro exI [of _ "log_hist (I w)"] exI [of _ "[]"]) simp
    then show ?thesis using p len know(2) guard log_small [OF v(1)] by auto
  qed (use guard v(6) in \<open>auto simp: broken_def split: if_splits\<close>)
qed

lemma send_shared:
  assumes I: "rely rep bad I" and k: "crep L0 w G p ib" and G: "stable G" and bs: "bs \<noteq> []" "length bs < 2 ^ 31"
  shows "\<exists>r e w'. send_sock (interfered I sock S) sock bs w = Some (r, e, w') \<and>
    (r = -1 \<and> broken (map_option fst p) w' \<or>
     0 < r \<and> nat r \<le> length bs \<and> crep L0 w' (gave (take (nat r) bs) G) p ib)"
proof -
  obtain v where v: "rep (base (I w)) v" "v_pend v = []" "v_lines v = last_n 10 (L0 @ map snd (log_hist (I w)))"
    "v_inbox v = ib" "\<forall>f q. p = Some (f, q) \<longrightarrow> v_files v f = Some q"
    "own (I w) = map_option fst p" "G (log_hist (I w)) (v_sent v)"
    by (rule others_stepE [OF I k G])
  from send_law [OF v(1) bs] obtain r e b where run: "send_sock S sock bs (base (I w)) = Some (r, e, b)"
    and r: "r = -1 \<and> bad b \<or> 0 < r \<and> nat r \<le> length bs \<and> rep b (sent (take (nat r) bs) v)" by blast
  have "crep L0 ((I w)\<lparr>base := b\<rparr>) (gave (take (nat r) bs) G) p ib" if "rep b (sent (take (nat r) bs) v)"
    by (rule crepI [of _ "sent (take (nat r) bs) v"]) (use that v in \<open>auto simp: gave_def\<close>)
  then show ?thesis using run r bs(1) v(6) by (auto simp: interfered_def guarded_def Let_def broken_def)
qed

lemma ioctl_shared:
  assumes I: "rely rep bad I" and k: "crep L0 w G (Some (fd, q)) ib" and G: "stable G"
  shows "\<exists>r w' q'. ioctl_seekto (interfered I sock S) fd c off w = Some (r, w') \<and> crep L0 w' G (Some (fd, q')) ib"
proof -
  obtain v where v: "rep (base (I w)) v" "v_pend v = []" "v_lines v = last_n 10 (L0 @ map snd (log_hist (I w)))"
    "v_inbox v = ib" "\<forall>f p. Some (fd, q) = Some (f, p) \<longrightarrow> v_files v f = Some p"
    "own (I w) = map_option fst (Some (fd, q))" "G (log_hist (I w)) (v_sent v)"
    by (rule others_stepE [OF I k G])
  have at: "v_files v fd = Some q" using v(5) by simp
  from ioctl_law [OF v(1) at, of c off] obtain r b p where run: "ioctl_seekto S fd c off (base (I w)) = Some (r, b)"
    and b: "rep b (at_pos fd p v)"
    using at_pos_same [OF at] by (auto split: option.splits) metis+
  have "crep L0 ((I w)\<lparr>base := b\<rparr>) G (Some (fd, p)) ib"
    by (rule crepI [of _ "at_pos fd p v"]) (use b v in auto)
  then show ?thesis using run v(6) by (auto simp: interfered_def guarded_def Let_def)
qed

end

section \<open>The loops and the packet\<close>

lemma gave_Nil: "G h out \<Longrightarrow> gave [] G h out"
  by (simp add: gave_def)

lemma gave_append: "gave ys (gave xs G) h out \<Longrightarrow> gave (xs @ ys) G h out"
  by (auto simp: gave_def)

context shared_log
begin

lemma send_loop_shared:
  assumes I: "rely rep bad I"
  shows "crep L0 w G p ib \<Longrightarrow> stable G \<Longrightarrow> length bs < 2 ^ 31 \<Longrightarrow>
    \<exists>r w'. send_loop (send_sock (interfered I sock S) sock) bs w = Some (r, w') \<and>
      (r = 0 \<and> crep L0 w' (gave bs G) p ib \<or> r = -1 \<and> broken (map_option fst p) w')"
proof (induction "length bs" arbitrary: bs w G rule: less_induct)
  case less
  show ?case
  proof (cases "bs = []")
    case True
    then show ?thesis using crep_weaken [OF less.prems(1) gave_Nil] by (simp add: send_loop.simps)
  next
    case False
    from send_shared [OF I less.prems(1,2) False less.prems(3)] obtain r e w1
      where run: "send_sock (interfered I sock S) sock bs w = Some (r, e, w1)"
      and r: "r = -1 \<and> broken (map_option fst p) w1 \<or>
        0 < r \<and> nat r \<le> length bs \<and> crep L0 w1 (gave (take (nat r) bs) G) p ib" by blast
    show ?thesis
    proof (cases "r = -1")
      case True
      then show ?thesis using run r False by (simp add: send_loop.simps [of _ bs])
    next
      case ok: False
      with r have shorter: "length (drop (nat r) bs) < length bs" and "crep L0 w1 (gave (take (nat r) bs) G) p ib"
        using False by auto
      moreover from this(1) have "length (drop (nat r) bs) < 2 ^ 31" using less.prems(3) by linarith
      ultimately obtain s w2 where "send_loop (send_sock (interfered I sock S) sock) (drop (nat r) bs) w1 = Some (s, w2)"
        and "s = 0 \<and> crep L0 w2 (gave (drop (nat r) bs) (gave (take (nat r) bs) G)) p ib \<or>
          s = -1 \<and> broken (map_option fst p) w2"
        using less.hyps [OF shorter] less.prems(2) by blast
      moreover have "gave bs G h out" if "gave (drop (nat r) bs) (gave (take (nat r) bs) G) h out" for h out
        using gave_append [OF that] by simp
      ultimately show ?thesis
        using run ok False by (auto simp: send_loop.simps [of _ bs] intro: crep_weaken)
    qed
  qed
qed

text \<open>
  The copy to the client ends although the log may grow under it: every turn moves the position
  forward, and no position within a log reaches \<open>2 ^ 31\<close>.  \<open>C q\<close> is what is known with \<open>q\<close> bytes copied.
\<close>

lemma echo_shared:
  assumes I: "rely rep bad I" and stable: "\<And>q. stable (C q)"
    and more: "\<And>q bs h out. gave bs (got L0 q bs (C q)) h out \<Longrightarrow> C (q + length bs) h out"
    and all: "\<And>q h out. C q h out \<Longrightarrow> length (concat (last_n 10 (L0 @ map snd h))) \<le> q \<Longrightarrow> D h out"
  shows "crep L0 w (C q) (Some (fd, q)) ib \<Longrightarrow>
    \<exists>r w'. echo_file_socket (read_fd (interfered I sock S) fd) (send_sock (interfered I sock S) sock) w = Some (r, w') \<and>
      (r = 0 \<and> (\<exists>q'. crep L0 w' D (Some (fd, q')) ib) \<or> r = -1 \<and> broken (Some fd) w')"
proof (induction "2 ^ 31 - q" arbitrary: q w rule: less_induct)
  case less
  let ?echo = "echo_file_socket (read_fd (interfered I sock S) fd) (send_sock (interfered I sock S) sock)"
  have "0 < BUF_SIZE_UNIT" "BUF_SIZE_UNIT < 2 ^ 31" by (simp_all add: BUF_SIZE_UNIT_def)
  from read_shared [OF I less.prems stable this] obtain r e bs w1
    where rd: "read_fd (interfered I sock S) fd BUF_SIZE_UNIT w = Some (r, e, bs, w1)"
    and r: "r = -1 \<and> e \<noteq> EINTR \<and> broken (Some fd) w1 \<or>
     r = 0 \<and> (\<exists>q'. crep L0 w1 (\<lambda>h out. C q h out \<and> length (concat (last_n 10 (L0 @ map snd h))) \<le> q) (Some (fd, q')) ib) \<or>
     0 < r \<and> r \<le> int BUF_SIZE_UNIT \<and> length bs = nat r \<and> q + nat r < 2 ^ 31 \<and>
       crep L0 w1 (got L0 q bs (C q)) (Some (fd, q + nat r)) ib" by blast
  note unfold = echo_file_socket.simps [of "read_fd (interfered I sock S) fd" "send_sock (interfered I sock S) sock" w]
  from r show ?case
  proof (elim disjE conjE exE)
    assume pos: "0 < r" "length bs = nat r" "q + nat r < 2 ^ 31"
      and k: "crep L0 w1 (got L0 q bs (C q)) (Some (fd, q + nat r)) ib"
    then have "length bs < 2 ^ 31" by simp
    from send_loop_shared [OF I k stable_got this] obtain s w2
      where send: "send_loop (send_sock (interfered I sock S) sock) bs w1 = Some (s, w2)"
      and s: "s = 0 \<and> crep L0 w2 (gave bs (got L0 q bs (C q))) (Some (fd, q + nat r)) ib \<or>
        s = -1 \<and> broken (Some fd) w2" by auto
    have "crep L0 w2 (C (q + nat r)) (Some (fd, q + nat r)) ib" if "s = 0"
      using s that more [of bs q] pos(2) by (auto intro: crep_weaken)
    moreover have "2 ^ 31 - (q + nat r) < 2 ^ 31 - q" using pos by linarith
    ultimately show ?thesis
      using less.hyps s rd send unfold pos(1) by (cases "s = -1") auto
  next
    fix q'
    assume z: "r = 0"
      and k: "crep L0 w1 (\<lambda>h out. C q h out \<and> length (concat (last_n 10 (L0 @ map snd h))) \<le> q) (Some (fd, q')) ib"
    have "crep L0 w1 D (Some (fd, q')) ib" by (rule crep_weaken [OF k]) (auto intro: all)
    then show ?thesis using z rd unfold by auto
  qed (use rd unfold in auto)
qed

text \<open>From wherever the file is, what is sent is a complete reply.\<close>

lemma echo_log_shared:
  assumes "rely rep bad I" and "stable G" and "crep L0 w G (Some (fd, p)) ib"
  shows "\<exists>r w'. echo_file_socket (read_fd (interfered I sock S) fd) (send_sock (interfered I sock S) sock) w = Some (r, w') \<and>
      (r = 0 \<and> (\<exists>q'. crep L0 w' (replied L0 p G) (Some (fd, q')) ib) \<or> r = -1 \<and> broken (Some fd) w')"
  by (rule echo_shared [where C = "copied L0 p G"])
    (use assms in \<open>auto intro: copied_more copied_all crep_weaken [OF assms(3)] copied_none\<close>)

text \<open>One write stores the whole packet, so \<open>dump_content\<close> does.\<close>

lemma dump_shared:
  assumes I: "rely rep bad I" and k: "crep L0 w G (Some (fd, q)) ib" and G: "stable G"
    and body: "nl \<notin> set body" and small: "length body < 2 ^ 31 - 1"
    and mem: "take (length (body @ [nl])) b = body @ [nl]"
  shows "\<exists>r w'. dump_content (write_fd (interfered I sock S) fd) b (int (length (body @ [nl]))) w = Some (r, w') \<and>
    (r = 0 \<and> crep L0 w' (wrote (body @ [nl]) G) (Some (fd, q)) ib \<or> r = -1 \<and> broken (Some fd) w')"
proof -
  let ?wr = "write_fd (interfered I sock S) fd" and ?n = "int (length (body @ [nl]))"
  have mem': "take (nat ?n) b = body @ [nl]" using mem by (simp only: nat_int)
  from write_shared [OF I k G body small] obtain r e w1 where run: "?wr (body @ [nl]) w = Some (r, e, w1)"
    and r: "r = -1 \<and> e \<noteq> EINTR \<and> broken (Some fd) w1 \<or>
      r = ?n \<and> crep L0 w1 (wrote (body @ [nl]) G) (Some (fd, q)) ib" by blast
  have "dump_content ?wr b' 0 w1 = Some (0, w1)" for b' by (simp add: dump_content.simps)
  then have "dump_content ?wr b ?n w = (if r = -1 then Some (-1, w1) else Some (0, w1))"
    using run r mem' by (subst dump_content.simps) auto
  then show ?thesis using r by auto
qed

text \<open>What is done with the packet once the log is open: a seek command moves the file, any other is written.\<close>

lemma request_shared:
  assumes I: "rely rep bad I" and k: "crep L0 w G (Some (fd, 0)) ib" and G: "stable G"
    and body: "nl \<notin> set body" and small: "length body < 2 ^ 31 - 1"
    and mem: "take (length (body @ [nl])) b = body @ [nl]"
  shows "\<exists>r w'. (if take 19 b = seek_command then run_seek_command (interfered I sock S) fd b w
        else dump_content (write_fd (interfered I sock S) fd) b (int (length (body @ [nl]))) w) = Some (r, w') \<and>
    (r = -1 \<and> broken (Some fd) w' \<or> r = 0 \<and>
     (\<exists>s w''. echo_file_socket (read_fd (interfered I sock S) fd) (send_sock (interfered I sock S) sock) w' = Some (s, w'') \<and>
      (s = 0 \<and> (\<exists>q'. crep L0 w'' (handled L0 (body @ [nl]) G) (Some (fd, q')) ib) \<or> s = -1 \<and> broken (Some fd) w'')))"
proof (cases "take 19 (body @ [nl]) = seek_command")
  case False
  then have "take 19 b \<noteq> seek_command" using plain_memory mem by blast
  with dump_shared [OF I k G body small mem] echo_log_shared [OF I stable_wrote] False show ?thesis
    unfolding handled_def by fastforce
next
  case True
  then have "19 \<le> length (body @ [nl])" by (auto simp: seek_command_def dest: arg_cong [where f = length])
  then have "take 19 b = take 19 (take (length (body @ [nl])) b)" by (simp only: take_take min.absorb1)
  then have cmd: "take 19 b = seek_command" using True unfolding mem by simp
  have "\<exists>w' q'. run_seek_command (interfered I sock S) fd b w = Some (0, w') \<and> crep L0 w' G (Some (fd, q')) ib"
  proof (cases "sscanf_seekto b")
    case None
    then show ?thesis using k by (auto simp: run_seek_command_def)
  next
    case (Some req)
    then show ?thesis
      using ioctl_shared [OF I k G, of "fst req" "snd req"] by (force simp: run_seek_command_def split: prod.splits)
  qed
  then obtain w' q' where seek: "run_seek_command (interfered I sock S) fd b w = Some (0, w')"
    and k': "crep L0 w' G (Some (fd, q')) ib" by blast
  have "crep L0 w'' (handled L0 (body @ [nl]) G) p ib" if "crep L0 w'' (replied L0 q' G) p ib" for w'' p
    using True by (intro crep_weaken [OF that]) (auto simp: handled_def)
  with echo_log_shared [OF I G k'] seek cmd show ?thesis by (simp, blast)
qed

text \<open>A packet: its request, and then the log is copied.  The jumps out of it leave open what their label closes.\<close>

definition left_open :: "label \<Rightarrow> int option" where
  "left_open lb = (case lb of Close_file_descriptor fd \<Rightarrow> Some fd | _ \<Rightarrow> None)"

lemma packet_shared:
  assumes I: "rely rep bad I" and k: "crep L0 w G None ib" and G: "stable G"
    and body: "nl \<notin> set body" and small: "length body < 2 ^ 31 - 1" and sock: "socket_file_descriptor t = sock"
    and l: "start_ptr l = 0" "buf l = Some b" and mem: "take (length (body @ [nl])) b = body @ [nl]"
  shows "\<exists>lab l' w'. char_packet (interfered I sock S) t (int (length (body @ [nl]))) l w = Some (lab, l', w') \<and>
    (lab = None \<and> (\<exists>s' \<ge> 0. l' = l\<lparr>start_ptr := s'\<rparr>) \<and> crep L0 w' (handled L0 (body @ [nl]) G) None ib \<or>
     (\<exists>lb. lab = Some lb \<and> lb \<noteq> Free_socket_fd \<and> buf l' \<noteq> None \<and> broken (left_open lb) w'))"
proof -
  let ?T = "interfered I sock S" and ?G' = "handled L0 (body @ [nl]) G"
  have at: "drop (nat (start_ptr l)) b = b" using l(1) by simp
  obtain fd w1 where opn: "open_log ?T w = Some (fd, w1)"
    and fd: "fd = -1 \<and> broken None w1 \<or> fd \<noteq> -1 \<and> fd \<noteq> sock \<and> crep L0 w1 G (Some (fd, 0)) ib"
    using open_shared [OF I k G] by blast
  show ?thesis
  proof (cases "fd = -1")
    case True
    then show ?thesis using opn fd l(2) by (simp add: char_packet_def left_open_def)
  next
    case False
    with fd have k1: "crep L0 w1 G (Some (fd, 0)) ib" by simp
    from request_shared [OF I k1 G body small mem] obtain r w2 where
      req: "(if take 19 b = seek_command then run_seek_command ?T fd b w1
        else dump_content (write_fd ?T fd) b (int (length (body @ [nl]))) w1) = Some (r, w2)"
      and r: "r = -1 \<and> broken (Some fd) w2 \<or> r = 0 \<and>
        (\<exists>s w3. echo_file_socket (read_fd ?T fd) (send_sock ?T sock) w2 = Some (s, w3) \<and>
          (s = 0 \<and> (\<exists>q'. crep L0 w3 ?G' (Some (fd, q')) ib) \<or> s = -1 \<and> broken (Some fd) w3))" by blast
    note run = opn False l(2) sock req [simplified]
    show ?thesis
    proof (cases "r = -1")
      case True
      then show ?thesis using run r unfolding char_packet_def at by (auto simp: Let_def at left_open_def)
    next
      case ok: False
      with r obtain s w3 where echo: "echo_file_socket (read_fd ?T fd) (send_sock ?T sock) w2 = Some (s, w3)"
        and s: "s = 0 \<and> (\<exists>q'. crep L0 w3 ?G' (Some (fd, q')) ib) \<or> s = -1 \<and> broken (Some fd) w3" by blast
      show ?thesis
      proof (cases "s = -1")
        case True
        then show ?thesis using run ok echo s unfolding char_packet_def at by (auto simp: Let_def at left_open_def)
      next
        case s0: False
        with s obtain q' where k3: "crep L0 w3 ?G' (Some (fd, q')) ib" by blast
        then have "own w3 = Some fd" by (simp add: crep_def)
        then obtain w4 where "close_fd ?T fd w3 = Some w4" and "crep L0 w4 ?G' None ib"
          using close_shared [OF I, of w3 fd] k3 stable_handled by blast
        then show ?thesis
          using run ok echo s0 unfolding char_packet_def
          by (auto simp: at Let_def intro!: exI [of _ "1 + int (length body)"])
      qed
    qed
  qed
qed

end

section \<open>The whole thread\<close>

text \<open>The receive loop is that of a thread alone: its contract holds among others too.\<close>

sublocale shared_log \<subseteq> among: receiver "interfered I sock S"
  "\<lambda>w v. rely rep bad I \<and> stable (fst v) \<and> crep L0 w (fst v) None (snd v)" "broken None" snd
  "\<lambda>k v. (fst v, drop k (snd v))" sock
  for I L0
proof
  fix w and v :: "(hist \<Rightarrow> byte list \<Rightarrow> bool) \<times> byte list" and n :: nat
  assume rep: "rely rep bad I \<and> stable (fst v) \<and> crep L0 w (fst v) None (snd v)" and n: "0 < n"
  then obtain u where u: "rep (base (I w)) u" "v_pend u = []" "v_lines u = last_n 10 (L0 @ map snd (log_hist (I w)))"
    "v_inbox u = snd v" "own (I w) = None" "fst v (log_hist (I w)) (v_sent u)"
    by (elim conjE) (rule others_stepE, assumption+, simp)
  from recv_law [OF u(1) n] obtain r bs b where run: "recv_sock S sock n (base (I w)) = Some (r, bs, b)"
    and r: "r = -1 \<and> bs = [] \<and> bad b \<or> r = 0 \<and> bs = [] \<and> v_inbox u = [] \<and> rep b u \<or>
       0 < r \<and> r \<le> int n \<and> nat r \<le> length (v_inbox u) \<and> bs = take (nat r) (v_inbox u) \<and>
         rep b (u\<lparr>v_inbox := drop (nat r) (v_inbox u)\<rparr>)" by blast
  have "crep L0 ((I w)\<lparr>base := b\<rparr>) (fst v) None (snd v)" if "rep b u"
    by (rule crepI [of _ u]) (use that u in auto)
  moreover have "crep L0 ((I w)\<lparr>base := b\<rparr>) (fst v) None ib" if "rep b (u\<lparr>v_inbox := ib\<rparr>)" for ib
    by (rule crepI [of _ "u\<lparr>v_inbox := ib\<rparr>"]) (use that u in auto)
  note this [of "drop (nat r) (snd v)"]
  ultimately show "\<exists>r bs w'. recv_sock (interfered I sock S) sock n w = Some (r, bs, w') \<and>
      (r = -1 \<and> bs = [] \<and> broken None w' \<or>
       r = 0 \<and> bs = [] \<and> snd v = [] \<and> (rely rep bad I \<and> stable (fst v) \<and> crep L0 w' (fst v) None (snd v)) \<or>
       0 < r \<and> r \<le> int n \<and> nat r \<le> length (snd v) \<and> bs = take (nat r) (snd v) \<and>
         (rely rep bad I \<and> stable (fst (fst v, drop (nat r) (snd v))) \<and>
          crep L0 w' (fst (fst v, drop (nat r) (snd v))) None (snd (fst v, drop (nat r) (snd v)))))"
    using run r rep n u(4,5) by (auto simp: interfered_def guarded_def broken_def Let_def)
next
  fix w and v :: "(hist \<Rightarrow> byte list \<Rightarrow> bool) \<times> byte list" and n res w'
  assume rep: "rely rep bad I \<and> stable (fst v) \<and> crep L0 w (fst v) None (snd v)"
    and run: "malloc (interfered I sock S) n w = (res, w')"
  then obtain u where u: "rep (base (I w)) u" "v_pend u = []" "v_lines u = last_n 10 (L0 @ map snd (log_hist (I w)))"
    "v_inbox u = snd v" "own (I w) = None" "fst v (log_hist (I w)) (v_sent u)"
    by (elim conjE) (rule others_stepE, assumption+, simp)
  obtain b where m: "malloc S n (base (I w)) = (res, b)" and w': "w' = (I w)\<lparr>base := b\<rparr>"
    using run by (auto simp: interfered_def Let_def split: prod.splits)
  have "crep L0 w' (fst v) None (snd v)" if "rep b u"
    unfolding w' by (rule crepI [of _ u]) (use that u in auto)
  then show "case res of None \<Rightarrow> broken None w'
      | Some blk \<Rightarrow> length blk = n \<and> (rely rep bad I \<and> stable (fst v) \<and> crep L0 w' (fst v) None (snd v))"
    using malloc_law [OF u(1) m] rep w' u(5) by (simp add: broken_def split: option.splits)
next
  fix w and v :: "(hist \<Rightarrow> byte list \<Rightarrow> bool) \<times> byte list" and old :: "byte list" and n res w'
  assume rep: "rely rep bad I \<and> stable (fst v) \<and> crep L0 w (fst v) None (snd v)" and old: "length old \<le> n"
    and run: "realloc (interfered I sock S) old n w = (res, w')"
  then obtain u where u: "rep (base (I w)) u" "v_pend u = []" "v_lines u = last_n 10 (L0 @ map snd (log_hist (I w)))"
    "v_inbox u = snd v" "own (I w) = None" "fst v (log_hist (I w)) (v_sent u)"
    by (elim conjE) (rule others_stepE, assumption+, simp)
  obtain b where m: "realloc S old n (base (I w)) = (res, b)" and w': "w' = (I w)\<lparr>base := b\<rparr>"
    using run by (auto simp: interfered_def Let_def split: prod.splits)
  have "crep L0 w' (fst v) None (snd v)" if "rep b u"
    unfolding w' by (rule crepI [of _ u]) (use that u in auto)
  then show "case res of None \<Rightarrow> True
      | Some blk \<Rightarrow> length blk = n \<and> take (length old) blk = old \<and>
          (rely rep bad I \<and> stable (fst v) \<and> crep L0 w' (fst v) None (snd v))"
    using realloc_law [OF u(1) old m] rep w' by (simp split: option.splits)
qed (simp_all add: add.commute)

context shared_log
begin

lemma exit_shared:
  assumes I: "rely rep bad I" and mem: "lb = Free_socket_fd \<or> buf l \<noteq> None"
    and t: "socket_file_descriptor t = sock" and opened: "own w = left_open lb"
  shows "\<exists>t' l' w'. char_exit (interfered I sock S) lb t l w = Some (t', l', w') \<and> thread_completed t' \<and>
    own w' = None \<and> (bad (base w) \<longrightarrow> bad (base w')) \<and>
    (left_open lb = None \<longrightarrow> (\<forall>L0 G ib. stable G \<longrightarrow> crep L0 w G None ib \<longrightarrow> crep L0 w' G None ib))"
proof -
  have free: "\<exists>t' l' w'. free_socket_fd (interfered I sock S) t l w = Some (t', l', w') \<and> thread_completed t' \<and>
      own w' = None \<and> (bad (base w) \<longrightarrow> bad (base w')) \<and>
      (\<forall>L0 G ib. stable G \<longrightarrow> crep L0 w G None ib \<longrightarrow> crep L0 w' G None ib)" if none: "own w = None" for l w
  proof -
    obtain w' where "close_fd (interfered I sock S) sock w = Some w'" and "own w' = None"
      and "bad (base w) \<longrightarrow> bad (base w')" and "\<forall>L0 G ib. stable G \<longrightarrow> crep L0 w G None ib \<longrightarrow> crep L0 w' G None ib"
      using close_shared [OF I, of w sock] by (auto simp: none)
    then show ?thesis by (auto simp: free_socket_fd_def t)
  qed
  show ?thesis
  proof (cases "left_open lb")
    case None
    then have "own w = None" using opened by simp
    then show ?thesis
      using free [of w "l\<lparr>buf := None\<rparr>"] free [of w l] mem None
      by (cases lb) (auto simp: free_mem_def left_open_def)
  next
    case (Some fd)
    then have lb: "lb = Close_file_descriptor fd" by (auto simp: left_open_def split: label.splits)
    then obtain b where b: "buf l = Some b" using mem by auto
    obtain w1 where "close_fd (interfered I sock S) fd w = Some w1" and "bad (base w) \<longrightarrow> bad (base w1)"
      and "own w1 = None"
      using close_shared [OF I, of w fd] opened Some by auto
    then show ?thesis using lb b Some free [of w1 "l\<lparr>buf := None\<rparr>"] by (auto simp: free_mem_def)
  qed
qed

text \<open>The thread of a client that sends one packet.\<close>

lemma thread_shared:
  assumes I: "rely rep bad I" and k: "crep L0 w G None (body @ [nl])" and G: "stable G" and body: "nl \<notin> set body"
    and small: "length body < 2 ^ 31 - 1"
    and t: "curr_state t = Receive_From_Socket" "socket_file_descriptor t = sock"
    and re: "\<And>old n w. fst (realloc S old n w) \<noteq> None"
  shows "\<exists>t' l' w'. aesd_char_thread (interfered I sock S) t w = Some (t', l', w') \<and> thread_completed t' \<and>
    own w' = None \<and> (bad (base w') \<or> crep L0 w' (handled L0 (body @ [nl]) G) None [])"
proof -
  let ?T = "interfered I sock S" and ?pkt = "body @ [nl]" and ?G' = "handled L0 (body @ [nl]) G"
  let ?v' = "(?G', [] :: byte list)"
  have re': "fst (realloc ?T old n w) \<noteq> None" for old n w
    using re by (simp add: interfered_def Let_def split: prod.splits) (metis fst_conv)
  have handler: "\<exists>lab l' w'. char_packet ?T t (int (length ?pkt)) l w = Some (lab, l', w') \<and>
      (lab = None \<and> (\<exists>s' \<ge> 0. l' = l\<lparr>start_ptr := s'\<rparr>) \<and>
         (rely rep bad I \<and> stable (fst ?v') \<and> crep L0 w' (fst ?v') None (snd ?v')) \<or>
       (\<exists>lb. lab = Some lb \<and> lb \<noteq> Free_socket_fd \<and> buf l' \<noteq> None \<and> broken (left_open lb) w'))"
    if "rely rep bad I \<and> stable (fst (fst (G, ?pkt), drop (length ?pkt) (snd (G, ?pkt)))) \<and>
        crep L0 w (fst (fst (G, ?pkt), drop (length ?pkt) (snd (G, ?pkt)))) None
          (snd (fst (G, ?pkt), drop (length ?pkt) (snd (G, ?pkt))))"
      and "socket_file_descriptor t = sock" "start_ptr l = 0" "buf l = Some b" "take (length ?pkt) b = ?pkt"
    for t l w b
    using packet_shared [OF I _ G body small that(2-5), of L0 w "[]"] that(1) I stable_handled by simp
  have "\<exists>lb t1 l1 w1. worker_loop (receive_from_socket ?T) (parse_data (char_packet ?T)) t worker_start w
        = Some (lb, t1, l1, w1) \<and>
      socket_file_descriptor t1 = sock \<and> (lb = Free_socket_fd \<or> buf l1 \<noteq> None) \<and>
      (lb = Free_mem \<and> (rely rep bad I \<and> stable (fst ?v') \<and> crep L0 w1 (fst ?v') None (snd ?v')) \<or>
       lb \<in> {Free_socket_fd, Free_mem} \<and> broken None w1 \<or> lb \<noteq> Free_socket_fd \<and> broken (left_open lb) w1)"
    by (rule among.one_packet [where v = "(G, ?pkt)" and Q = "\<lambda>lb w. broken (left_open lb) w"])
      (use re' body I k G t handler in auto)
  then obtain lb t1 l1 w1 where
    run: "worker_loop (receive_from_socket ?T) (parse_data (char_packet ?T)) t worker_start w = Some (lb, t1, l1, w1)"
    and t1: "socket_file_descriptor t1 = sock" and mem: "lb = Free_socket_fd \<or> buf l1 \<noteq> None"
    and out: "lb = Free_mem \<and> crep L0 w1 ?G' None [] \<or>
      lb \<in> {Free_socket_fd, Free_mem} \<and> broken None w1 \<or> broken (left_open lb) w1"
    by auto
  from out have res: "left_open lb = None \<and> crep L0 w1 ?G' None [] \<or> bad (base w1)"
    by (auto simp: broken_def left_open_def)
  from out have opened: "own w1 = left_open lb" by (auto simp: broken_def left_open_def crep_def)
  from exit_shared [OF I mem t1 opened] show ?thesis
    using run res stable_handled by (auto simp: aesd_char_thread_def)
qed

end

section \<open>The driver among many threads\<close>

interpretation driver_shared: shared_log "driver_sys K N" "srv_rep K N sock arr dl" failed sock srv_seek
  for K N sock arr dl
proof
  fix w v fd r e w' and bs :: "byte list"
  assume "srv_rep K N sock arr dl w v" "v_files v fd \<noteq> None" "bs \<noteq> []" "count_list bs nl \<le> 1"
    "length bs < 2 ^ 31" and run: "write_fd (driver_sys K N) fd bs w = Some (r, e, w')"
  with srv_write [of K N sock arr dl w v fd bs] show "r = -1 \<or> r = int (length bs)"
    by (auto simp: driver_sys_def)
next
  fix w v
  assume "srv_rep K N sock arr dl w v"
  then have "kernel_ok K" and "dev_rep K (dev (driver w)) (kheap (wld (driver w))) (v_lines v) (v_pend v)"
    by (simp_all add: srv_rep_def)
  then show "length (concat (v_lines v)) < 2 ^ 31" by (rule dev_rep_total)
qed

section \<open>The calls of the others\<close>

text \<open>
  A call of another thread: any that keeps the discipline, on a file that is open and not this
  thread's, or on a socket that is not this thread's.  A write that fails is left out, because after
  it the device may be damaged; any other call may fail.  \<open>failed\<close> stays the record of this thread.
\<close>

fun perform :: "'w sys \<Rightarrow> call \<Rightarrow> 'w \<Rightarrow> 'w option" where
  "perform S Open_log w = map_option snd (open_log S w)"
| "perform S (Close_fd fd) w = close_fd S fd w"
| "perform S (Write_fd fd bs) w =
     Option.bind (write_fd S fd bs w) (\<lambda>(r, e, w'). if r = -1 then None else Some w')"
| "perform S (Read_fd fd n) w = map_option (\<lambda>(r, e, bs, w'). w') (read_fd S fd n w)"
| "perform S (Ioctl_seekto fd c off) w = map_option snd (ioctl_seekto S fd c off w)"
| "perform S (Send_sock fd bs) w = map_option (\<lambda>(r, e, w'). w') (send_sock S fd bs w)"
| "perform S (Recv_sock fd n) w = map_option (\<lambda>(r, bs, w'). w') (recv_sock S fd n w)"
| "perform S (Malloc_block n) w = Some (snd (malloc S n w))"
| "perform S (Realloc_block old n) w = Some (snd (realloc S old n w))"

definition other_call :: "'k kernel \<Rightarrow> 'n net \<Rightarrow> int \<Rightarrow> call \<Rightarrow> ('k, 'n) server_world shared \<Rightarrow>
    ('k, 'n) server_world shared" where
  "other_call K N sock c w =
     (if disciplined (\<lambda>fd. files (base w) fd \<noteq> None \<and> own w \<noteq> Some fd) (\<lambda>fd. fd \<noteq> sock \<and> own w \<noteq> Some fd) c
      then case perform (driver_sys K N) c (base w) of
             None \<Rightarrow> w
           | Some b \<Rightarrow> w\<lparr>base := b\<lparr>failed := failed (base w)\<rparr>,
                         log_hist := log_hist w @ (case c of Write_fd fd bs \<Rightarrow> [(False, bs)] | _ \<Rightarrow> [])\<rparr>
      else w)"

text \<open>Any number of them, chosen anew each time from all that has happened.\<close>

definition crowd :: "'k kernel \<Rightarrow> 'n net \<Rightarrow> int \<Rightarrow> (('k, 'n) server_world shared \<Rightarrow> call list) \<Rightarrow>
    ('k, 'n) server_world shared \<Rightarrow> ('k, 'n) server_world shared" where
  "crowd K N sock plan w = foldl (\<lambda>w c. other_call K N sock c w) w (plan w)"

text \<open>What happens on other sockets does not change what arrives on this one or was sent on it.\<close>

definition sockets_apart :: "'n net \<Rightarrow> int \<Rightarrow> ('n \<Rightarrow> byte list) \<Rightarrow> ('n \<Rightarrow> byte list) \<Rightarrow> bool" where
  "sockets_apart N sock arr dl \<longleftrightarrow>
     (\<forall>fd bs e r e'. fd \<noteq> sock \<longrightarrow> n_send N fd bs e = (r, e') \<longrightarrow> net_calm arr dl e e') \<and>
     (\<forall>fd n e r bs e'. fd \<noteq> sock \<longrightarrow> n_recv N fd n e = (r, bs, e') \<longrightarrow> net_calm arr dl e e')"

lemma srv_rep_calm:
  "srv_rep K N sock arr dl w v \<Longrightarrow> net_calm arr dl (net_env w) e \<Longrightarrow> srv_rep K N sock arr dl (w\<lparr>net_env := e\<rparr>) v"
  by (simp add: srv_rep_def net_calm_def)

text \<open>Each of them keeps the files of this thread, and only a write changes the lines.\<close>

lemma perform_rep:
  assumes rep: "srv_rep K N sock arr dl w v" and apart: "sockets_apart N sock arr dl"
    and disc: "disciplined (\<lambda>fd. files w fd \<noteq> None \<and> mine \<noteq> Some fd) (\<lambda>fd. fd \<noteq> sock \<and> mine \<noteq> Some fd) c"
    and opened: "\<forall>fd. mine = Some fd \<longrightarrow> v_files v fd \<noteq> None" and run: "perform (driver_sys K N) c w = Some w'"
    and calm: "\<forall>fd bs. c \<noteq> Write_fd fd bs"
  shows "\<exists>fs. (\<forall>fd. mine = Some fd \<longrightarrow> fs fd = v_files v fd) \<and> srv_rep K N sock arr dl w' (v\<lparr>v_files := fs\<rparr>)"
proof -
  have N: "open_ok N sock arr dl" "alloc_ok N arr dl" using rep by (auto simp: srv_rep_def net_ok_def)
  have same: ?thesis if "srv_rep K N sock arr dl w' v"
    using that by (intro exI [of _ "v_files v"]) simp
  have moved: ?thesis if "srv_rep K N sock arr dl w' (at_pos fd p v)" "mine \<noteq> Some fd" for fd p
    using that by (intro exI [of _ "(v_files v)(fd \<mapsto> p)"]) (auto simp: at_pos_def)
  have files: "v_files v = (\<lambda>fd. map_option (\<lambda>f. nat (f_pos f)) (files w fd))"
    using rep by (simp add: srv_rep_def)
  have calm_env: "srv_rep K N sock arr dl (w\<lparr>net_env := e, failed := x\<rparr>) v" if "net_calm arr dl (net_env w) e" for e x
    using srv_rep_calm [OF rep that] by simp
  show ?thesis
  proof (cases c)
    case Open_log
    obtain fd where opn: "sys_open N w = (fd, w')" using run Open_log by (cases "sys_open N w") (auto simp: driver_sys_def)
    show ?thesis
    proof (cases "fd = -1")
      case True
      have "net_calm arr dl (net_env w) (snd (n_open N used (net_env w)))" for used
        using N(1) by (metis open_ok_def prod.collapse)
      then have "srv_rep K N sock arr dl w' v"
        using opn True calm_env by (auto simp: sys_open_def split: prod.splits if_splits) (metis snd_conv)
      then show ?thesis by (rule same)
    next
      case False
      then show ?thesis using srv_open [OF rep opn] opened by (intro moved [of fd 0]) auto
    qed
  next
    case (Close_fd fd)
    then have "mine \<noteq> Some fd" and "srv_rep K N sock arr dl w' (v\<lparr>v_files := (v_files v)(fd := None)\<rparr>)"
      using run disc rep srv_close [of w N fd K sock arr dl v] by (auto simp: driver_sys_def)
    then show ?thesis by (intro exI [of _ "(v_files v)(fd := None)"]) auto
  next
    case (Read_fd fd n)
    then obtain p where "v_files v fd = Some p" and n: "0 < n" "n < 2 ^ 31" and other: "mine \<noteq> Some fd"
      using disc files by auto
    from srv_read [OF rep this(1-3)] obtain p' where "srv_rep K N sock arr dl w' (at_pos fd p' v)"
      using run Read_fd by (auto simp: driver_sys_def)
    then show ?thesis using other by (rule moved)
  next
    case (Ioctl_seekto fd cmd off)
    then have "v_files v fd \<noteq> None" and other: "mine \<noteq> Some fd" using disc files by auto
    obtain r where "sys_ioctl K fd cmd off w = (r, w')"
      using run Ioctl_seekto by (cases "sys_ioctl K fd cmd off w") (simp add: driver_sys_def)
    from srv_ioctl [OF rep \<open>v_files v fd \<noteq> None\<close> this]
    have "(\<exists>p'. srv_rep K N sock arr dl w' (at_pos fd p' v)) \<or> srv_rep K N sock arr dl w' v"
      by (auto split: option.splits)
    then show ?thesis using same moved other by blast
  next
    case (Send_sock fd bs)
    then show ?thesis
      using run disc apart calm_env by (intro same) (auto simp: driver_sys_def sockets_apart_def split: prod.splits)
  next
    case (Recv_sock fd n)
    then show ?thesis
      using run disc apart calm_env by (intro same) (auto simp: driver_sys_def sockets_apart_def split: prod.splits)
  next
    case (Malloc_block n)
    then show ?thesis
      using run N(2) calm_env by (intro same) (auto simp: driver_sys_def alloc_ok_def split: prod.splits)
  next
    case (Realloc_block old n)
    then show ?thesis
      using run disc N(2) calm_env by (intro same) (auto simp: driver_sys_def alloc_ok_def split: prod.splits)
  qed (use calm in simp)
qed

lemma other_call_relies:
  fixes K :: "'k kernel" and N :: "'n net"
  assumes apart: "sockets_apart N sock arr dl"
  shows "rely (srv_rep K N sock arr dl) failed (other_call K N sock c)"
  unfolding rely_def rely_at_def
proof (intro allI conjI impI)
  fix w :: "('k, 'n) server_world shared"
  let ?disc = "disciplined (\<lambda>fd. files (base w) fd \<noteq> None \<and> own w \<noteq> Some fd) (\<lambda>fd. fd \<noteq> sock \<and> own w \<noteq> Some fd) c"
  show "own (other_call K N sock c w) = own w" and "failed (base (other_call K N sock c w)) = failed (base w)"
    by (auto simp: other_call_def split: option.splits)
  fix v
  assume rep: "srv_rep K N sock arr dl (base w) v" and pend: "v_pend v = []"
    and opened: "\<forall>fd. own w = Some fd \<longrightarrow> v_files v fd \<noteq> None"
  have short: "last_n 10 (v_lines v) = v_lines v" using rep by (auto simp: srv_rep_def dest: dev_rep_le10)
  show "\<exists>ls fs. log_hist (other_call K N sock c w) = log_hist w @ map (Pair False) ls \<and>
      (\<forall>fd. own w = Some fd \<longrightarrow> fs fd = v_files v fd) \<and>
      srv_rep K N sock arr dl (base (other_call K N sock c w))
        (v\<lparr>v_lines := last_n 10 (v_lines v @ ls), v_files := fs\<rparr>)"
  proof (cases "?disc \<and> perform (driver_sys K N) c (base w) \<noteq> None")
    case False
    then have "other_call K N sock c w = w" by (auto simp: other_call_def)
    then show ?thesis using rep short by (intro exI [of _ "[]"] exI [of _ "v_files v"]) simp
  next
    case True
    then obtain b where run: "perform (driver_sys K N) c (base w) = Some b" and disc: ?disc by auto
    then have res: "other_call K N sock c w = w\<lparr>base := b\<lparr>failed := failed (base w)\<rparr>,
        log_hist := log_hist w @ (case c of Write_fd fd bs \<Rightarrow> [(False, bs)] | _ \<Rightarrow> [])\<rparr>"
      by (simp add: other_call_def)
    show ?thesis
    proof (cases "\<forall>fd bs. c \<noteq> Write_fd fd bs")
      case True
      from perform_rep [OF rep apart disc opened run True]
      obtain fs where "\<forall>fd. own w = Some fd \<longrightarrow> fs fd = v_files v fd" and "srv_rep K N sock arr dl b (v\<lparr>v_files := fs\<rparr>)"
        by blast
      moreover have "(case c of Write_fd fd bs \<Rightarrow> [(False, bs)] | _ \<Rightarrow> []) = []" using True by (simp split: call.split)
      ultimately show ?thesis unfolding res using short by (intro exI [of _ "[]"] exI [of _ fs]) simp
    next
      case False
      then obtain fd bs where c: "c = Write_fd fd bs" by blast
      then obtain body where bs: "bs = body @ [nl]" and body: "nl \<notin> set body" and small: "length body < 2 ^ 31 - 1"
        using disc by (auto elim: whole_lineE)
      have "v_files v fd \<noteq> None" using c disc rep by (simp add: srv_rep_def)
      moreover have "count_list bs nl \<le> 1" "length bs < 2 ^ 31" "bs \<noteq> []"
        using bs body small by (simp_all add: count_list_0_iff)
      ultimately have "srv_rep K N sock arr dl b (accept_view v bs)"
        using srv_write [OF rep, of fd bs] run c by (auto simp: driver_sys_def split: if_splits)
      moreover have "accept_view v bs = v\<lparr>v_lines := last_n 10 (v_lines v @ [bs])\<rparr>"
        using pend accept_one [of "[]" body "[]" "v_lines v"] body by (simp add: accept_view_def bs)
      ultimately show ?thesis
        by (intro exI [of _ "[bs]"] exI [of _ "v_files v"]) (simp add: c res [unfolded c])
    qed
  qed
qed

lemma rely_refl: "(\<And>w v. rep w v \<Longrightarrow> length (v_lines v) \<le> 10) \<Longrightarrow> rely rep bad (\<lambda>w. w)"
  unfolding rely_def rely_at_def by (auto intro!: exI [of _ "[]"])

lemma rely_comp:
  assumes I: "rely rep bad I" and J: "rely rep bad J"
  shows "rely rep bad (\<lambda>w. J (I w))"
  unfolding rely_def rely_at_def
proof (intro allI conjI impI)
  fix w
  show "own (J (I w)) = own w" and "bad (base (J (I w))) = bad (base w)"
    using I J by (simp_all add: rely_def rely_at_def)
  fix v
  assume v: "rep (base w) v" "v_pend v = []" "\<forall>fd. own w = Some fd \<longrightarrow> v_files v fd \<noteq> None"
  obtain ls fs where i: "log_hist (I w) = log_hist w @ map (Pair False) ls"
    "\<forall>fd. own w = Some fd \<longrightarrow> fs fd = v_files v fd"
    "rep (base (I w)) (v\<lparr>v_lines := last_n 10 (v_lines v @ ls), v_files := fs\<rparr>)" "own (I w) = own w"
    using I v unfolding rely_def rely_at_def by blast
  let ?v1 = "v\<lparr>v_lines := last_n 10 (v_lines v @ ls), v_files := fs\<rparr>"
  have "v_pend ?v1 = []" and "\<forall>fd. own (I w) = Some fd \<longrightarrow> v_files ?v1 fd \<noteq> None"
    using v(2,3) i(2,4) by simp_all
  with J i(3) obtain ls' fs' where "log_hist (J (I w)) = log_hist (I w) @ map (Pair False) ls'"
    "\<forall>fd. own (I w) = Some fd \<longrightarrow> fs' fd = v_files ?v1 fd"
    "rep (base (J (I w))) (?v1\<lparr>v_lines := last_n 10 (v_lines ?v1 @ ls'), v_files := fs'\<rparr>)"
    unfolding rely_def rely_at_def by blast
  then have j: "log_hist (J (I w)) = log_hist (I w) @ map (Pair False) ls'"
    "\<forall>fd. own w = Some fd \<longrightarrow> fs' fd = fs fd"
    "rep (base (J (I w))) (v\<lparr>v_lines := last_n 10 (last_n 10 (v_lines v @ ls) @ ls'), v_files := fs'\<rparr>)"
    using i(4) by simp_all
  have "log_hist (J (I w)) = log_hist w @ map (Pair False) (ls @ ls')" using i(1) j(1) by simp
  moreover have "\<forall>fd. own w = Some fd \<longrightarrow> fs' fd = v_files v fd" using i(2) j(2) by simp
  moreover have "rep (base (J (I w))) (v\<lparr>v_lines := last_n 10 (v_lines v @ ls @ ls'), v_files := fs'\<rparr>)"
    using j(3) by (simp add: last_n_last_n_append)
  ultimately show "\<exists>ls fs. log_hist (J (I w)) = log_hist w @ map (Pair False) ls \<and>
      (\<forall>fd. own w = Some fd \<longrightarrow> fs fd = v_files v fd) \<and>
      rep (base (J (I w))) (v\<lparr>v_lines := last_n 10 (v_lines v @ ls), v_files := fs\<rparr>)"
    by (intro exI [of _ "ls @ ls'"] exI [of _ fs'] conjI)
qed

lemma rely_chosen: "(\<And>x. rely rep bad (J x)) \<Longrightarrow> rely rep bad (\<lambda>w. J (f w) w)"
  by (simp add: rely_def)

lemma crowd_relies:
  assumes apart: "sockets_apart N sock arr dl"
  shows "rely (srv_rep K N sock arr dl) failed (crowd K N sock plan)"
proof -
  let ?rely = "rely (srv_rep K N sock arr dl) failed" and ?step = "\<lambda>w c. other_call K N sock c w"
  have "?rely (\<lambda>w. foldl ?step w cs)" for cs
  proof (induction cs)
    case Nil
    show ?case by (auto intro!: rely_refl simp: srv_rep_def dest: dev_rep_le10)
  next
    case (Cons c cs)
    then show ?case using rely_comp [OF other_call_relies [OF apart, of K c]] by simp
  qed
  then have "?rely (\<lambda>w. foldl ?step w (plan w))" by (rule rely_chosen [of _ _ "\<lambda>cs w. foldl ?step w cs"])
  then show ?thesis by (simp add: crowd_def [abs_def])
qed

text \<open>
  All of it together: the packet is in the log once and whole, and the reply was read from the log from
  then on; a seek command is not in the log, and answered with the log from some byte on.
\<close>

definition packet_served :: "byte list list \<Rightarrow> byte list \<Rightarrow> hist \<Rightarrow> byte list \<Rightarrow> bool" where
  "packet_served lines pkt h reply \<longleftrightarrow>
     (if take 19 pkt = seek_command
      then \<exists>p before seen later. h = map (Pair False) (before @ seen @ later) \<and>
        full_reply p (lines @ before) (lines @ before @ seen) reply
      else \<exists>before seen later. h = map (Pair False) before @ (True, pkt) # map (Pair False) (seen @ later) \<and>
        full_reply 0 (lines @ before @ [pkt]) (lines @ before @ pkt # seen) reply \<and>
        (seen = [] \<or> length (lines @ before @ pkt # seen) \<le> 10 \<longrightarrow>
           reply = concat (last_n 10 (lines @ before @ pkt # seen))))"

lemma packet_servedI_seek:
  assumes "take 19 pkt = seek_command" and "h = map (Pair False) (before @ seen @ later)"
    and "full_reply p (lines @ before) (lines @ before @ seen) reply"
  shows "packet_served lines pkt h reply"
  unfolding packet_served_def if_P [OF assms(1)] using assms(2,3) by (intro exI conjI)

lemma packet_servedI:
  assumes "take 19 pkt \<noteq> seek_command"
    and "h = map (Pair False) before @ (True, pkt) # map (Pair False) (seen @ later)"
    and "full_reply 0 (lines @ before @ [pkt]) (lines @ before @ pkt # seen) reply"
    and "seen = [] \<or> length (lines @ before @ pkt # seen) \<le> 10 \<longrightarrow>
      reply = concat (last_n 10 (lines @ before @ pkt # seen))"
  shows "packet_served lines pkt h reply"
  unfolding packet_served_def if_not_P [OF assms(1)] using assms(2-4) by (intro exI conjI)

lemma served_packet:
  assumes "handled lines pkt (\<lambda>h out. (\<exists>ls. h = map (Pair False) ls) \<and> out = out0) h out"
  shows "\<exists>reply. out = out0 @ reply \<and> packet_served lines pkt h reply"
proof (cases "take 19 pkt = seek_command")
  case True
  with assms obtain p before seen later bs where "h = map (Pair False) (before @ seen @ later)" and "out = out0 @ bs"
    and "full_reply p (lines @ before) (lines @ before @ seen) bs"
  proof -
    from assms True obtain p where "replied lines p (\<lambda>h out. (\<exists>ls. h = map (Pair False) ls) \<and> out = out0) h out"
      by (auto simp: handled_def)
    then obtain before seen later bs where "h = map (Pair False) before @ map (Pair False) (seen @ later)" "out = out0 @ bs"
      and "full_reply p (lines @ map snd (map (Pair False) before)) (lines @ map snd (map (Pair False) before) @ seen) bs"
      unfolding replied_def by blast
    then show ?thesis by (intro that [of before seen later bs p]) (simp_all add: comp_def)
  qed
  then show ?thesis using packet_servedI_seek [OF True] by blast
next
  case False
  with assms obtain before ls seen later bs where
    h: "h = (map (Pair False) before @ (True, pkt) # map (Pair False) ls) @ map (Pair False) (seen @ later)"
    and out: "out = out0 @ bs"
    and full: "full_reply 0 (lines @ before @ pkt # ls) (lines @ before @ pkt # ls @ seen) bs"
  proof -
    from assms False have "replied lines 0 (wrote pkt (\<lambda>h out. (\<exists>ls. h = map (Pair False) ls) \<and> out = out0)) h out"
      by (simp add: handled_def)
    then obtain h0 seen later out1 bs where "h = h0 @ map (Pair False) (seen @ later)" "out = out1 @ bs"
      and w: "wrote pkt (\<lambda>h out. (\<exists>ls. h = map (Pair False) ls) \<and> out = out0) h0 out1"
      and "full_reply 0 (lines @ map snd h0) (lines @ map snd h0 @ seen) bs"
      unfolding replied_def by blast
    moreover from w obtain before ls where "h0 = map (Pair False) before @ (True, pkt) # map (Pair False) ls" "out1 = out0"
      by (auto simp: wrote_def)
    ultimately show ?thesis by (intro that [of before ls seen later bs]) (simp_all add: comp_def)
  qed
  have full': "full_reply 0 (lines @ before @ [pkt]) (lines @ before @ pkt # ls @ seen) bs"
    using full reads_earlier [of 0 "lines @ before @ [pkt]" ls] by (simp add: full_reply_def)
  moreover have "bs = concat (last_n 10 (lines @ before @ pkt # ls @ seen))"
    if "ls @ seen = [] \<or> length (lines @ before @ pkt # ls @ seen) \<le> 10"
    using reply_whole [OF full'] that by simp
  moreover have "h = map (Pair False) before @ (True, pkt) # map (Pair False) ((ls @ seen) @ later)" using h by simp
  ultimately have "packet_served lines pkt h bs"
    by (intro packet_servedI [OF False, where before = before and seen = "ls @ seen" and later = later]) simp_all
  then show ?thesis using out by blast
qed

lemma concurrent_thread:
  assumes "server_idle K N sock arr dl (base w) lines []" and "sockets_apart N sock arr dl"
    and "log_hist w = []" and "own w = None"
    and "arr (net_env (base w)) = body @ [nl]" and "nl \<notin> set body" and "length body < 2 ^ 31 - 1"
    and "curr_state t = Receive_From_Socket" and "socket_file_descriptor t = sock"
    and "\<And>old n e. fst (n_realloc N old n e) \<noteq> None"
  shows "\<exists>t' l' w'. aesd_char_thread (interfered (crowd K N sock plan) sock (driver_sys K N)) t w = Some (t', l', w') \<and>
    thread_completed t' \<and> own w' = None \<and>
    (failed (base w') \<or>
     dev_rep K (dev (driver (base w'))) (kheap (wld (driver (base w')))) (last_n 10 (lines @ map snd (log_hist w'))) [] \<and>
     (\<exists>reply. dl (net_env (base w')) = dl (net_env (base w)) @ reply \<and>
        packet_served lines (body @ [nl]) (log_hist w') reply))"
proof -
  let ?pkt = "body @ [nl]" and ?G = "\<lambda>h out. (\<exists>ls. h = map (Pair False) ls) \<and> out = dl (net_env (base w))"
  have stable: "stable ?G" unfolding stable_def by (metis map_append)
  have "length lines \<le> 10" using assms(1) by (auto simp: server_idle_def dest: dev_rep_le10)
  then have start: "driver_shared.crep K N sock arr dl lines w ?G None ?pkt"
    using driver_shared.crepI [OF server_idle_rep [OF assms(1)], of lines ?pkt None ?G] assms(3-5) by simp
  have re: "fst (realloc (driver_sys K N) old n w) \<noteq> None" for old n w
    using assms(10) by (simp add: driver_sys_def split: prod.splits) (metis fst_conv)
  from driver_shared.thread_shared [OF crowd_relies [OF assms(2)] start stable assms(6-9) re] obtain t' l' w'
    where run: "aesd_char_thread (interfered (crowd K N sock plan) sock (driver_sys K N)) t w = Some (t', l', w')"
    and done_thread: "thread_completed t'" "own w' = None"
    and res: "failed (base w') \<or> driver_shared.crep K N sock arr dl lines w' (handled lines ?pkt ?G) None []"
    by blast
  show ?thesis
  proof (cases "failed (base w')")
    case False
    with res obtain v where rep: "srv_rep K N sock arr dl (base w') v" and "v_pend v = []"
      and all: "v_lines v = last_n 10 (lines @ map snd (log_hist w'))"
      and know: "handled lines ?pkt ?G (log_hist w') (v_sent v)"
      unfolding driver_shared.crep_def by auto
    have dev: "dev_rep K (dev (driver (base w'))) (kheap (wld (driver (base w'))))
        (last_n 10 (lines @ map snd (log_hist w'))) []" and sent: "v_sent v = dl (net_env (base w'))"
      using rep all \<open>v_pend v = []\<close> by (simp_all add: srv_rep_def)
    from served_packet [OF know] sent show ?thesis using run done_thread dev by auto
  qed (use run done_thread in blast)
qed

section \<open>Properties\<close>

text \<open>
  C10: connections that run at the same time.  Between any two system calls of a thread the threads of
  other connections may make any of theirs, as long as their writes succeed and are whole lines: open the
  log, write to it, read, seek in and close their files, send and receive.  The thread of a client that
  sends one packet, to a device with no incomplete line, makes no other kind of call itself, and if
  \<open>realloc\<close> does not fail it ends with its file closed.  Unless one of its own calls failed, its packet is
  in the log exactly once, in one piece between packets of the others (a seek command is not), and the
  device holds the last ten of all packets in the order they were written.  Its client was sent what
  reading the log from its beginning gives after the packet was written, until nothing is left: each
  piece comes from the ten lines held at the moment it was read, at the position after the bytes read
  before.  So if no line was written meanwhile, or none dropped so far, that is the log as it was at a
  moment after the packet was written; a reader that is overtaken when a line is dropped skips bytes.
  A seek command is answered in the same way from some position on.
\<close>

theorem concurrent_packets_stored:
  assumes "server_idle K N sock arr dl (base w) lines []" and "sockets_apart N sock arr dl"
    and "log_hist w = []" and "own w = None"
    and "arr (net_env (base w)) = body @ [nl]" and "nl \<notin> set body" and "length body < 2 ^ 31 - 1"
    and "curr_state t = Receive_From_Socket" and "socket_file_descriptor t = sock"
    and "\<And>old n e. fst (n_realloc N old n e) \<noteq> None"
  shows "\<exists>t' l' w'. aesd_char_thread (interfered (crowd K N sock plan) sock (driver_sys K N)) t w = Some (t', l', w') \<and>
    thread_completed t' \<and> own w' = None \<and>
    (failed (base w') \<or>
     dev_rep K (dev (driver (base w'))) (kheap (wld (driver (base w')))) (last_n 10 (lines @ map snd (log_hist w'))) [] \<and>
     (\<exists>reply. dl (net_env (base w')) = dl (net_env (base w)) @ reply \<and>
        packet_served lines (body @ [nl]) (log_hist w') reply))"
  by (rule concurrent_thread [OF assms])

text \<open>For the witness: two descriptors, sockets apart from the given one, and others that are busy at every call.\<close>

definition two_net :: "int \<Rightarrow> (byte list list \<times> byte list) net" where
  "two_net sock = chunk_net\<lparr>
     n_open := (\<lambda>used e. (if \<not> used 5 then 5 else if \<not> used 6 then 6 else -1, e)),
     n_send := (\<lambda>fd bs e. if fd = sock then n_send chunk_net fd bs e else (int (length bs), e)),
     n_recv := (\<lambda>fd n e. if fd = sock then n_recv chunk_net fd n e else (0, [], e))\<rparr>"

definition busy :: "(nat, byte list list \<times> byte list) server_world shared \<Rightarrow> call list" where
  "busy w = (if length (log_hist w) < (if list_ex fst (log_hist w) then 5 else 2)
     then [Open_log, Write_fd 5 (''yo'' @ [nl]), Read_fd 6 3, Write_fd 6 (''ho'' @ [nl]), Send_sock 9 ''yo'']
     else [Close_fd 5, Close_fd 4])"

definition shared_world :: "(nat, byte list list \<times> byte list) server_world shared" where
  "shared_world = \<lparr>base = idle_world [''h'', ''i'' @ [nl]], log_hist = [], own = None\<rparr>"

lemma two_net_ok:
  assumes "sock \<notin> {5, 6}"
  shows "net_ok (two_net sock) sock (\<lambda>(chunks, out). concat chunks) (\<lambda>(chunks, out). out)"
    and "sockets_apart (two_net sock) sock (\<lambda>(chunks, out). concat chunks) (\<lambda>(chunks, out). out)"
proof -
  let ?arr = "\<lambda>(chunks :: byte list list, out :: byte list). concat chunks" and ?dl = "\<lambda>(chunks :: byte list list, out :: byte list). out"
  have "n_send (two_net sock) sock = n_send chunk_net 4" "n_recv (two_net sock) sock = n_recv chunk_net 4"
    by (simp_all add: two_net_def chunk_net_def fun_eq_iff)
  then have "send_ok (two_net sock) sock ?arr ?dl" "recv_ok (two_net sock) sock ?arr ?dl"
    using chunk_net_ok by (simp_all add: net_ok_def send_ok_def recv_ok_def)
  moreover have "open_ok (two_net sock) sock ?arr ?dl"
    using assms by (auto simp: open_ok_def two_net_def chunk_net_def net_calm_def)
  moreover have "alloc_ok (two_net sock) ?arr ?dl"
    using chunk_net_ok by (simp add: net_ok_def alloc_ok_def two_net_def)
  ultimately show "net_ok (two_net sock) sock ?arr ?dl" by (simp add: net_ok_def)
  show "sockets_apart (two_net sock) sock ?arr ?dl" by (simp add: sockets_apart_def two_net_def net_calm_def)
qed

lemma two_net_realloc: "fst (n_realloc (two_net sock) old n e) \<noteq> None"
  by (simp add: two_net_def chunk_net_realloc)

lemma shared_world_ok:
  assumes "sock \<notin> {5, 6}"
  shows "server_idle bump_kernel (two_net sock) sock (\<lambda>(chunks, out). concat chunks) (\<lambda>(chunks, out). out)
    (base shared_world) [] []" and "log_hist shared_world = []" and "own shared_world = None"
    and "(\<lambda>(chunks, out). concat chunks) (net_env (base shared_world)) = ''hi'' @ [nl]"
  using idle_world_ok two_net_ok(1) [OF assms] by (simp_all add: shared_world_def idle_world_env server_idle_def)

theorem concurrent_packets_stored_witness:
  "\<exists>t' l' w'. aesd_char_thread (interfered (crowd bump_kernel (two_net 4) 4 busy) 4 (driver_sys bump_kernel (two_net 4)))
      connection shared_world = Some (t', l', w') \<and>
    dev_rep bump_kernel (dev (driver (base w'))) (kheap (wld (driver (base w'))))
      [''yo'' @ [nl], ''yo'' @ [nl], ''ho'' @ [nl], ''hi'' @ [nl], ''ho'' @ [nl]] []"
proof -
  let ?hist = "[(False, ''yo'' @ [nl]), (False, ''yo'' @ [nl]), (False, ''ho'' @ [nl]), (True, ''hi'' @ [nl]), (False, ''ho'' @ [nl])]"
  have run: "map_option (\<lambda>(t, l, w). (failed (base w), log_hist w))
      (aesd_char_thread (interfered (crowd bump_kernel (two_net 4) 4 busy) 4 (driver_sys bump_kernel (two_net 4))) connection shared_world) =
      Some (False, ?hist)"
    by code_simp
  note w = shared_world_ok [of 4] two_net_ok(2) [of 4]
  have body: "nl \<notin> set ''hi''" by code_simp
  obtain t' l' w' where thread: "aesd_char_thread (interfered (crowd bump_kernel (two_net 4) 4 busy) 4 (driver_sys bump_kernel (two_net 4)))
      connection shared_world = Some (t', l', w')" and "failed (base w') \<or>
      dev_rep bump_kernel (dev (driver (base w'))) (kheap (wld (driver (base w'))))
        (last_n 10 ([] @ map snd (log_hist w'))) []"
    using concurrent_packets_stored [OF w(1,5,2-4) body _ connection_simps two_net_realloc, of busy] by force
  moreover have "\<not> failed (base w')" "log_hist w' = ?hist" using run thread by simp_all
  ultimately show ?thesis using thread by (simp add: last_n_def)
qed

end
