(* ===== verification/Links.thy ===== *)
theory Links
  imports Interfaces
begin

text \<open>
  What the four kinds of lists of src/server/queue.h share: the forward pointers, which live in the
  heads and in the nodes, the backward pointers, which hold the address of a forward pointer, and the
  lists of nodes that such pointers describe.  Memory holds any number of heads and nodes; what
  an operation on one list does to the others is part of every statement.
\<close>

section \<open>Memory\<close>

text \<open>The address of a forward pointer: the one in a head, or the one in a node.\<close>

datatype ('h, 'n) loc = First 'h | Next 'n

record ('h, 'n, 'hd, 'en) links =
  heads :: "'h \<Rightarrow> 'hd"
  field :: "'n \<Rightarrow> 'en option" \<comment> \<open>\<open>None\<close> where no node is allocated\<close>

text \<open>
  Reading \<open>*l\<close> and assigning \<open>*l = v\<close>, given the members for the first and the next element and their
  updates.
\<close>

fun load_link :: "('hd \<Rightarrow> 'n option) \<Rightarrow> ('en \<Rightarrow> 'n option) \<Rightarrow> ('h, 'n, 'hd, 'en) links \<Rightarrow> ('h, 'n) loc \<Rightarrow>
    'n option option" where
  "load_link fi nxt m (First h) = Some (fi (heads m h))"
| "load_link fi nxt m (Next n) = map_option nxt (field m n)"

fun store_link :: "(('n option \<Rightarrow> 'n option) \<Rightarrow> 'hd \<Rightarrow> 'hd) \<Rightarrow> (('n option \<Rightarrow> 'n option) \<Rightarrow> 'en \<Rightarrow> 'en) \<Rightarrow>
    ('h, 'n) loc \<Rightarrow> 'n option \<Rightarrow> ('h, 'n, 'hd, 'en) links \<Rightarrow> ('h, 'n, 'hd, 'en) links option" where
  "store_link hu eu (First h) v m = Some (m\<lparr>heads := (heads m)(h := hu (\<lambda>_. v) (heads m h))\<rparr>)"
| "store_link hu eu (Next n) v m =
     map_option (\<lambda>e. m\<lparr>field := (field m)(n \<mapsto> eu (\<lambda>_. v) e)\<rparr>) (field m n)"

lemma store_defined: "load_link fi nxt m l \<noteq> None \<Longrightarrow> \<exists>m'. store_link hu eu l v m = Some m'"
  by (cases l) auto

lemma load_store:
  assumes "store_link hu eu l v m = Some m'" "\<And>f d. fi (hu f d) = f (fi d)" "\<And>f e. nxt (eu f e) = f (nxt e)"
  shows "load_link fi nxt m' = (load_link fi nxt m)(l := Some v)"
proof
  show "load_link fi nxt m' k = ((load_link fi nxt m)(l := Some v)) k" for k
    using assms by (cases l; cases k) auto
qed

text \<open>A member that the assignment does not touch, of the heads and of the nodes.\<close>

lemma store_heads:
  assumes "store_link hu eu l v m = Some m'" "\<And>f d. g (hu f d) = g d"
  shows "g (heads m' h) = g (heads m h)"
  using assms by (cases l) auto

lemma store_field:
  assumes "store_link hu eu l v m = Some m'" "\<And>f e. g (eu f e) = g e"
  shows "map_option g (field m' n) = map_option g (field m n)"
  using assms by (cases l) auto

lemma store_dom: "store_link hu eu l v m = Some m' \<Longrightarrow> dom (field m') = dom (field m)"
  by (cases l) (auto split: if_splits)

section \<open>Results that exist\<close>

text \<open>An operation that does not fail, with what holds of its result.\<close>

definition yields :: "'a option \<Rightarrow> ('a \<Rightarrow> bool) \<Rightarrow> bool" where
  "yields r P \<longleftrightarrow> (\<exists>x. r = Some x \<and> P x)"

lemma yields_Some [simp]: "yields (Some x) P = P x"
  by (simp add: yields_def)

lemma yields_bind: "yields r (\<lambda>x. yields (f x) P) \<Longrightarrow> yields (Option.bind r f) P"
  by (auto simp: yields_def)

lemma yields_map: "yields r (\<lambda>x. P (f x)) \<Longrightarrow> yields (map_option f r) P"
  by (auto simp: yields_def)

lemma yields_mono: "yields r Q \<Longrightarrow> (\<And>x. Q x \<Longrightarrow> P x) \<Longrightarrow> yields r P"
  by (auto simp: yields_def)

section \<open>Chains of forward pointers\<close>

text \<open>
  \<open>path ld l ns v\<close>: where \<open>ld\<close> gives the contents of the forward pointers, following the one at \<open>l\<close>
  leads through \<open>ns\<close> to the value \<open>v\<close>.
\<close>

fun path :: "(('h, 'n) loc \<Rightarrow> 'n option option) \<Rightarrow> ('h, 'n) loc \<Rightarrow> 'n list \<Rightarrow> 'n option \<Rightarrow> bool" where
  "path ld l [] v \<longleftrightarrow> ld l = Some v"
| "path ld l (n # ns) v \<longleftrightarrow> ld l = Some (Some n) \<and> path ld (Next n) ns v"

text \<open>The location of the last pointer of a chain.\<close>

fun end_loc :: "('h, 'n) loc \<Rightarrow> 'n list \<Rightarrow> ('h, 'n) loc" where
  "end_loc l [] = l"
| "end_loc l (n # ns) = end_loc (Next n) ns"

text \<open>\<open>backs pv l ns\<close>: every node of the chain points back at the pointer to it.\<close>

fun backs :: "('n \<Rightarrow> ('h, 'n) loc option) \<Rightarrow> ('h, 'n) loc \<Rightarrow> 'n list \<Rightarrow> bool" where
  "backs pv l [] \<longleftrightarrow> True"
| "backs pv l (n # ns) \<longleftrightarrow> pv n = Some l \<and> backs pv (Next n) ns"

lemma end_loc_append [simp]: "end_loc l (xs @ ys) = end_loc (end_loc l xs) ys"
  by (induction xs arbitrary: l) auto

lemma end_loc_cases: "end_loc l ns = l \<and> ns = [] \<or> (\<exists>n. end_loc l ns = Next n \<and> ns \<noteq> [] \<and> n = last ns \<and> n \<in> set ns)"
  by (cases ns rule: rev_cases) auto

lemma end_loc_not_next: "n \<notin> set ns \<Longrightarrow> l \<noteq> Next n \<Longrightarrow> end_loc l ns \<noteq> Next n"
  using end_loc_cases [of l ns] by auto

lemma end_loc_not_first: "end_loc (First h) ns \<noteq> First k \<longleftrightarrow> ns \<noteq> [] \<or> h \<noteq> k"
  using end_loc_cases [of "First h" ns] by auto

lemma path_append: "path ld l (xs @ y # ys) v \<longleftrightarrow> path ld l xs (Some y) \<and> path ld (Next y) ys v"
  by (induction xs arbitrary: l) auto

lemma path_load_end: "path ld l ns v \<Longrightarrow> ld (end_loc l ns) = Some v"
  by (induction ns arbitrary: l) auto

lemma path_hd: "path ld l ns None \<Longrightarrow> ld l = Some (head_of ns)"
  by (cases ns) auto

lemma path_alloc: "path ld l ns v \<Longrightarrow> n \<in> set ns \<Longrightarrow> ld (Next n) \<noteq> None"
  by (induction ns arbitrary: l) (auto elim: path.elims)

lemma path_move: "path ld l ns v \<Longrightarrow> ld' l' = ld l \<Longrightarrow> (\<And>n. n \<in> set ns \<Longrightarrow> ld' (Next n) = ld (Next n)) \<Longrightarrow> path ld' l' ns v"
  by (induction ns arbitrary: l l') auto

lemma path_end: "path ld l xs u \<Longrightarrow> distinct xs \<Longrightarrow> l \<notin> Next ` set xs \<Longrightarrow>
    (\<And>k. k \<noteq> end_loc l xs \<Longrightarrow> k \<in> insert l (Next ` set xs) \<Longrightarrow> ld' k = ld k) \<Longrightarrow>
    ld' (end_loc l xs) = Some v \<Longrightarrow> path ld' l xs v"
proof (induction xs arbitrary: l)
  case Nil
  then show ?case by simp
next
  case (Cons x xs)
  have ne: "l \<noteq> end_loc (Next x) xs" using Cons.prems(2,3) end_loc_cases [of "Next x" xs] by auto
  have "path ld' (Next x) xs v"
    using Cons.prems by (intro Cons.IH) auto
  then show ?case using Cons.prems(1) Cons.prems(4) [of l] ne by simp
qed

lemma backs_append: "backs pv l (xs @ ys) \<longleftrightarrow> backs pv l xs \<and> backs pv (end_loc l xs) ys"
  by (induction xs arbitrary: l) auto

lemma backs_cong: "backs pv l ns \<Longrightarrow> (\<And>n. n \<in> set ns \<Longrightarrow> pv' n = pv n) \<Longrightarrow> backs pv' l ns"
  by (induction ns arbitrary: l) auto

section \<open>All lists of the memory\<close>

text \<open>\<open>L h\<close> is the list of nodes of head \<open>h\<close>; no node is in two places.\<close>

definition apart :: "('h \<Rightarrow> 'n list) \<Rightarrow> bool" where
  "apart L \<longleftrightarrow> (\<forall>h. distinct (L h)) \<and> (\<forall>h k. h \<noteq> k \<longrightarrow> set (L h) \<inter> set (L k) = {})"

definition linked :: "(('h, 'n) loc \<Rightarrow> 'n option option) \<Rightarrow> ('h \<Rightarrow> 'n list) \<Rightarrow> bool" where
  "linked ld L \<longleftrightarrow> (\<forall>h. path ld (First h) (L h) None)"

definition linked_back :: "('n \<Rightarrow> ('h, 'n) loc option) \<Rightarrow> ('h \<Rightarrow> 'n list) \<Rightarrow> bool" where
  "linked_back pv L \<longleftrightarrow> (\<forall>h. backs pv (First h) (L h))"

definition ends_at :: "('h \<Rightarrow> ('h, 'n) loc) \<Rightarrow> ('h \<Rightarrow> 'n list) \<Rightarrow> bool" where
  "ends_at lst L \<longleftrightarrow> (\<forall>h. lst h = end_loc (First h) (L h))"

definition fresh_in :: "('h \<Rightarrow> 'n list) \<Rightarrow> 'n \<Rightarrow> bool" where
  "fresh_in L n \<longleftrightarrow> (\<forall>h. n \<notin> set (L h))"

lemma apart_distinct: "apart L \<Longrightarrow> distinct (L h)"
  by (simp add: apart_def)

lemma apart_other: "apart L \<Longrightarrow> n \<in> set (L h) \<Longrightarrow> k \<noteq> h \<Longrightarrow> n \<notin> set (L k)"
  by (auto simp: apart_def)

lemma apart_update: "apart L \<Longrightarrow> distinct ns \<Longrightarrow> (\<And>n. n \<in> set ns \<Longrightarrow> n \<in> set (L h) \<or> fresh_in L n) \<Longrightarrow> apart (L(h := ns))"
  by (fastforce simp: apart_def fresh_in_def)

lemma apart_concat: "apart L \<Longrightarrow> h \<noteq> k \<Longrightarrow> apart (L(h := L h @ L k, k := []))"
  by (auto simp: apart_def)

lemma apart_swap: "apart L \<Longrightarrow> apart (L(h := L k, k := L h))"
  by (auto simp: apart_def)

lemma next_image [simp]: "Next n \<in> Next ` A \<longleftrightarrow> n \<in> A" "First h \<notin> Next ` A"
  by auto

text \<open>An operation on one list, which writes to its head, its nodes and unused nodes only.\<close>

lemma linked_update:
  assumes "apart L" "linked ld L" "path ld' (First h) ns None"
    and frame: "\<And>l. l \<noteq> First h \<Longrightarrow> (\<And>n. l = Next n \<Longrightarrow> n \<notin> set (L h) \<and> \<not> fresh_in L n) \<Longrightarrow> ld' l = ld l"
  shows "linked ld' (L(h := ns))"
proof -
  have "path ld' (First k) (L k) None" if k: "k \<noteq> h" for k
  proof (rule path_move)
    show "path ld (First k) (L k) None" using assms(2) by (simp add: linked_def)
    show "ld' (First k) = ld (First k)" using k by (intro frame) auto
    show "ld' (Next n) = ld (Next n)" if "n \<in> set (L k)" for n
      using that k assms(1) by (intro frame) (auto simp: apart_def fresh_in_def)
  qed
  then show ?thesis using assms(3) by (simp add: linked_def)
qed

lemma backs_update:
  assumes "apart L" "linked_back pv L" "backs pv' (First h) ns"
    and frame: "\<And>n. n \<notin> set (L h) \<Longrightarrow> \<not> fresh_in L n \<Longrightarrow> pv' n = pv n"
  shows "linked_back pv' (L(h := ns))"
proof -
  have "backs pv' (First k) (L k)" if k: "k \<noteq> h" for k
  proof (rule backs_cong)
    show "backs pv (First k) (L k)" using assms(2) by (simp add: linked_back_def)
    show "pv' n = pv n" if "n \<in> set (L k)" for n
      using that k assms(1) by (intro frame) (auto simp: apart_def fresh_in_def)
  qed
  then show ?thesis using assms(3) by (simp add: linked_back_def)
qed

text \<open>Where a list is cut in two, and the location of the pointer between the halves.\<close>

lemma linked_cut:
  assumes "apart L" "linked ld L" "L h = xs @ ys"
  shows "path ld (First h) xs (head_of ys)" "path ld (end_loc (First h) xs) ys None"
    "ld (end_loc (First h) xs) = Some (head_of ys)" "distinct xs" "distinct ys" "set xs \<inter> set ys = {}"
    "end_loc (First h) xs = First h \<or> (\<exists>x\<in>set xs. end_loc (First h) xs = Next x)"
proof -
  have whole: "path ld (First h) (xs @ ys) None" using assms(2,3) by (metis linked_def)
  then show xs: "path ld (First h) xs (head_of ys)" by (cases ys) (auto simp: path_append)
  then show e: "ld (end_loc (First h) xs) = Some (head_of ys)" by (rule path_load_end)
  show "path ld (end_loc (First h) xs) ys None" using whole e by (cases ys) (auto simp: path_append)
  show "distinct xs" "distinct ys" "set xs \<inter> set ys = {}"
    using apart_distinct [OF assms(1), of h] assms(3) by auto
  show "end_loc (First h) xs = First h \<or> (\<exists>x\<in>set xs. end_loc (First h) xs = Next x)"
    using end_loc_cases [of "First h" xs] by auto
qed

section \<open>Insertion\<close>

lemma linked_insert:
  assumes "apart L" and "linked ld L" and h: "L h = xs @ ys" and n: "fresh_in L n"
    and p: "p = end_loc (First h) xs"
  shows "linked (ld(Next n := ld p, p := Some (Some n))) (L(h := xs @ n # ys))"
proof (rule linked_update [OF assms(1,2)])
  note cut = linked_cut [OF assms(1,2) h, folded p]
  have n': "n \<notin> set xs" "n \<notin> set ys" using n h by (auto simp: fresh_in_def dest: spec [of _ h])
  let ?ld = "ld(Next n := ld p, p := Some (Some n))"
  have "path ?ld (First h) xs (Some n)"
    by (rule path_end [OF cut(1)]) (use cut n' p in auto)
  moreover have "path ?ld (Next n) ys None"
    by (rule path_move [OF cut(2)]) (use cut n' in auto)
  ultimately show "path ?ld (First h) (xs @ n # ys) None" by (simp add: path_append)
  fix l
  assume "l \<noteq> First h" "\<And>m. l = Next m \<Longrightarrow> m \<notin> set (L h) \<and> \<not> fresh_in L m"
  then show "?ld l = ld l" using cut(7) n h by auto
qed

lemma backs_insert:
  assumes "apart L" and "linked_back pv L" and h: "L h = xs @ ys" and n: "fresh_in L n"
    and pv: "pv' n = Some (end_loc (First h) xs)" "\<And>y zs. ys = y # zs \<Longrightarrow> pv' y = Some (Next n)"
      "\<And>k. k \<noteq> n \<Longrightarrow> Some k \<noteq> head_of ys \<Longrightarrow> pv' k = pv k"
  shows "linked_back pv' (L(h := xs @ n # ys))"
proof (rule backs_update [OF assms(1,2)])
  have n': "n \<notin> set xs" "n \<notin> set ys" using n h by (auto simp: fresh_in_def dest: spec [of _ h])
  have d: "distinct (xs @ ys)" using apart_distinct [OF assms(1), of h] h by simp
  have old: "backs pv (First h) xs" "backs pv (end_loc (First h) xs) ys"
    using assms(2) h by (metis linked_back_def backs_append)+
  have "backs pv' (First h) xs"
    by (rule backs_cong [OF old(1)], rule pv(3)) (use n' d in \<open>auto simp: head_of_def split: list.splits\<close>)
  moreover have "backs pv' (Next n) ys"
  proof (cases ys)
    case (Cons y zs)
    have "backs pv' (Next y) zs"
      by (rule backs_cong [of pv], use old(2) Cons in simp, rule pv(3)) (use n' d Cons in auto)
    then show ?thesis using Cons pv(2) by simp
  qed simp
  ultimately show "backs pv' (First h) (xs @ n # ys)" using pv(1) by (simp add: backs_append)
  fix k
  assume "k \<notin> set (L h)" "\<not> fresh_in L k"
  then show "pv' k = pv k" using n h by (intro pv(3)) (auto simp: head_of_def split: list.splits)
qed

lemma ends_insert: "ends_at lst L \<Longrightarrow> L h = xs @ ys \<Longrightarrow>
    ends_at (if ys = [] then lst(h := Next n) else lst) (L(h := xs @ n # ys))"
  by (cases ys) (auto simp: ends_at_def)

section \<open>Removal\<close>

lemma linked_remove:
  assumes "apart L" and "linked ld L" and h: "L h = xs @ n # ys" and p: "p = end_loc (First h) xs"
  shows "linked (ld(p := ld (Next n))) (L(h := xs @ ys))"
proof (rule linked_update [OF assms(1,2)])
  note cut = linked_cut [OF assms(1,2) h, folded p]
  let ?ld = "ld(p := ld (Next n))"
  have ys: "path ld (Next n) ys None" using cut(2) by simp
  have "path ?ld (First h) xs (head_of ys)"
    by (rule path_end [OF cut(1)]) (use cut p path_hd [OF ys] in auto)
  then show "path ?ld (First h) (xs @ ys) None"
  proof (cases ys)
    case (Cons y zs)
    have "path ?ld (Next y) zs None"
      by (rule path_move [of ld "Next y"]) (use ys cut Cons in auto)
    with \<open>path ?ld (First h) xs (head_of ys)\<close> Cons show ?thesis by (simp add: path_append)
  qed simp
  fix l
  assume "l \<noteq> First h" "\<And>m. l = Next m \<Longrightarrow> m \<notin> set (L h) \<and> \<not> fresh_in L m"
  then show "?ld l = ld l" using cut(7) h by auto
qed

lemma backs_remove:
  assumes "apart L" and "linked_back pv L" and h: "L h = xs @ n # ys"
    and pv: "\<And>y zs. ys = y # zs \<Longrightarrow> pv' y = pv n" "\<And>k. Some k \<noteq> head_of ys \<Longrightarrow> pv' k = pv k"
  shows "linked_back pv' (L(h := xs @ ys))"
proof (rule backs_update [OF assms(1,2)])
  have d: "distinct (xs @ n # ys)" using apart_distinct [OF assms(1), of h] h by simp
  have old: "backs pv (First h) xs" "pv n = Some (end_loc (First h) xs)" "backs pv (Next n) ys"
    using assms(2) h by (metis linked_back_def backs_append backs.simps(2))+
  have "backs pv' (First h) xs"
    by (rule backs_cong [OF old(1)], rule pv(2)) (use d in \<open>auto simp: head_of_def split: list.splits\<close>)
  moreover have "backs pv' (end_loc (First h) xs) ys"
  proof (cases ys)
    case (Cons y zs)
    have "backs pv' (Next y) zs"
      by (rule backs_cong [of pv], use old(3) Cons in simp, rule pv(2)) (use d Cons in auto)
    then show ?thesis using Cons pv(1) old(2) by simp
  qed simp
  ultimately show "backs pv' (First h) (xs @ ys)" by (simp add: backs_append)
  fix k
  assume "k \<notin> set (L h)" "\<not> fresh_in L k"
  then show "pv' k = pv k" using h by (intro pv(2)) (auto simp: head_of_def split: list.splits)
qed

lemma ends_remove: "ends_at lst L \<Longrightarrow> L h = xs @ n # ys \<Longrightarrow>
    ends_at (if ys = [] then lst(h := end_loc (First h) xs) else lst) (L(h := xs @ ys))"
  by (cases ys) (auto simp: ends_at_def)

section \<open>Concatenation, exchange and emptying\<close>

lemma apart_head: "apart L \<Longrightarrow> j \<noteq> k \<Longrightarrow> n \<in> set (L j) \<Longrightarrow> Some n \<noteq> head_of (L k)"
  by (auto simp: head_of_def dest: apart_other split: list.splits)

lemma apart_tail:
  assumes "apart L" "L j = y # zs" "n \<in> set zs"
  shows "Some n \<noteq> head_of (L k)"
proof (cases "k = j")
  case True
  then show ?thesis using assms apart_distinct [OF assms(1), of j] by auto
next
  case False
  then show ?thesis using assms by (intro apart_head [of L j]) auto
qed

lemma linked_concat:
  assumes "apart L" and "linked ld L" and "h \<noteq> k" and p: "p = end_loc (First h) (L h)"
  shows "linked (ld(p := ld (First k), First k := Some None)) (L(h := L h @ L k, k := []))"
proof -
  note cut = linked_cut [OF assms(1,2), of h "L h" "[]", simplified, folded p]
  let ?ld = "ld(p := ld (First k), First k := Some None)"
  have k: "path ld (First k) (L k) None" "set (L h) \<inter> set (L k) = {}" "distinct (L k)" and pk: "p \<noteq> First k"
    using assms cut(7) by (auto simp: linked_def apart_def)
  have "path ?ld (First h) (L h) (head_of (L k))"
    by (rule path_end [OF cut(1)]) (use cut p pk assms(3) path_hd [OF k(1)] in auto)
  then have "path ?ld (First h) (L h @ L k) None"
  proof (cases "L k")
    case (Cons y zs)
    have "path ?ld (Next y) zs None"
      by (rule path_move [of ld "Next y"]) (use k cut Cons in auto)
    with \<open>path ?ld (First h) (L h) (head_of (L k))\<close> Cons show ?thesis by (simp add: path_append)
  qed simp
  moreover have "path ?ld (First j) (L j) None" if "j \<noteq> h" "j \<noteq> k" for j
    by (rule path_move [of ld "First j"])
      (use assms(2) that cut(7) in \<open>auto simp: linked_def dest: apart_other [OF assms(1) _ that(1)]\<close>)
  ultimately show ?thesis by (auto simp: linked_def)
qed

lemma backs_concat:
  assumes "apart L" and "linked_back pv L" and "h \<noteq> k"
    and pv: "\<And>y zs. L k = y # zs \<Longrightarrow> pv' y = Some (end_loc (First h) (L h))"
      "\<And>j. Some j \<noteq> head_of (L k) \<Longrightarrow> pv' j = pv j"
  shows "linked_back pv' (L(h := L h @ L k, k := []))"
proof -
  have other: "backs pv' (First j) (L j)" if "j \<noteq> k" for j
    by (rule backs_cong [of pv], use assms(2) in \<open>simp add: linked_back_def\<close>, rule pv(2), rule apart_head)
      (use assms(1) that in auto)
  have "backs pv' (end_loc (First h) (L h)) (L k)"
  proof (cases "L k")
    case (Cons y zs)
    have "backs pv (First k) (L k)" using assms(2) by (simp add: linked_back_def)
    then have zs: "backs pv (Next y) zs" using Cons by simp
    have "backs pv' (Next y) zs"
      by (rule backs_cong [OF zs], rule pv(2)) (rule apart_tail [OF assms(1) Cons])
    then show ?thesis using Cons pv(1) by simp
  qed simp
  then show ?thesis using other assms(3) by (auto simp: linked_back_def backs_append)
qed

lemma ends_concat: "ends_at lst L \<Longrightarrow> h \<noteq> k \<Longrightarrow> L k \<noteq> [] \<Longrightarrow>
    ends_at (lst(h := lst k, k := First k)) (L(h := L h @ L k, k := []))"
  by (cases "L k") (auto simp: ends_at_def)

lemma linked_swap:
  assumes "apart L" and "linked ld L"
  shows "linked (ld(First h := ld (First k), First k := ld (First h))) (L(h := L k, k := L h))"
proof -
  have p: "path ld (First j) (L j) None" for j using assms(2) by (simp add: linked_def)
  let ?ld = "ld(First h := ld (First k), First k := ld (First h))"
  have "path ?ld (First h) (L k) None" by (rule path_move [OF p [of k]]) auto
  moreover have "path ?ld (First k) (L h) None" by (rule path_move [OF p [of h]]) auto
  moreover have "path ?ld (First j) (L j) None" if "j \<noteq> h" "j \<noteq> k" for j
    by (rule path_move [OF p [of j]]) (use that in auto)
  ultimately show ?thesis by (auto simp: linked_def)
qed

lemma backs_swap:
  assumes "apart L" and "linked_back pv L" and "h \<noteq> k"
    and pv: "\<And>y zs. L k = y # zs \<Longrightarrow> pv' y = Some (First h)" "\<And>y zs. L h = y # zs \<Longrightarrow> pv' y = Some (First k)"
      "\<And>j. Some j \<noteq> head_of (L h) \<Longrightarrow> Some j \<noteq> head_of (L k) \<Longrightarrow> pv' j = pv j"
  shows "linked_back pv' (L(h := L k, k := L h))"
proof -
  have tails: "backs pv' (Next y) zs" if "L j = y # zs" "j = h \<or> j = k" for j y zs
    by (rule backs_cong [of pv], use assms(2) that in \<open>metis linked_back_def backs.simps(2)\<close>, rule pv(3))
      (use that in \<open>auto dest: apart_tail [OF assms(1)]\<close>)
  have "backs pv' (First h) (L k)" using pv(1) tails [of k] by (cases "L k") auto
  moreover have "backs pv' (First k) (L h)" using pv(2) tails [of h] by (cases "L h") auto
  moreover have "backs pv' (First j) (L j)" if "j \<noteq> h" "j \<noteq> k" for j
    by (rule backs_cong [of pv], use assms(2) in \<open>simp add: linked_back_def\<close>, rule pv(3))
      (use that in \<open>auto dest: apart_head [OF assms(1)]\<close>)
  ultimately show ?thesis by (auto simp: linked_back_def)
qed

lemma ends_swap: "ends_at lst L \<Longrightarrow> h \<noteq> k \<Longrightarrow>
    ends_at (lst(h := if L k = [] then First h else lst k, k := if L h = [] then First k else lst h))
      (L(h := L k, k := L h))"
  by (cases "L k"; cases "L h") (auto simp: ends_at_def)

lemma linked_init: "linked ld L \<Longrightarrow> linked (ld(First h := Some None)) (L(h := []))"
  unfolding linked_def by (auto intro: path_move)

lemma backs_init: "linked_back pv L \<Longrightarrow> linked_back pv (L(h := []))"
  by (simp add: linked_back_def)

lemma ends_init: "ends_at lst L \<Longrightarrow> ends_at (lst(h := First h)) (L(h := []))"
  by (simp add: ends_at_def)

section \<open>Loops\<close>

text \<open>The loops of the macros that walk to the end of a list, or to the node before \<open>elm\<close>.\<close>

partial_function (option) walk_to_last :: "(('h, 'n) loc \<Rightarrow> 'n option option) \<Rightarrow> 'n \<Rightarrow> 'n option" where
  "walk_to_last ld curelm =
     Option.bind (ld (Next curelm)) (\<lambda>v. case v of None \<Rightarrow> Some curelm | Some n \<Rightarrow> walk_to_last ld n)"

partial_function (option) walk_before :: "(('h, 'n) loc \<Rightarrow> 'n option option) \<Rightarrow> 'n \<Rightarrow> 'n \<Rightarrow> 'n option" where
  "walk_before ld elm curelm =
     Option.bind (ld (Next curelm)) (\<lambda>v.
       if v = Some elm then Some curelm
       else case v of None \<Rightarrow> None \<comment> \<open>the next test reads through NULL\<close> | Some n \<Rightarrow> walk_before ld elm n)"

lemma walk_to_last: "path ld (Next n) ns None \<Longrightarrow> walk_to_last ld n = Some (last (n # ns))"
  by (induction ns arbitrary: n) (auto simp: walk_to_last.simps)

lemma walk_before: "path ld (Next n) (xs @ elm # ys) v \<Longrightarrow> elm \<notin> set xs \<Longrightarrow> walk_before ld elm n = Some (last (n # xs))"
  by (induction xs arbitrary: n) (auto simp: walk_before.simps)

lemma end_loc_last: "end_loc l (n # ns) = Next (last (n # ns))"
  by (induction ns arbitrary: l n) auto

text \<open>
  The loops over a list that do not allow for a removal of the current node: the next node is read after
  the body.
\<close>

partial_function (option) foreach :: "('n \<Rightarrow> 's \<Rightarrow> 'n option option) \<Rightarrow> ('n \<Rightarrow> 's \<Rightarrow> 's option) \<Rightarrow> 'n option \<Rightarrow> 's \<Rightarrow>
    's option" where
  "foreach nxt body v s =
     (case v of None \<Rightarrow> Some s
      | Some n \<Rightarrow> Option.bind (body n s) (\<lambda>s1. Option.bind (nxt n s1) (\<lambda>v1. foreach nxt body v1 s1)))"

lemma foreach_end: "foreach nxt body None s = Some s"
  by (simp add: foreach.simps)

lemma foreach_turn: "body n s = Some s1 \<Longrightarrow> nxt n s1 = Some v \<Longrightarrow> foreach nxt body (Some n) s = foreach nxt body v s1"
  by (subst foreach.simps) simp

lemma foreach_safe_end: "foreach_safe nxt body None s = Some s"
  by (simp add: foreach_safe.simps)

lemma foreach_safe_turn: "nxt n s = Some v \<Longrightarrow> body n s = Some s1 \<Longrightarrow>
    foreach_safe nxt body (Some n) s = foreach_safe nxt body v s1"
  by (subst foreach_safe.simps) simp

text \<open>\<open>order nxt s ns\<close>: from each node of \<open>ns\<close>, \<open>nxt\<close> leads to the following one.\<close>

fun order :: "('n \<Rightarrow> 's \<Rightarrow> 'n option option) \<Rightarrow> 's \<Rightarrow> 'n list \<Rightarrow> bool" where
  "order nxt s [] \<longleftrightarrow> True"
| "order nxt s (n # ns) \<longleftrightarrow> nxt n s = Some (head_of ns) \<and> order nxt s ns"

lemma foreach_fold:
  assumes "\<And>n s. I s \<Longrightarrow> n \<in> set ns \<Longrightarrow> body n s = Some (f n s) \<and> I (f n s)"
    and "\<And>s. I s \<Longrightarrow> order nxt s ns"
  shows "I s \<Longrightarrow> foreach nxt body (head_of ns) s = Some (fold f ns s)"
  using assms
proof (induction ns arbitrary: s)
  case Nil
  then show ?case by (simp add: foreach_end)
next
  case (Cons n ns)
  have b: "body n s = Some (f n s)" and I: "I (f n s)" using Cons.prems(1,2) by auto
  have "foreach nxt body (head_of ns) (f n s) = Some (fold f ns (f n s))"
    by (rule Cons.IH [OF I]) (use Cons.prems(2,3) in auto)
  then show ?case using foreach_turn [of body n s "f n s" nxt, OF b] Cons.prems(3) [OF I] by simp
qed

lemma foreach_safe_fold:
  assumes "\<And>n s. I s \<Longrightarrow> n \<in> set ns \<Longrightarrow> body n s = Some (f n s) \<and> I (f n s)"
    and "\<And>s. I s \<Longrightarrow> order nxt s ns"
  shows "I s \<Longrightarrow> foreach_safe nxt body (head_of ns) s = Some (fold f ns s)"
  using assms
proof (induction ns arbitrary: s)
  case Nil
  then show ?case by (simp add: foreach_safe_end)
next
  case (Cons n ns)
  have b: "body n s = Some (f n s)" and I: "I (f n s)" using Cons.prems(1,2) by auto
  have "foreach_safe nxt body (head_of ns) (f n s) = Some (fold f ns (f n s))"
    by (rule Cons.IH [OF I]) (use Cons.prems(2,3) in auto)
  then show ?case using foreach_safe_turn [of nxt n s _ body "f n s", OF _ b] Cons.prems(3) [OF Cons.prems(1)] by simp
qed

lemma orderI: "(\<And>xs n ys. ns = xs @ n # ys \<Longrightarrow> nxt n s = Some (head_of ys)) \<Longrightarrow> order nxt s ns"
  by (induction ns) (simp, metis append_Cons append_Nil order.simps(2))

lemma path_order: "path ld l ns None \<Longrightarrow> (\<And>n. nxt n s = ld (Next n)) \<Longrightarrow> order nxt s ns"
  by (induction ns arbitrary: l) (auto simp: path_hd)

section \<open>Edits of lists\<close>

text \<open>
  The operations of the header, on the lists.  The result is \<open>None\<close> where the header promises nothing:
  a node that is not allocated or already in a list, a neighbour that is not there, two heads that are one.
\<close>

datatype ('h, 'n) edit =
    Init 'h | Insert_head 'h 'n | Insert_tail 'h 'n | Insert_after 'h 'n 'n | Insert_before 'h 'n 'n
  | Remove 'h 'n | Remove_head 'h | Remove_after 'h 'n | Concat 'h 'h | Swap 'h 'h

fun put_after :: "'n \<Rightarrow> 'n \<Rightarrow> 'n list \<Rightarrow> 'n list" where
  "put_after x n [] = []"
| "put_after x n (y # ys) = (if y = x then y # n # ys else y # put_after x n ys)"

fun put_before :: "'n \<Rightarrow> 'n \<Rightarrow> 'n list \<Rightarrow> 'n list" where
  "put_before x n [] = []"
| "put_before x n (y # ys) = (if y = x then n # y # ys else y # put_before x n ys)"

fun drop_after :: "'n \<Rightarrow> 'n list \<Rightarrow> 'n list" where
  "drop_after x [] = []"
| "drop_after x (y # ys) = (if y = x then y # tl ys else y # drop_after x ys)"

fun edit_lists :: "'n set \<Rightarrow> ('h, 'n) edit \<Rightarrow> ('h \<Rightarrow> 'n list) \<Rightarrow> ('h \<Rightarrow> 'n list) option" where
  "edit_lists A (Init h) L = Some (L(h := []))"
| "edit_lists A (Insert_head h n) L = (if n \<in> A \<and> fresh_in L n then Some (L(h := n # L h)) else None)"
| "edit_lists A (Insert_tail h n) L = (if n \<in> A \<and> fresh_in L n then Some (L(h := L h @ [n])) else None)"
| "edit_lists A (Insert_after h x n) L =
     (if n \<in> A \<and> fresh_in L n \<and> x \<in> set (L h) then Some (L(h := put_after x n (L h))) else None)"
| "edit_lists A (Insert_before h x n) L =
     (if n \<in> A \<and> fresh_in L n \<and> x \<in> set (L h) then Some (L(h := put_before x n (L h))) else None)"
| "edit_lists A (Remove h n) L = (if n \<in> set (L h) then Some (L(h := remove1 n (L h))) else None)"
| "edit_lists A (Remove_head h) L = (if L h \<noteq> [] then Some (L(h := tl (L h))) else None)"
| "edit_lists A (Remove_after h x) L = (if x \<in> set (butlast (L h)) then Some (L(h := drop_after x (L h))) else None)"
| "edit_lists A (Concat h k) L = (if h \<noteq> k then Some (L(h := L h @ L k, k := [])) else None)"
| "edit_lists A (Swap h k) L = (if h \<noteq> k then Some (L(h := L k, k := L h)) else None)"

fun run_edits :: "('e \<Rightarrow> 'm \<Rightarrow> 'm option) \<Rightarrow> 'e list \<Rightarrow> 'm \<Rightarrow> 'm option" where
  "run_edits step [] m = Some m"
| "run_edits step (e # es) m = Option.bind (step e m) (run_edits step es)"

lemma put_after_split: "x \<notin> set xs \<Longrightarrow> put_after x n (xs @ x # ys) = xs @ x # n # ys"
  by (induction xs) auto

lemma put_before_split: "x \<notin> set xs \<Longrightarrow> put_before x n (xs @ x # ys) = xs @ n # x # ys"
  by (induction xs) auto

lemma drop_after_split: "x \<notin> set xs \<Longrightarrow> drop_after x (xs @ x # y # ys) = xs @ x # ys"
  by (induction xs) auto

lemma in_butlast_split:
  assumes "x \<in> set (butlast xs)"
  obtains ys y zs where "xs = ys @ x # y # zs" "x \<notin> set ys"
proof -
  obtain b where "xs = butlast xs @ [b]" using assms by (metis append_butlast_last_id butlast.simps(1) empty_iff list.set(1))
  moreover obtain ys zs where "butlast xs = ys @ x # zs" "x \<notin> set ys" using split_list_first [OF assms] by blast
  ultimately have "xs = ys @ x # (zs @ [b])" by simp
  then show thesis using \<open>x \<notin> set ys\<close> that by (cases "zs @ [b]") auto
qed

text \<open>
  A kind of list: its operations as one function of the edit, the lists its memory represents, and which
  edits it offers.  An edit that lists allow then succeeds, and the memory represents the edited lists.
\<close>

locale list_kind =
  fixes step :: "('h, 'n) edit \<Rightarrow> 'm \<Rightarrow> 'm option"
    and lists :: "'m \<Rightarrow> ('h \<Rightarrow> 'n list) \<Rightarrow> bool"
    and allocated :: "'m \<Rightarrow> 'n set"
    and offers :: "('h, 'n) edit \<Rightarrow> bool"
  assumes step_law: "lists m L \<Longrightarrow> offers e \<Longrightarrow> edit_lists (allocated m) e L = Some L' \<Longrightarrow>
    yields (step e m) (\<lambda>m'. lists m' L' \<and> allocated m' = allocated m)"
begin

lemma run_law: "lists m L \<Longrightarrow> list_all offers es \<Longrightarrow> run_edits (edit_lists (allocated m)) es L = Some L' \<Longrightarrow>
    yields (run_edits step es m) (\<lambda>m'. lists m' L' \<and> allocated m' = allocated m)"
proof (induction es arbitrary: m L)
  case Nil
  then show ?case by simp
next
  case (Cons e es)
  then obtain L1 where L1: "edit_lists (allocated m) e L = Some L1" "run_edits (edit_lists (allocated m)) es L1 = Some L'"
    by (auto simp: bind_eq_Some_conv)
  have "yields (step e m) (\<lambda>m'. lists m' L1 \<and> allocated m' = allocated m)"
    using Cons.prems(1,2) L1(1) by (intro step_law) auto
  then have "yields (step e m) (\<lambda>m1. yields (run_edits step es m1) (\<lambda>m'. lists m' L' \<and> allocated m' = allocated m))"
  proof (rule yields_mono)
    fix m1
    assume m1: "lists m1 L1 \<and> allocated m1 = allocated m"
    with Cons.IH [of m1 L1] Cons.prems(2) L1(2)
    show "yields (run_edits step es m1) (\<lambda>m'. lists m' L' \<and> allocated m' = allocated m)" by simp
  qed
  then show ?case by (simp add: yields_bind)
qed

end

end
