(* ===== verification/TailQueue.thy ===== *)
theory TailQueue
  imports Links "HOL-Library.Monad_Syntax"
begin

text \<open>
  The tail queues of src/server/queue.h, of which the server uses one for its connections: doubly
  linked lists whose head also has the address of the last forward pointer.  All operations are proved
  to be the operations on lists of nodes that they are meant to be, for any number of queues in one
  memory.  \<open>None\<close> is the use of a node that is not allocated, or of NULL.  The macros for tracing
  (\<open>QMD_TRACE\<close>, \<open>TRASHIT\<close>) are empty, as in every build that does not define \<open>QUEUE_MACRO_DEBUG\<close>; those
  for checking, empty outside a kernel, are proved never to panic on such a queue.
\<close>

section \<open>Structures\<close>

record ('h, 'n) tailq_head =
  tqh_first :: "'n option"
  tqh_last :: "('h, 'n) loc"

record ('h, 'n) tailq_entry =
  tqe_next :: "'n option"
  tqe_prev :: "('h, 'n) loc"

type_synonym ('h, 'n) tailq = "('h, 'n, ('h, 'n) tailq_head, ('h, 'n) tailq_entry) links"

definition TAILQ_HEAD_INITIALIZER :: "'h \<Rightarrow> ('h, 'n) tailq_head" where
  "TAILQ_HEAD_INITIALIZER h = \<lparr>tqh_first = None, tqh_last = First h\<rparr>"

text \<open>Reading and writing the members through a pointer.\<close>

definition tailq_load :: "('h, 'n) tailq \<Rightarrow> ('h, 'n) loc \<Rightarrow> 'n option option" where
  "tailq_load = load_link tqh_first tqe_next"

definition tailq_store :: "('h, 'n) loc \<Rightarrow> 'n option \<Rightarrow> ('h, 'n) tailq \<Rightarrow> ('h, 'n) tailq option" where
  "tailq_store = store_link tqh_first_update tqe_next_update"

definition tailq_prev :: "('h, 'n) tailq \<Rightarrow> 'n \<Rightarrow> ('h, 'n) loc option" where
  "tailq_prev m n = map_option tqe_prev (field m n)"

definition set_tqe_prev :: "'n \<Rightarrow> ('h, 'n) loc \<Rightarrow> ('h, 'n) tailq \<Rightarrow> ('h, 'n) tailq option" where
  "set_tqe_prev n l m = map_option (\<lambda>e. m\<lparr>field := (field m)(n \<mapsto> e\<lparr>tqe_prev := l\<rparr>)\<rparr>) (field m n)"

definition tailq_last :: "('h, 'n) tailq \<Rightarrow> 'h \<Rightarrow> ('h, 'n) loc" where
  "tailq_last m h = tqh_last (heads m h)"

definition set_tqh_last :: "'h \<Rightarrow> ('h, 'n) loc \<Rightarrow> ('h, 'n) tailq \<Rightarrow> ('h, 'n) tailq" where
  "set_tqh_last h l m = m\<lparr>heads := (heads m)(h := (heads m h)\<lparr>tqh_last := l\<rparr>)\<rparr>"

section \<open>Operations\<close>

definition TAILQ_FIRST :: "'h \<Rightarrow> ('h, 'n) tailq \<Rightarrow> 'n option" where
  "TAILQ_FIRST h m = tqh_first (heads m h)"

definition TAILQ_EMPTY :: "'h \<Rightarrow> ('h, 'n) tailq \<Rightarrow> bool" where
  "TAILQ_EMPTY h m \<longleftrightarrow> tqh_first (heads m h) = None"

definition TAILQ_NEXT :: "'n \<Rightarrow> ('h, 'n) tailq \<Rightarrow> 'n option option" where
  "TAILQ_NEXT elm m = map_option tqe_next (field m elm)"

definition TAILQ_INIT :: "'h \<Rightarrow> ('h, 'n) tailq \<Rightarrow> ('h, 'n) tailq" where
  "TAILQ_INIT h m =
     set_tqh_last h (First h) (m\<lparr>heads := (heads m)(h := (heads m h)\<lparr>tqh_first := None\<rparr>)\<rparr>)"

definition TAILQ_CONCAT :: "'h \<Rightarrow> 'h \<Rightarrow> ('h, 'n) tailq \<Rightarrow> ('h, 'n) tailq option" where
  "TAILQ_CONCAT head1 head2 m =
     (if \<not> TAILQ_EMPTY head2 m
      then do {
        m1 \<leftarrow> tailq_store (tailq_last m head1) (TAILQ_FIRST head2 m) m;
        n \<leftarrow> TAILQ_FIRST head2 m1;
        m2 \<leftarrow> set_tqe_prev n (tailq_last m1 head1) m1;
        Some (TAILQ_INIT head2 (set_tqh_last head1 (tailq_last m2 head2) m2))
      }
      else Some m)"

definition TAILQ_INSERT_AFTER :: "'h \<Rightarrow> 'n \<Rightarrow> 'n \<Rightarrow> ('h, 'n) tailq \<Rightarrow> ('h, 'n) tailq option" where
  "TAILQ_INSERT_AFTER h listelm elm m = do {
     v \<leftarrow> TAILQ_NEXT listelm m;
     m1 \<leftarrow> tailq_store (Next elm) v m;
     m2 \<leftarrow> (case v of Some x \<Rightarrow> set_tqe_prev x (Next elm) m1 | None \<Rightarrow> Some (set_tqh_last h (Next elm) m1));
     m3 \<leftarrow> tailq_store (Next listelm) (Some elm) m2;
     set_tqe_prev elm (Next listelm) m3
   }"

definition TAILQ_INSERT_BEFORE :: "'n \<Rightarrow> 'n \<Rightarrow> ('h, 'n) tailq \<Rightarrow> ('h, 'n) tailq option" where
  "TAILQ_INSERT_BEFORE listelm elm m = do {
     l \<leftarrow> tailq_prev m listelm;
     m1 \<leftarrow> set_tqe_prev elm l m;
     m2 \<leftarrow> tailq_store (Next elm) (Some listelm) m1;
     l2 \<leftarrow> tailq_prev m2 listelm;
     m3 \<leftarrow> tailq_store l2 (Some elm) m2;
     set_tqe_prev listelm (Next elm) m3
   }"

definition TAILQ_INSERT_HEAD :: "'h \<Rightarrow> 'n \<Rightarrow> ('h, 'n) tailq \<Rightarrow> ('h, 'n) tailq option" where
  "TAILQ_INSERT_HEAD h elm m = do {
     m1 \<leftarrow> tailq_store (Next elm) (TAILQ_FIRST h m) m;
     m2 \<leftarrow> (case TAILQ_FIRST h m of
              Some x \<Rightarrow> set_tqe_prev x (Next elm) m1
            | None \<Rightarrow> Some (set_tqh_last h (Next elm) m1));
     m3 \<leftarrow> tailq_store (First h) (Some elm) m2;
     set_tqe_prev elm (First h) m3
   }"

definition TAILQ_INSERT_TAIL :: "'h \<Rightarrow> 'n \<Rightarrow> ('h, 'n) tailq \<Rightarrow> ('h, 'n) tailq option" where
  "TAILQ_INSERT_TAIL h elm m = do {
     m1 \<leftarrow> tailq_store (Next elm) None m;
     m2 \<leftarrow> set_tqe_prev elm (tailq_last m1 h) m1;
     m3 \<leftarrow> tailq_store (tailq_last m2 h) (Some elm) m2;
     Some (set_tqh_last h (Next elm) m3)
   }"

text \<open>
  \<open>TAILQ_LAST\<close> and \<open>TAILQ_PREV\<close> read the second member of the structure with the forward pointer at \<open>l\<close>,
  taken for a head, and the pointer that it points to: head and entry have the same layout.
\<close>

definition second_member :: "('h, 'n) loc \<Rightarrow> ('h, 'n) tailq \<Rightarrow> ('h, 'n) loc option" where
  "second_member l m = (case l of First h \<Rightarrow> Some (tailq_last m h) | Next n \<Rightarrow> tailq_prev m n)"

definition TAILQ_LAST :: "'h \<Rightarrow> ('h, 'n) tailq \<Rightarrow> 'n option option" where
  "TAILQ_LAST h m = Option.bind (second_member (tailq_last m h) m) (tailq_load m)"

definition TAILQ_PREV :: "'n \<Rightarrow> ('h, 'n) tailq \<Rightarrow> 'n option option" where
  "TAILQ_PREV elm m = do {
     l \<leftarrow> tailq_prev m elm;
     l2 \<leftarrow> second_member l m;
     tailq_load m l2
   }"

definition TAILQ_REMOVE :: "'h \<Rightarrow> 'n \<Rightarrow> ('h, 'n) tailq \<Rightarrow> ('h, 'n) tailq option" where
  "TAILQ_REMOVE h elm m = do {
     v \<leftarrow> TAILQ_NEXT elm m;
     l \<leftarrow> tailq_prev m elm;
     m1 \<leftarrow> (case v of Some x \<Rightarrow> set_tqe_prev x l m | None \<Rightarrow> Some (set_tqh_last h l m));
     l1 \<leftarrow> tailq_prev m1 elm;
     v1 \<leftarrow> TAILQ_NEXT elm m1;
     tailq_store l1 v1 m1
   }"

text \<open>The second half of \<open>TAILQ_SWAP\<close>, once for each head.\<close>

definition tailq_adopt :: "'h \<Rightarrow> ('h, 'n) tailq \<Rightarrow> ('h, 'n) tailq option" where
  "tailq_adopt h m =
     (case TAILQ_FIRST h m of
        Some swap_first \<Rightarrow> set_tqe_prev swap_first (First h) m
      | None \<Rightarrow> Some (set_tqh_last h (First h) m))"

definition TAILQ_SWAP :: "'h \<Rightarrow> 'h \<Rightarrow> ('h, 'n) tailq \<Rightarrow> ('h, 'n) tailq option" where
  "TAILQ_SWAP head1 head2 m =
     (let swap_first = TAILQ_FIRST head1 m; swap_last = tailq_last m head1;
          m1 = m\<lparr>heads := (heads m)(head1 := \<lparr>tqh_first = TAILQ_FIRST head2 m, tqh_last = tailq_last m head2\<rparr>)\<rparr>;
          m2 = m1\<lparr>heads := (heads m1)(head2 := \<lparr>tqh_first = swap_first, tqh_last = swap_last\<rparr>)\<rparr>
      in Option.bind (tailq_adopt head1 m2) (tailq_adopt head2))"

text \<open>The loops, over a state \<open>'s\<close> with the queues \<open>q s\<close> in it that the body may change.\<close>

definition TAILQ_FOREACH :: "('s \<Rightarrow> ('h, 'n) tailq) \<Rightarrow> 'h \<Rightarrow> ('n \<Rightarrow> 's \<Rightarrow> 's option) \<Rightarrow> 's \<Rightarrow> 's option" where
  "TAILQ_FOREACH q h body s = foreach (\<lambda>n s. TAILQ_NEXT n (q s)) body (TAILQ_FIRST h (q s)) s"

definition TAILQ_FOREACH_FROM :: "('s \<Rightarrow> ('h, 'n) tailq) \<Rightarrow> 'h \<Rightarrow> 'n option \<Rightarrow> ('n \<Rightarrow> 's \<Rightarrow> 's option) \<Rightarrow> 's \<Rightarrow>
    's option" where
  "TAILQ_FOREACH_FROM q h var body s =
     foreach (\<lambda>n s. TAILQ_NEXT n (q s)) body (if var \<noteq> None then var else TAILQ_FIRST h (q s)) s"

definition TAILQ_FOREACH_SAFE :: "('s \<Rightarrow> ('h, 'n) tailq) \<Rightarrow> 'h \<Rightarrow> ('n \<Rightarrow> 's \<Rightarrow> 's option) \<Rightarrow> 's \<Rightarrow> 's option" where
  "TAILQ_FOREACH_SAFE q h body s = foreach_safe (\<lambda>n s. TAILQ_NEXT n (q s)) body (TAILQ_FIRST h (q s)) s"

definition TAILQ_FOREACH_FROM_SAFE :: "('s \<Rightarrow> ('h, 'n) tailq) \<Rightarrow> 'h \<Rightarrow> 'n option \<Rightarrow> ('n \<Rightarrow> 's \<Rightarrow> 's option) \<Rightarrow> 's \<Rightarrow>
    's option" where
  "TAILQ_FOREACH_FROM_SAFE q h var body s =
     foreach_safe (\<lambda>n s. TAILQ_NEXT n (q s)) body (if var \<noteq> None then var else TAILQ_FIRST h (q s)) s"

definition TAILQ_FOREACH_REVERSE :: "('s \<Rightarrow> ('h, 'n) tailq) \<Rightarrow> 'h \<Rightarrow> ('n \<Rightarrow> 's \<Rightarrow> 's option) \<Rightarrow> 's \<Rightarrow> 's option" where
  "TAILQ_FOREACH_REVERSE q h body s =
     Option.bind (TAILQ_LAST h (q s)) (\<lambda>v. foreach (\<lambda>n s. TAILQ_PREV n (q s)) body v s)"

definition TAILQ_FOREACH_REVERSE_FROM :: "('s \<Rightarrow> ('h, 'n) tailq) \<Rightarrow> 'h \<Rightarrow> 'n option \<Rightarrow>
    ('n \<Rightarrow> 's \<Rightarrow> 's option) \<Rightarrow> 's \<Rightarrow> 's option" where
  "TAILQ_FOREACH_REVERSE_FROM q h var body s =
     Option.bind (if var \<noteq> None then Some var else TAILQ_LAST h (q s))
       (\<lambda>v. foreach (\<lambda>n s. TAILQ_PREV n (q s)) body v s)"

definition TAILQ_FOREACH_REVERSE_SAFE :: "('s \<Rightarrow> ('h, 'n) tailq) \<Rightarrow> 'h \<Rightarrow> ('n \<Rightarrow> 's \<Rightarrow> 's option) \<Rightarrow> 's \<Rightarrow> 's option" where
  "TAILQ_FOREACH_REVERSE_SAFE q h body s =
     Option.bind (TAILQ_LAST h (q s)) (\<lambda>v. foreach_safe (\<lambda>n s. TAILQ_PREV n (q s)) body v s)"

definition TAILQ_FOREACH_REVERSE_FROM_SAFE :: "('s \<Rightarrow> ('h, 'n) tailq) \<Rightarrow> 'h \<Rightarrow> 'n option \<Rightarrow>
    ('n \<Rightarrow> 's \<Rightarrow> 's option) \<Rightarrow> 's \<Rightarrow> 's option" where
  "TAILQ_FOREACH_REVERSE_FROM_SAFE q h var body s =
     Option.bind (if var \<noteq> None then Some var else TAILQ_LAST h (q s))
       (\<lambda>v. foreach_safe (\<lambda>n s. TAILQ_PREV n (q s)) body v s)"

text \<open>
  The conditions that a kernel built with \<open>INVARIANTS\<close> checks before an operation, where they do not
  fail; a failing check panics.
\<close>

definition QMD_TAILQ_CHECK_HEAD :: "'h \<Rightarrow> ('h, 'n) tailq \<Rightarrow> bool" where
  "QMD_TAILQ_CHECK_HEAD h m \<longleftrightarrow>
     (case TAILQ_FIRST h m of None \<Rightarrow> True | Some n \<Rightarrow> tailq_prev m n = Some (First h))"

definition QMD_TAILQ_CHECK_TAIL :: "'h \<Rightarrow> ('h, 'n) tailq \<Rightarrow> bool" where
  "QMD_TAILQ_CHECK_TAIL h m \<longleftrightarrow> tailq_load m (tailq_last m h) = Some None"

definition QMD_TAILQ_CHECK_NEXT :: "'n \<Rightarrow> ('h, 'n) tailq \<Rightarrow> bool" where
  "QMD_TAILQ_CHECK_NEXT elm m \<longleftrightarrow>
     (case TAILQ_NEXT elm m of None \<Rightarrow> False
      | Some v \<Rightarrow> (case v of None \<Rightarrow> True | Some n \<Rightarrow> tailq_prev m n = Some (Next elm)))"

definition QMD_TAILQ_CHECK_PREV :: "'n \<Rightarrow> ('h, 'n) tailq \<Rightarrow> bool" where
  "QMD_TAILQ_CHECK_PREV elm m \<longleftrightarrow> Option.bind (tailq_prev m elm) (tailq_load m) = Some (Some elm)"

section \<open>What the operations write\<close>

lemma tailq_set_last [simp]:
  "tailq_load (set_tqh_last h l m) = tailq_load m" "tailq_prev (set_tqh_last h l m) = tailq_prev m"
  "tailq_last (set_tqh_last h l m) = (tailq_last m)(h := l)" "field (set_tqh_last h l m) = field m"
proof -
  show "tailq_load (set_tqh_last h l m) = tailq_load m"
  proof
    show "tailq_load (set_tqh_last h l m) k = tailq_load m k" for k by (cases k) (auto simp: tailq_load_def set_tqh_last_def)
  qed
qed (simp_all add: set_tqh_last_def tailq_prev_def tailq_last_def fun_eq_iff)

lemma tailq_init [simp]:
  "tailq_load (TAILQ_INIT h m) = (tailq_load m)(First h := Some None)" "tailq_prev (TAILQ_INIT h m) = tailq_prev m"
  "tailq_last (TAILQ_INIT h m) = (tailq_last m)(h := First h)" "field (TAILQ_INIT h m) = field m"
proof -
  show "tailq_load (TAILQ_INIT h m) = (tailq_load m)(First h := Some None)"
  proof
    show "tailq_load (TAILQ_INIT h m) k = ((tailq_load m)(First h := Some None)) k" for k
      by (cases k) (auto simp: tailq_load_def TAILQ_INIT_def set_tqh_last_def)
  qed
qed (simp_all add: TAILQ_INIT_def tailq_prev_def tailq_last_def fun_eq_iff)

lemma tailq_store_yields:
  assumes l: "tailq_load m l \<noteq> None"
    and P: "\<And>m'. tailq_load m' = (tailq_load m)(l := Some v) \<Longrightarrow> tailq_prev m' = tailq_prev m \<Longrightarrow>
      tailq_last m' = tailq_last m \<Longrightarrow> dom (field m') = dom (field m) \<Longrightarrow> P m'"
  shows "yields (tailq_store l v m) P"
proof -
  from store_defined [OF l [unfolded tailq_load_def]] obtain m' where m': "store_link tqh_first_update tqe_next_update l v m = Some m'" by blast
  have "P m'"
    by (rule P) (use load_store [OF m'] store_heads [OF m', of tqh_last] store_field [OF m', of tqe_prev] store_dom [OF m'] in
      \<open>simp_all add: tailq_load_def tailq_prev_def tailq_last_def fun_eq_iff\<close>)
  then show ?thesis using m' by (simp add: tailq_store_def)
qed

lemma set_tqe_prev_yields:
  assumes n: "tailq_load m (Next n) \<noteq> None"
    and P: "\<And>m'. tailq_load m' = tailq_load m \<Longrightarrow> tailq_prev m' = (tailq_prev m)(n := Some l) \<Longrightarrow>
      tailq_last m' = tailq_last m \<Longrightarrow> dom (field m') = dom (field m) \<Longrightarrow> P m'"
  shows "yields (set_tqe_prev n l m) P"
proof -
  obtain e where e: "field m n = Some e" using n by (auto simp: tailq_load_def)
  let ?m = "m\<lparr>field := (field m)(n \<mapsto> e\<lparr>tqe_prev := l\<rparr>)\<rparr>"
  have "P ?m"
  proof (rule P)
    show "tailq_load ?m = tailq_load m"
    proof
      show "tailq_load ?m k = tailq_load m k" for k using e by (cases k) (auto simp: tailq_load_def)
    qed
  qed (use e in \<open>auto simp: tailq_prev_def tailq_last_def fun_eq_iff\<close>)
  then show ?thesis using e by (simp add: set_tqe_prev_def)
qed

lemma TAILQ_NEXT_load: "TAILQ_NEXT n m = tailq_load m (Next n)"
  by (simp add: TAILQ_NEXT_def tailq_load_def)

lemma TAILQ_FIRST_load: "Some (TAILQ_FIRST h m) = tailq_load m (First h)"
  by (simp add: TAILQ_FIRST_def tailq_load_def)

section \<open>The queues as lists of nodes\<close>

definition tailqs :: "('h, 'n) tailq \<Rightarrow> ('h \<Rightarrow> 'n list) \<Rightarrow> bool" where
  "tailqs m L \<longleftrightarrow> apart L \<and> linked (tailq_load m) L \<and> linked_back (tailq_prev m) L \<and> ends_at (tailq_last m) L"


lemma tailqs_alloc:
  assumes "tailqs m L" "n \<in> set (L h)"
  shows "tailq_load m (Next n) \<noteq> None"
proof -
  have "path (tailq_load m) (First h) (L h) None" using assms(1) by (simp add: tailqs_def linked_def)
  then show ?thesis using assms(2) by (rule path_alloc)
qed

lemma tailqs_cut:
  assumes "tailqs m L" "L h = xs @ ys"
  shows "tailq_load m (end_loc (First h) xs) = Some (head_of ys)"
proof -
  have "apart L" and "linked (tailq_load m) L" using assms(1) by (simp_all add: tailqs_def)
  then show ?thesis using assms(2) by (rule linked_cut(3))
qed

lemma tailqs_node:
  assumes "tailqs m L" "L h = xs @ n # ys"
  shows "tailq_load m (Next n) = Some (head_of ys)" "tailq_prev m n = Some (end_loc (First h) xs)"
    "tailq_load m (end_loc (First h) xs) = Some (Some n)" "\<And>y zs. ys = y # zs \<Longrightarrow> tailq_load m (Next y) \<noteq> None"
proof -
  show "tailq_load m (Next n) = Some (head_of ys)" using tailqs_cut [OF assms(1), of h "xs @ [n]" ys] assms(2) by simp
  show "tailq_prev m n = Some (end_loc (First h) xs)"
  proof -
    have "backs (tailq_prev m) (First h) (L h)" using assms(1) by (simp add: tailqs_def linked_back_def)
    then show ?thesis using assms(2) by (simp add: backs_append)
  qed
  show "tailq_load m (end_loc (First h) xs) = Some (Some n)" using tailqs_cut [OF assms] by simp
  show "tailq_load m (Next y) \<noteq> None" if "ys = y # zs" for y zs
    using that tailqs_alloc [OF assms(1), of y h] assms(2) by simp
qed

text \<open>An insertion between \<open>xs\<close> and \<open>ys\<close> that wrote what it should.\<close>

lemma tailqs_insert:
  assumes q: "tailqs m L" and h: "L h = xs @ ys" and n: "fresh_in L n"
    and w: "tailq_load m' = (tailq_load m)(Next n := Some (head_of ys), end_loc (First h) xs := Some (Some n))"
      "tailq_prev m' n = Some (end_loc (First h) xs)" "\<And>y zs. ys = y # zs \<Longrightarrow> tailq_prev m' y = Some (Next n)"
      "\<And>k. k \<noteq> n \<Longrightarrow> Some k \<noteq> head_of ys \<Longrightarrow> tailq_prev m' k = tailq_prev m k"
      "tailq_last m' = (if ys = [] then (tailq_last m)(h := Next n) else tailq_last m)"
  shows "tailqs m' (L(h := xs @ n # ys))"
proof -
  have a: "apart L" and c: "linked (tailq_load m) L" and b: "linked_back (tailq_prev m) L" and e: "ends_at (tailq_last m) L"
    using q by (simp_all add: tailqs_def)
  have "apart (L(h := xs @ n # ys))"
    by (rule apart_update [OF a]) (use apart_distinct [OF a, of h] n h in \<open>auto simp: fresh_in_def dest: spec [of _ h]\<close>)
  moreover have "linked (tailq_load m') (L(h := xs @ n # ys))"
    using linked_insert [OF a c h n refl] w(1) tailqs_cut [OF q h] by simp
  moreover have "linked_back (tailq_prev m') (L(h := xs @ n # ys))"
    by (rule backs_insert [OF a b h n w(2-4)])
  moreover have "ends_at (tailq_last m') (L(h := xs @ n # ys))"
    unfolding w(5) by (rule ends_insert [OF e h])
  ultimately show ?thesis by (simp add: tailqs_def)
qed

lemma tailq_prev_yields: "tailq_prev m n \<noteq> None \<Longrightarrow> P (the (tailq_prev m n)) \<Longrightarrow> yields (tailq_prev m n) P"
  by auto

lemma tailq_load_yields: "tailq_load m l \<noteq> None \<Longrightarrow> P (the (tailq_load m l)) \<Longrightarrow> yields (tailq_load m l) P"
  by auto

lemma tailq_first_yields: "TAILQ_FIRST h m \<noteq> None \<Longrightarrow> P (the (TAILQ_FIRST h m)) \<Longrightarrow> yields (TAILQ_FIRST h m) P"
  by auto

lemmas tailq_steps = yields_bind tailq_first_yields tailq_prev_yields tailq_load_yields tailq_store_yields set_tqe_prev_yields yields_Some [THEN iffD2]
lemmas tailq_reads = TAILQ_NEXT_load head_of_simps option.case Option.bind.bind_lunit

lemma insert_after_law:
  assumes q: "tailqs m L" and h: "L h = xs @ x # ys" and n: "fresh_in L n" "tailq_load m (Next n) \<noteq> None"
  shows "yields (TAILQ_INSERT_AFTER h x n m) (\<lambda>m'. tailqs m' (L(h := xs @ x # n # ys)) \<and> dom (field m') = dom (field m))"
proof -
  note x = tailqs_node [OF q h]
  have ne: "n \<noteq> x" "\<And>y zs. ys = y # zs \<Longrightarrow> y \<noteq> n" using n(1) h by (auto simp: fresh_in_def dest: spec [of _ h])
  note fin = tailqs_insert [OF q, of h "xs @ [x]" ys n, simplified, OF h n(1)]
  show ?thesis
  proof (cases ys)
    case Nil
    show ?thesis
      unfolding TAILQ_INSERT_AFTER_def tailq_reads x(1) Nil
      by (intro tailq_steps; use Nil ne n x fin in simp)
  next
    case (Cons y zs)
    show ?thesis
      unfolding TAILQ_INSERT_AFTER_def tailq_reads x(1) Cons
      by (intro tailq_steps; use Cons ne n x fin in simp)
  qed
qed

lemma insert_before_law:
  assumes q: "tailqs m L" and h: "L h = xs @ x # ys" and n: "fresh_in L n" "tailq_load m (Next n) \<noteq> None"
  shows "yields (TAILQ_INSERT_BEFORE x n m) (\<lambda>m'. tailqs m' (L(h := xs @ n # x # ys)) \<and> dom (field m') = dom (field m))"
proof -
  note x = tailqs_node [OF q h]
  have ne: "n \<noteq> x" "x \<noteq> n" "n \<notin> set xs" using n(1) h by (auto simp: fresh_in_def dest: spec [of _ h])
  then have ne2: "end_loc (First h) xs \<noteq> Next n" by (intro end_loc_not_next) auto
  note fin = tailqs_insert [OF q h n(1)]
  show ?thesis
    unfolding TAILQ_INSERT_BEFORE_def x(2) Option.bind.bind_lunit
    by (intro tailq_steps; use ne ne2 n x fin in simp)
qed

lemma insert_head_law:
  assumes q: "tailqs m L" and n: "fresh_in L n" "tailq_load m (Next n) \<noteq> None"
  shows "yields (TAILQ_INSERT_HEAD h n m) (\<lambda>m'. tailqs m' (L(h := n # L h)) \<and> dom (field m') = dom (field m))"
proof -
  note fin = tailqs_insert [OF q, of h "[]" "L h" n, simplified, OF n(1)]
  have f: "TAILQ_FIRST h m = head_of (L h)" "tailq_load m (First h) = Some (head_of (L h))"
    using tailqs_cut [OF q, of h "[]" "L h"] by (simp_all add: TAILQ_FIRST_def tailq_load_def)
  show ?thesis
  proof (cases "L h")
    case Nil
    show ?thesis
      unfolding TAILQ_INSERT_HEAD_def tailq_reads f(1) Nil
      by (intro tailq_steps; use Nil n f fin in simp)
  next
    case (Cons y zs)
    then have "y \<noteq> n" "tailq_load m (Next y) \<noteq> None"
      using n(1) tailqs_alloc [OF q, of y h] by (auto simp: fresh_in_def dest: spec [of _ h])
    then show ?thesis
      unfolding TAILQ_INSERT_HEAD_def tailq_reads f(1) Cons
      by (intro tailq_steps; use Cons n f fin in simp)
  qed
qed

lemma insert_tail_law:
  assumes q: "tailqs m L" and n: "fresh_in L n" "tailq_load m (Next n) \<noteq> None"
  shows "yields (TAILQ_INSERT_TAIL h n m) (\<lambda>m'. tailqs m' (L(h := L h @ [n])) \<and> dom (field m') = dom (field m))"
proof -
  note fin = tailqs_insert [OF q, of h "L h" "[]" n, simplified, OF n(1)]
  have l: "tailq_last m h = end_loc (First h) (L h)" using q by (simp add: tailqs_def ends_at_def)
  have e: "tailq_load m (end_loc (First h) (L h)) = Some None" using tailqs_cut [OF q, of h "L h" "[]"] by simp
  have ne: "end_loc (First h) (L h) \<noteq> Next n" using n(1) by (intro end_loc_not_next) (auto simp: fresh_in_def)
  show ?thesis
    unfolding TAILQ_INSERT_TAIL_def
    by (intro tailq_steps; use l e ne n fin in simp)
qed

lemma remove_law:
  assumes q: "tailqs m L" and h: "L h = xs @ n # ys"
  shows "yields (TAILQ_REMOVE h n m) (\<lambda>m'. tailqs m' (L(h := xs @ ys)) \<and> dom (field m') = dom (field m))"
proof -
  note x = tailqs_node [OF q h]
  have a: "apart L" and c: "linked (tailq_load m) L" and b: "linked_back (tailq_prev m) L" and e: "ends_at (tailq_last m) L"
    using q by (simp_all add: tailqs_def)
  have d: "distinct (L h)" by (rule apart_distinct [OF a])
  have fin: "tailqs m' (L(h := xs @ ys))" if
    "tailq_load m' = (tailq_load m)(end_loc (First h) xs := Some (head_of ys))"
    "\<And>y zs. ys = y # zs \<Longrightarrow> tailq_prev m' y = tailq_prev m n"
    "\<And>k. Some k \<noteq> head_of ys \<Longrightarrow> tailq_prev m' k = tailq_prev m k"
    "tailq_last m' = (if ys = [] then (tailq_last m)(h := end_loc (First h) xs) else tailq_last m)" for m'
  proof -
    have "apart (L(h := xs @ ys))" by (rule apart_update [OF a]) (use d h in auto)
    moreover have "linked (tailq_load m') (L(h := xs @ ys))" using linked_remove [OF a c h refl] that(1) x(1) by simp
    moreover have "linked_back (tailq_prev m') (L(h := xs @ ys))" by (rule backs_remove [OF a b h that(2,3)])
    ultimately show ?thesis using ends_remove [OF e h] that(4) by (simp add: tailqs_def)
  qed
  show ?thesis
  proof (cases ys)
    case Nil
    show ?thesis
      unfolding TAILQ_REMOVE_def tailq_reads x(1,2) Nil
      by (intro tailq_steps; use Nil x fin in simp)
  next
    case (Cons y zs)
    have "y \<noteq> n" using d h Cons by auto
    then show ?thesis
      unfolding TAILQ_REMOVE_def tailq_reads x(1,2) Cons
      by (intro tailq_steps; use Cons x fin in simp)
  qed
qed

lemma init_law: "tailqs m L \<Longrightarrow> tailqs (TAILQ_INIT h m) (L(h := []))"
  by (auto simp: tailqs_def apart_def intro!: linked_init backs_init ends_init)

lemma concat_law:
  assumes q: "tailqs m L" and k: "h \<noteq> k"
  shows "yields (TAILQ_CONCAT h k m) (\<lambda>m'. tailqs m' (L(h := L h @ L k, k := [])) \<and> dom (field m') = dom (field m))"
proof -
  have a: "apart L" and c: "linked (tailq_load m) L" and b: "linked_back (tailq_prev m) L" and e: "ends_at (tailq_last m) L"
    using q by (simp_all add: tailqs_def)
  have f: "TAILQ_FIRST k m = head_of (L k)" "tailq_load m (First k) = Some (head_of (L k))"
    and empty: "TAILQ_EMPTY k m \<longleftrightarrow> L k = []"
    using tailqs_cut [OF q, of k "[]" "L k"] by (cases "L k"; simp add: TAILQ_FIRST_def TAILQ_EMPTY_def tailq_load_def)+
  show ?thesis
  proof (cases "L k")
    case Nil
    then show ?thesis using q empty by (simp add: TAILQ_CONCAT_def fun_upd_idem)
  next
    case (Cons y zs)
    have l: "tailq_last m h = end_loc (First h) (L h)" "tailq_load m (end_loc (First h) (L h)) = Some None"
      using e tailqs_cut [OF q, of h "L h" "[]"] by (simp_all add: ends_at_def)
    have y: "tailq_load m (Next y) \<noteq> None" using tailqs_alloc [OF q, of y k] Cons by simp
    have ne: "end_loc (First h) (L h) \<noteq> First k"
      using end_loc_not_first [of h "L h" k] k by auto
    have first: "TAILQ_FIRST k m' = Some y" if "tailq_load m' = (tailq_load m)(end_loc (First h) (L h) := Some (Some y))" for m'
      using that TAILQ_FIRST_load [of k m'] f ne Cons by simp
    have fin: "tailqs m' (L(h := L h @ y # zs, k := []))" if
      "tailq_load m' = (tailq_load m)(end_loc (First h) (L h) := Some (Some y), First k := Some None)"
      "tailq_prev m' = (tailq_prev m)(y := Some (end_loc (First h) (L h)))"
      "tailq_last m' = (tailq_last m)(h := tailq_last m k, k := First k)" for m'
      using that linked_concat [OF a c k refl] backs_concat [OF a b k, of "tailq_prev m'"] ends_concat [OF e k] apart_concat [OF a k] f Cons
      by (simp add: tailqs_def)
    have full: "\<not> TAILQ_EMPTY k m" using empty Cons by simp
    show ?thesis
      unfolding TAILQ_CONCAT_def if_P [OF full] f(1) Cons head_of_simps
      by (intro tailq_steps; use l y ne first fin k in simp)
  qed
qed

text \<open>\<open>TAILQ_SWAP\<close>: what its two halves write.\<close>

lemma adopt_yields:
  assumes first: "TAILQ_FIRST h m = head_of ns" and y: "\<And>y zs. ns = y # zs \<Longrightarrow> tailq_load m (Next y) \<noteq> None"
    and P: "\<And>m'. tailq_load m' = tailq_load m \<Longrightarrow>
      tailq_prev m' = (case ns of [] \<Rightarrow> tailq_prev m | y # _ \<Rightarrow> (tailq_prev m)(y := Some (First h))) \<Longrightarrow>
      tailq_last m' = (if ns = [] then (tailq_last m)(h := First h) else tailq_last m) \<Longrightarrow>
      dom (field m') = dom (field m) \<Longrightarrow> P m'"
  shows "yields (tailq_adopt h m) P"
proof (cases ns)
  case Nil
  then show ?thesis using first P by (simp add: tailq_adopt_def)
next
  case (Cons y zs)
  then show ?thesis
    unfolding tailq_adopt_def first Cons head_of_simps option.case
    by (intro set_tqe_prev_yields P) (use y Cons in auto)
qed

lemma swap_law:
  assumes q: "tailqs m L" and k: "h \<noteq> k"
  shows "yields (TAILQ_SWAP h k m) (\<lambda>m'. tailqs m' (L(h := L k, k := L h)) \<and> dom (field m') = dom (field m))"
proof -
  have a: "apart L" and c: "linked (tailq_load m) L" and b: "linked_back (tailq_prev m) L" and e: "ends_at (tailq_last m) L"
    using q by (simp_all add: tailqs_def)
  have f: "TAILQ_FIRST j m = head_of (L j)" "tailq_load m (First j) = Some (head_of (L j))" for j
    using tailqs_cut [OF q, of j "[]" "L j"] by (simp_all add: TAILQ_FIRST_def tailq_load_def)
  have y: "tailq_load m (Next y) \<noteq> None" if "L j = y # zs" for j y zs
    using tailqs_alloc [OF q, of y j] that by simp
  define m2 where "m2 = m\<lparr>heads := (heads m)(h := \<lparr>tqh_first = TAILQ_FIRST k m, tqh_last = tailq_last m k\<rparr>,
    k := \<lparr>tqh_first = TAILQ_FIRST h m, tqh_last = tailq_last m h\<rparr>)\<rparr>"
  have load: "tailq_load m2 = (tailq_load m)(First h := Some (head_of (L k)), First k := Some (head_of (L h)))"
  proof
    show "tailq_load m2 l = ((tailq_load m)(First h := Some (head_of (L k)), First k := Some (head_of (L h)))) l" for l
      by (cases l) (auto simp: m2_def tailq_load_def f)
  qed
  have m2: "tailq_prev m2 = tailq_prev m" "tailq_last m2 = (tailq_last m)(h := tailq_last m k, k := tailq_last m h)"
    "dom (field m2) = dom (field m)"
    by (auto simp: m2_def tailq_prev_def tailq_last_def fun_eq_iff)
  have first: "TAILQ_FIRST h m' = head_of (L k)" "TAILQ_FIRST k m' = head_of (L h)" if "tailq_load m' = tailq_load m2" for m'
    using k TAILQ_FIRST_load [of h m'] TAILQ_FIRST_load [of k m'] that load by auto
  have y2: "tailq_load m2 (Next y) \<noteq> None" if "L j = y # zs" for j y zs using y [OF that] load by simp
  have dist: "y \<noteq> y'" if "L h = y # zs" "L k = y' # zs'" for y zs y' zs'
    using apart_other [OF a, of y h k] k that by auto
  have fin: "tailqs m' (L(h := L k, k := L h))" if "tailq_load m' = tailq_load m2"
    "\<And>y zs. L k = y # zs \<Longrightarrow> tailq_prev m' y = Some (First h)" "\<And>y zs. L h = y # zs \<Longrightarrow> tailq_prev m' y = Some (First k)"
    "\<And>j. Some j \<noteq> head_of (L h) \<Longrightarrow> Some j \<noteq> head_of (L k) \<Longrightarrow> tailq_prev m' j = tailq_prev m j"
    "tailq_last m' = (tailq_last m)(h := if L k = [] then First h else tailq_last m k,
      k := if L h = [] then First k else tailq_last m h)" for m'
    using that(1,5) load linked_swap [OF a c, of h k] backs_swap [OF a b k that(2-4)] ends_swap [OF e k] apart_swap [OF a] f
    by (simp add: tailqs_def)
  have "yields (tailq_adopt h m2) (\<lambda>m3. yields (tailq_adopt k m3)
      (\<lambda>m'. tailqs m' (L(h := L k, k := L h)) \<and> dom (field m') = dom (field m)))"
  proof (rule adopt_yields [where ns = "L k"])
    show "TAILQ_FIRST h m2 = head_of (L k)" by (rule first) simp
    show "tailq_load m2 (Next y) \<noteq> None" if "L k = y # zs" for y zs by (rule y2 [OF that])
    fix m3
    assume m3: "tailq_load m3 = tailq_load m2"
      "tailq_prev m3 = (case L k of [] \<Rightarrow> tailq_prev m2 | y # _ \<Rightarrow> (tailq_prev m2)(y := Some (First h)))"
      "tailq_last m3 = (if L k = [] then (tailq_last m2)(h := First h) else tailq_last m2)" "dom (field m3) = dom (field m2)"
    show "yields (tailq_adopt k m3) (\<lambda>m'. tailqs m' (L(h := L k, k := L h)) \<and> dom (field m') = dom (field m))"
    proof (rule adopt_yields [where ns = "L h"])
      show "TAILQ_FIRST k m3 = head_of (L h)" by (rule first(2) [OF m3(1)])
      show "tailq_load m3 (Next y) \<noteq> None" if "L h = y # zs" for y zs using y2 [OF that] m3(1) by simp
      fix m4
      assume m4: "tailq_load m4 = tailq_load m3"
        "tailq_prev m4 = (case L h of [] \<Rightarrow> tailq_prev m3 | y # _ \<Rightarrow> (tailq_prev m3)(y := Some (First k)))"
        "tailq_last m4 = (if L h = [] then (tailq_last m3)(k := First k) else tailq_last m3)" "dom (field m4) = dom (field m3)"
      have "tailqs m4 (L(h := L k, k := L h))"
        by (rule fin) (use m2 m3 m4 k dist in \<open>auto split: list.splits if_splits\<close>)
      then show "tailqs m4 (L(h := L k, k := L h)) \<and> dom (field m4) = dom (field m)" using m2 m3 m4 by simp
    qed
  qed
  then show ?thesis by (auto simp: TAILQ_SWAP_def Let_def m2_def intro: yields_bind)
qed

lemma tailq_checks_pass:
  assumes q: "tailqs m L"
  shows "QMD_TAILQ_CHECK_HEAD h m" "QMD_TAILQ_CHECK_TAIL h m"
    and "n \<in> set (L h) \<Longrightarrow> QMD_TAILQ_CHECK_NEXT n m" "n \<in> set (L h) \<Longrightarrow> QMD_TAILQ_CHECK_PREV n m"
proof -
  have first: "TAILQ_FIRST h m = head_of (L h)"
    using tailqs_cut [OF q, of h "[]" "L h"] by (simp add: TAILQ_FIRST_def tailq_load_def)
  show "QMD_TAILQ_CHECK_HEAD h m"
    using first tailqs_node(2) [OF q, of h "[]"] by (cases "L h") (auto simp: QMD_TAILQ_CHECK_HEAD_def)
  have "tailq_last m h = end_loc (First h) (L h)" using q by (simp add: tailqs_def ends_at_def)
  then show "QMD_TAILQ_CHECK_TAIL h m"
    using tailqs_cut [OF q, of h "L h" "[]"] by (simp add: QMD_TAILQ_CHECK_TAIL_def)
  assume "n \<in> set (L h)"
  then obtain xs ys where h: "L h = xs @ n # ys" by (meson split_list)
  show "QMD_TAILQ_CHECK_NEXT n m"
    using tailqs_node(1) [OF q h] tailqs_node(2) [OF q, of h "xs @ [n]"] h
    by (cases ys) (auto simp: QMD_TAILQ_CHECK_NEXT_def TAILQ_NEXT_load)
  show "QMD_TAILQ_CHECK_PREV n m"
    using tailqs_node(2,3) [OF q h] by (simp add: QMD_TAILQ_CHECK_PREV_def)
qed

section \<open>Loops over a queue\<close>

lemma tailq_before:
  assumes q: "tailqs m L" and h: "L h = xs @ ys"
  shows "Option.bind (second_member (end_loc (First h) xs) m) (tailq_load m) = Some (head_of (rev xs))"
proof (cases xs rule: rev_cases)
  case Nil
  have "tailq_last m h = end_loc (First h) (L h)" using q by (simp add: tailqs_def ends_at_def)
  then show ?thesis using tailqs_cut [OF q, of h "L h" "[]"] Nil by (simp add: second_member_def)
next
  case (snoc zs z)
  then show ?thesis using tailqs_node [OF q, of h zs z ys] h by (simp add: second_member_def)
qed

lemma tailq_ends:
  assumes q: "tailqs m L"
  shows "TAILQ_FIRST h m = head_of (L h)" "TAILQ_LAST h m = Some (head_of (rev (L h)))" "TAILQ_EMPTY h m \<longleftrightarrow> L h = []"
proof -
  show f: "TAILQ_FIRST h m = head_of (L h)"
    using tailqs_cut [OF q, of h "[]" "L h"] by (simp add: TAILQ_FIRST_def tailq_load_def)
  have "tailq_last m h = end_loc (First h) (L h)" using q by (simp add: tailqs_def ends_at_def)
  then show "TAILQ_LAST h m = Some (head_of (rev (L h)))" using tailq_before [OF q, of h "L h" "[]"] by (simp add: TAILQ_LAST_def)
  show "TAILQ_EMPTY h m \<longleftrightarrow> L h = []" using f by (cases "L h") (auto simp: TAILQ_EMPTY_def TAILQ_FIRST_def)
qed

lemma tailq_neighbours:
  assumes q: "tailqs m L" and h: "L h = xs @ n # ys"
  shows "TAILQ_NEXT n m = Some (head_of ys)" "TAILQ_PREV n m = Some (head_of (rev xs))"
  using tailqs_node [OF q h] tailq_before [OF q h] by (simp_all add: TAILQ_NEXT_load TAILQ_PREV_def)

lemma tailq_order:
  assumes "tailqs (q s) L"
  shows "L h = xs @ ys \<Longrightarrow> order (\<lambda>n s. TAILQ_NEXT n (q s)) s ys"
    and "L h = xs @ ys \<Longrightarrow> order (\<lambda>n s. TAILQ_PREV n (q s)) s (rev xs)"
proof -
  assume h: "L h = xs @ ys"
  show "order (\<lambda>n s. TAILQ_NEXT n (q s)) s ys"
  proof (rule orderI)
    fix us n vs
    assume "ys = us @ n # vs"
    then show "TAILQ_NEXT n (q s) = Some (head_of vs)"
      using tailq_neighbours(1) [OF assms, of h "xs @ us" n vs] h by simp
  qed
  show "order (\<lambda>n s. TAILQ_PREV n (q s)) s (rev xs)"
  proof (rule orderI)
    fix us n vs
    assume "rev xs = us @ n # vs"
    then have "rev (rev xs) = rev vs @ n # rev us" by simp
    then show "TAILQ_PREV n (q s) = Some (head_of vs)"
      using tailq_neighbours(2) [OF assms, of h "rev vs" n "rev us @ ys"] h by simp
  qed
qed

section \<open>Properties\<close>

fun tailq_step :: "('h, 'n) edit \<Rightarrow> ('h, 'n) tailq \<Rightarrow> ('h, 'n) tailq option" where
  "tailq_step (Init h) m = Some (TAILQ_INIT h m)"
| "tailq_step (Insert_head h n) m = TAILQ_INSERT_HEAD h n m"
| "tailq_step (Insert_tail h n) m = TAILQ_INSERT_TAIL h n m"
| "tailq_step (Insert_after h x n) m = TAILQ_INSERT_AFTER h x n m"
| "tailq_step (Insert_before h x n) m = TAILQ_INSERT_BEFORE x n m"
| "tailq_step (Remove h n) m = TAILQ_REMOVE h n m"
| "tailq_step (Concat h k) m = TAILQ_CONCAT h k m"
| "tailq_step (Swap h k) m = TAILQ_SWAP h k m"
| "tailq_step (Remove_head h) m = None" \<comment> \<open>not offered for tail queues\<close>
| "tailq_step (Remove_after h x) m = None"

fun tailq_offers :: "('h, 'n) edit \<Rightarrow> bool" where
  "tailq_offers (Remove_head h) \<longleftrightarrow> False"
| "tailq_offers (Remove_after h x) \<longleftrightarrow> False"
| "tailq_offers e \<longleftrightarrow> True"

lemma dom_field_load: "n \<in> dom (field m) \<longleftrightarrow> tailq_load m (Next n) \<noteq> None"
  by (auto simp: tailq_load_def)

interpretation tailq_kind: list_kind tailq_step tailqs "\<lambda>m. dom (field m)" tailq_offers
proof
  fix m :: "('h, 'n) tailq" and L e L'
  assume q: "tailqs m L" and offers: "tailq_offers e" and ed: "edit_lists (dom (field m)) e L = Some L'"
  show "yields (tailq_step e m) (\<lambda>m'. tailqs m' L' \<and> dom (field m') = dom (field m))"
  proof (cases e)
    case (Insert_after h x n)
    then obtain xs ys where h: "L h = xs @ x # ys" and x: "x \<notin> set xs"
      using ed by (auto split: if_splits dest: split_list_first)
    then show ?thesis
      using insert_after_law [OF q h, of n] ed Insert_after by (simp add: put_after_split dom_field_load split: if_splits)
  next
    case (Insert_before h x n)
    then obtain xs ys where h: "L h = xs @ x # ys" and x: "x \<notin> set xs"
      using ed by (auto split: if_splits dest: split_list_first)
    then show ?thesis
      using insert_before_law [OF q h, of n] ed Insert_before by (simp add: put_before_split dom_field_load split: if_splits)
  next
    case (Remove h n)
    then obtain xs ys where h: "L h = xs @ n # ys" and n: "n \<notin> set xs"
      using ed by (auto split: if_splits dest: split_list_first)
    then show ?thesis using remove_law [OF q h] ed Remove by (simp add: remove1_append split: if_splits)
  qed (use ed offers q init_law [OF q] insert_head_law [OF q] insert_tail_law [OF q] concat_law [OF q] swap_law [OF q] in
    \<open>auto simp: dom_field_load split: if_splits\<close>)
qed

lemma empty_tailqs: "(\<And>h. heads m h = TAILQ_HEAD_INITIALIZER h) \<Longrightarrow> tailqs m (\<lambda>_. [])"
  by (simp add: tailqs_def apart_def linked_def linked_back_def ends_at_def tailq_load_def
      tailq_last_def TAILQ_HEAD_INITIALIZER_def)

text \<open>
  C29: the tail queues refine lists: any sequence of the header's operations on any number of queues,
  from empty ones, that makes sense on lists (new nodes are allocated and in no queue, the nodes named
  are in the queue) follows only live pointers and leaves in every queue the nodes that the same edits
  give on lists, in their order, with the first and the last node where the header says.
\<close>

theorem tailq_refines_list:
  assumes "\<And>h. heads m h = TAILQ_HEAD_INITIALIZER h" and "list_all tailq_offers es"
    and "run_edits (edit_lists (dom (field m))) es (\<lambda>_. []) = Some L"
  shows "\<exists>m'. run_edits tailq_step es m = Some m' \<and> tailqs m' L \<and>
    (\<forall>h. TAILQ_FIRST h m' = head_of (L h) \<and> TAILQ_LAST h m' = Some (head_of (rev (L h))) \<and>
         TAILQ_EMPTY h m' = (L h = []))"
proof -
  have "tailqs m (\<lambda>_. [])" by (rule empty_tailqs) (rule assms(1))
  from tailq_kind.run_law [OF this assms(2,3)] show ?thesis
    using tailq_ends by (fastforce simp: yields_def)
qed

definition two_tailqs :: "(bool, nat) tailq" where
  "two_tailqs = \<lparr>heads = TAILQ_HEAD_INITIALIZER,
     field = (\<lambda>n. if n < 5 then Some \<lparr>tqe_next = None, tqe_prev = First False\<rparr> else None)\<rparr>"

definition some_edits :: "(bool, nat) edit list" where
  "some_edits = [Insert_tail True 0, Insert_head True 1, Insert_after True 0 2, Insert_before True 0 3,
     Insert_tail False 4, Remove True 1, Concat False True, Swap True False]"

lemma two_tailqs_nodes: "dom (field two_tailqs) = {0, 1, 2, 3, 4}"
  by (auto simp: two_tailqs_def split: if_splits)

lemma some_edits_run:
  obtains L where "run_edits (edit_lists (dom (field two_tailqs))) some_edits (\<lambda>_. []) = Some L"
    "L True = [4, 3, 0, 2]" "L False = []" "list_all tailq_offers some_edits"
  by (simp add: two_tailqs_nodes some_edits_def fresh_in_def all_bool_eq)

theorem tailq_refines_list_witness:
  "\<exists>m L. run_edits tailq_step some_edits two_tailqs = Some m \<and> tailqs m L \<and> L True = [4, 3, 0, 2] \<and> L False = [] \<and>
     TAILQ_FIRST True m = Some 4 \<and> TAILQ_LAST True m = Some (Some 2)"
proof -
  obtain L where L: "run_edits (edit_lists (dom (field two_tailqs))) some_edits (\<lambda>_. []) = Some L"
    "L True = [4, 3, 0, 2]" "L False = []" "list_all tailq_offers some_edits" by (rule some_edits_run)
  from tailq_refines_list [OF _ L(4,1)] L(2,3) show ?thesis
    by (force simp: two_tailqs_def)
qed

text \<open>
  C30: the loops of the header visit exactly the nodes of the queue, forwards or backwards, from either end
  or from a given node, and return, whatever a body that leaves the queues alone does with them.
\<close>

theorem tailq_loops_visit:
  assumes q: "\<And>s. I s \<Longrightarrow> tailqs (q s) L" and h: "L h = xs @ n # ys"
    and body: "\<And>k s. I s \<Longrightarrow> k \<in> set (L h) \<Longrightarrow> body k s = Some (f k s) \<and> I (f k s)" and s: "I s"
  shows "TAILQ_FOREACH q h body s = Some (fold f (xs @ n # ys) s) \<and>
    TAILQ_FOREACH_SAFE q h body s = Some (fold f (xs @ n # ys) s) \<and>
    TAILQ_FOREACH_FROM q h (Some n) body s = Some (fold f (n # ys) s) \<and>
    TAILQ_FOREACH_FROM_SAFE q h (Some n) body s = Some (fold f (n # ys) s) \<and>
    TAILQ_FOREACH_REVERSE q h body s = Some (fold f (rev ys @ n # rev xs) s) \<and>
    TAILQ_FOREACH_REVERSE_SAFE q h body s = Some (fold f (rev ys @ n # rev xs) s) \<and>
    TAILQ_FOREACH_REVERSE_FROM q h (Some n) body s = Some (fold f (n # rev xs) s) \<and>
    TAILQ_FOREACH_REVERSE_FROM_SAFE q h (Some n) body s = Some (fold f (n # rev xs) s)"
proof -
  let ?nxt = "\<lambda>n s. TAILQ_NEXT n (q s)" and ?prv = "\<lambda>n s. TAILQ_PREV n (q s)"
  have run: "foreach nxt body (head_of ns) s = Some (fold f ns s)" "foreach_safe nxt body (head_of ns) s = Some (fold f ns s)"
    if "set ns \<subseteq> set (L h)" "\<And>s. I s \<Longrightarrow> order nxt s ns" for nxt ns
  proof -
    have b: "body k s = Some (f k s) \<and> I (f k s)" if "I s" "k \<in> set ns" for k s using body that \<open>set ns \<subseteq> set (L h)\<close> by auto
    show "foreach nxt body (head_of ns) s = Some (fold f ns s)" by (rule foreach_fold [where I = I]) (use b that(2) s in auto)
    show "foreach_safe nxt body (head_of ns) s = Some (fold f ns s)" by (rule foreach_safe_fold [where I = I]) (use b that(2) s in auto)
  qed
  have all: "order ?nxt s (xs @ n # ys)" "order ?nxt s (n # ys)" "order ?prv s (rev ys @ n # rev xs)" "order ?prv s (n # rev xs)"
    if "I s" for s
    using tailq_order(1) [where q = q and s = s, OF q [OF that], of h "[]"] tailq_order(1) [where q = q and s = s, OF q [OF that] h]
      tailq_order(2) [where q = q and s = s, OF q [OF that], of h "xs @ n # ys" "[]"]
      tailq_order(2) [where q = q and s = s, OF q [OF that], of h "xs @ [n]" ys] h
    by simp_all
  have sets: "set (xs @ n # ys) \<subseteq> set (L h)" "set (n # ys) \<subseteq> set (L h)" "set (rev ys @ n # rev xs) \<subseteq> set (L h)"
    "set (n # rev xs) \<subseteq> set (L h)" using h by auto
  show ?thesis
    using run [OF sets(1) all(1)] run [OF sets(2) all(2)] run [OF sets(3) all(3)] run [OF sets(4) all(4)]
      tailq_ends(1,2) [OF q [OF s], of h] h
    unfolding TAILQ_FOREACH_def TAILQ_FOREACH_SAFE_def TAILQ_FOREACH_FROM_def TAILQ_FOREACH_FROM_SAFE_def
      TAILQ_FOREACH_REVERSE_def TAILQ_FOREACH_REVERSE_SAFE_def TAILQ_FOREACH_REVERSE_FROM_def
      TAILQ_FOREACH_REVERSE_FROM_SAFE_def
    by simp
qed

theorem tailq_loops_visit_witness:
  "\<exists>m. TAILQ_FOREACH fst True (\<lambda>k (m, v). Some (m, v @ [k])) (m, []) = Some (m, [4, 3, 0, 2 :: nat]) \<and>
     TAILQ_FOREACH_REVERSE_FROM fst True (Some 0) (\<lambda>k (m, v). Some (m, v @ [k])) (m, []) = Some (m, [0, 3, 4])"
proof -
  obtain L where L: "run_edits (edit_lists (dom (field two_tailqs))) some_edits (\<lambda>_. []) = Some L"
    "L True = [4, 3, 0, 2]" "L False = []" "list_all tailq_offers some_edits" by (rule some_edits_run)
  have "tailqs two_tailqs (\<lambda>_. [])" by (rule empty_tailqs) (simp add: two_tailqs_def)
  from tailq_kind.run_law [OF this L(4,1)] obtain m where m: "tailqs m L" by (auto simp: yields_def)
  have "tailqs (fst s) L" if "fst s = m" for s :: "(bool, nat) tailq \<times> nat list" using m that by simp
  from tailq_loops_visit [where I = "\<lambda>s. fst s = m" and q = fst and body = "\<lambda>k (m, v). Some (m, v @ [k])" and
      f = "\<lambda>k (m, v). (m, v @ [k])" and s = "(m, [])" and xs = "[4, 3]" and n = 0 and ys = "[2]" and h = True, OF this] L(2)
  show ?thesis by (auto split: prod.splits)
qed

section \<open>The one queue of the server\<close>

text \<open>The memory of a program with a single head, the variable \<open>head\<close>.\<close>

definition tailq_rep :: "(unit, 'n) tailq \<Rightarrow> 'n list \<Rightarrow> bool" where
  "tailq_rep q ns \<longleftrightarrow> tailqs q (\<lambda>_. ns)"

lemma one_head: "(\<lambda>_::unit. a)(() := b) = (\<lambda>_. b)"
  by auto

interpretation tailq: node_list tailq_rep "\<lambda>q. dom (field q)" "TAILQ_FIRST ()" TAILQ_NEXT "TAILQ_INSERT_TAIL ()" "TAILQ_REMOVE ()"
proof
  fix q :: "(unit, 'n) tailq" and ns
  assume rep: "tailq_rep q ns"
  then have q: "tailqs q (\<lambda>_. ns)" by (simp add: tailq_rep_def)
  then have "distinct ns" by (simp add: tailqs_def apart_def)
  moreover have "n \<in> dom (field q)" if "n \<in> set ns" for n
    using tailqs_alloc [OF q] that by (simp add: dom_field_load)
  ultimately show "distinct ns \<and> set ns \<subseteq> dom (field q)" by blast
  show "TAILQ_FIRST () q = head_of ns" using tailq_ends(1) [OF q] .
next
  fix q :: "(unit, 'n) tailq" and xs n ys
  assume "tailq_rep q (xs @ n # ys)"
  then have q: "tailqs q (\<lambda>_. xs @ n # ys)" by (simp add: tailq_rep_def)
  show "TAILQ_NEXT n q = Some (head_of ys)" by (rule tailq_neighbours(1) [OF q refl])
  show "\<exists>q'. TAILQ_REMOVE () n q = Some q' \<and> tailq_rep q' (xs @ ys) \<and> dom (field q') = dom (field q)"
    using remove_law [OF q, where h = "()" and xs = xs and n = n and ys = ys] by (simp add: yields_def tailq_rep_def one_head)
next
  fix q :: "(unit, 'n) tailq" and ns n
  assume "tailq_rep q ns" "n \<notin> set ns" "n \<in> dom (field q)"
  then show "\<exists>q'. TAILQ_INSERT_TAIL () n q = Some q' \<and> tailq_rep q' (ns @ [n]) \<and> dom (field q') = dom (field q)"
    using insert_tail_law [where m = q and L = "\<lambda>_. ns" and n = n and h = "()"] by (simp add: yields_def tailq_rep_def one_head fresh_in_def dom_field_load)
qed

lemma tailq_rep_distinct: "tailq_rep q ns \<Longrightarrow> distinct ns"
  by (simp add: tailq_rep_def tailqs_def apart_def)

lemma init_rep: "tailq_rep (TAILQ_INIT () q) []"
  by (simp add: tailq_rep_def tailqs_def apart_def linked_def linked_back_def ends_at_def)

lemma empty_rep: "tailq_rep q ns \<Longrightarrow> TAILQ_EMPTY () q = (ns = [])"
  by (simp add: tailq_rep_def tailq_ends(3))

lemma tailq_rep_field:
  assumes "n \<notin> set ns"
  shows "tailq_rep (q\<lparr>field := (field q)(n := e)\<rparr>) ns = tailq_rep q ns"
proof -
  have "tailq_rep (q\<lparr>field := (field q)(n := e)\<rparr>) ns" if "tailq_rep q ns" for q e
  proof -
    have q: "tailqs q (\<lambda>_. ns)" using that by (simp add: tailq_rep_def)
    have "path (tailq_load (q\<lparr>field := (field q)(n := e)\<rparr>)) (First ()) ns None"
      by (rule path_move [of "tailq_load q" "First ()"]) (use q assms in \<open>auto simp: tailqs_def linked_def tailq_load_def\<close>)
    moreover have "backs (tailq_prev (q\<lparr>field := (field q)(n := e)\<rparr>)) (First ()) ns"
      by (rule backs_cong [of "tailq_prev q"]) (use q assms in \<open>auto simp: tailqs_def linked_back_def tailq_prev_def\<close>)
    ultimately show ?thesis using q by (simp add: tailq_rep_def tailqs_def linked_def linked_back_def ends_at_def tailq_last_def)
  qed
  from this [of q e] this [of "q\<lparr>field := (field q)(n := e)\<rparr>" "field q n"] show ?thesis by auto
qed

end
