(* ===== verification/SocketMain.thy ===== *)
theory SocketMain
  imports SocketWorker TailQueue
begin

text \<open>
  The main thread of src/server/aesdsocket.c: \<open>socket_state\<close>, the signal handlers, the timer, start-up
  (binding, becoming a daemon, listening), the state machine that accepts connections and joins their
  threads, and shutting down.  The build switch \<open>USE_AESD_CHAR_DEVICE\<close> is the parameter \<open>cd\<close>, the
  system calls are the parameter \<open>Os\<close>, and calls that only take or release a resource are logged.
  Messages (\<open>syslog\<close>, \<open>printf\<close>) are left out.
\<close>

section \<open>The system\<close>

datatype handler = Sighandler | Alarmhandler | Unset_handler

record itimerspec =
  it_interval :: "int \<times> int" \<comment> \<open>\<open>tv_sec\<close> and \<open>tv_nsec\<close>\<close>
  it_value :: "int \<times> int"

record sockaddr =
  sa_family :: int
  sin_addr :: "byte list"
  sin6_addr :: "byte list"

record addrinfo =
  ai_family :: int
  ai_socktype :: int
  ai_protocol :: int
  ai_addr :: "byte list"

record 'w os =
  getaddrinfo :: "'w \<Rightarrow> int \<times> addrinfo list \<times> 'w"
  socket :: "int \<Rightarrow> int \<Rightarrow> int \<Rightarrow> 'w \<Rightarrow> int \<times> 'w"
  setsockopt :: "int \<Rightarrow> 'w \<Rightarrow> int \<times> 'w"
  bind_socket :: "int \<Rightarrow> byte list \<Rightarrow> 'w \<Rightarrow> int \<times> 'w"
  fork :: "'w \<Rightarrow> int \<times> 'w"
  setsid :: "'w \<Rightarrow> int \<times> 'w"
  chdir_root :: "'w \<Rightarrow> int \<times> 'w"
  listen :: "int \<Rightarrow> 'w \<Rightarrow> int \<times> 'w"
  sigemptyset :: "'w \<Rightarrow> int \<times> 'w"
  sigaction :: "int \<Rightarrow> handler \<Rightarrow> 'w \<Rightarrow> int \<times> 'w"
  timer_create :: "'w \<Rightarrow> int \<times> int \<times> 'w"
  timer_settime :: "int \<Rightarrow> itimerspec \<Rightarrow> 'w \<Rightarrow> int \<times> 'w"
  accept :: "int \<Rightarrow> 'w \<Rightarrow> int \<times> int \<times> sockaddr \<times> 'w" \<comment> \<open>descriptor, \<open>errno\<close>, peer\<close>
  inet_ntop :: "int \<Rightarrow> byte list \<Rightarrow> string \<Rightarrow> string" \<comment> \<open>the new contents of the array\<close>
  malloc_node :: "(ptr \<Rightarrow> bool) \<Rightarrow> 'w \<Rightarrow> ptr option \<times> worker_thread_t \<times> (unit, ptr) tailq_entry \<times> 'w"
    \<comment> \<open>given those in use: the block with its old contents\<close>
  pthread_create :: "ptr \<Rightarrow> 'w \<Rightarrow> int \<times> int \<times> 'w" \<comment> \<open>status and \<open>thread_id\<close>\<close>
  mutex_trylock :: "'w \<Rightarrow> int \<times> 'w"
  open_append :: "'w \<Rightarrow> int \<times> 'w"
  write_log :: "int \<Rightarrow> byte list \<Rightarrow> 'w \<Rightarrow> (int \<times> int \<times> 'w) option"

datatype call = Openlog | Closelog | Freeaddrinfo | Socket int | Accepted int | Close int | Mutex_init | Mutex_destroy
  | Mutex_unlock | Timer_create int | Timer_delete int | Unlink | Open_null | Dup int | Pthread_join int

section \<open>State\<close>

datatype main_thread_states_t = Accept_Connections | Join_threads

text \<open>
  \<open>host_addr_info\<close> is \<open>None\<close> for NULL, and keeps its value when the list is freed.  The mutex is part of
  the world.
\<close>

record socket_state_t =
  signal_caught :: bool
  free_address_info :: bool
  free_socket_descriptor :: bool
  host_addr_info :: "addrinfo list option"
  socket_descriptor :: int
  connection_count :: int
  disarm_alarm :: bool
  timer_1 :: int
  itime :: itimerspec

text \<open>
  The whole process: \<open>head\<close> is the queue of connections and \<open>nodes\<close> the structures in it; \<open>running\<close> are
  the nodes whose thread has not ended yet, and \<open>exited\<close> is the exit status.
\<close>

record 'w server =
  ss :: socket_state_t
  circular_buf :: circular_buf_metadata_t
  main_thread_state :: main_thread_states_t
  addr_text :: string \<comment> \<open>the array \<open>s\<close>\<close>
  head :: "(unit, ptr) tailq"
  nodes :: "ptr \<Rightarrow> worker_thread_t option"
  running :: "ptr set"
  os_w :: 'w
  calls :: "call list"
  exited :: "int option"

definition log_call :: "call \<Rightarrow> 'w server \<Rightarrow> 'w server" where
  "log_call c s = s\<lparr>calls := calls s @ [c]\<rparr>"

section \<open>Timer and signals\<close>

definition create_and_arm_timer :: "'w os \<Rightarrow> 'w server \<Rightarrow> int \<times> 'w server" where
  "create_and_arm_timer Os s =
     (let (status, t, w) = timer_create Os (os_w s) in
      if status = -1 then (-1, s\<lparr>os_w := w\<rparr>)
      else let it = \<lparr>it_interval = (10, 0), it_value = (10, 0)\<rparr>;
               s1 = log_call (Timer_create t) (s\<lparr>ss := (ss s)\<lparr>timer_1 := t, itime := it\<rparr>\<rparr>);
               (status, w1) = timer_settime Os t it w
           in if status = -1 then (-1, s1\<lparr>os_w := w1\<rparr>) else (0, s1\<lparr>os_w := w1\<rparr>))"

definition disarm_and_destroy_timer :: "'w os \<Rightarrow> 'w server \<Rightarrow> 'w server" where
  "disarm_and_destroy_timer Os s =
     (let it = \<lparr>it_interval = (0, 0), it_value = (0, 0)\<rparr>;
          (status, w) = timer_settime Os (timer_1 (ss s)) it (os_w s)
      in log_call (Timer_delete (timer_1 (ss s))) (s\<lparr>ss := (ss s)\<lparr>itime := it\<rparr>, os_w := w\<rparr>))"

abbreviation (input) SIGINT :: int where "SIGINT \<equiv> 2"
abbreviation (input) SIGALRM :: int where "SIGALRM \<equiv> 14"
abbreviation (input) SIGTERM :: int where "SIGTERM \<equiv> 15"

definition setup_signal :: "bool \<Rightarrow> 'w os \<Rightarrow> int \<Rightarrow> 'w server \<Rightarrow> int \<times> 'w server" where
  "setup_signal cd Os signo s =
     (let sa_handler = (if signo = SIGINT \<or> signo = SIGTERM then Sighandler
                        else if \<not> cd \<and> signo = SIGALRM then Alarmhandler else Unset_handler);
          (r, w) = sigemptyset Os (os_w s)
      in if r = -1 then (-1, s\<lparr>os_w := w\<rparr>)
         else let (r, w1) = sigaction Os signo sa_handler w
              in if r = -1 then (-1, s\<lparr>os_w := w1\<rparr>) else (0, s\<lparr>os_w := w1\<rparr>))"

definition sighandler :: "'w server \<Rightarrow> 'w server" where
  "sighandler s = s\<lparr>ss := (ss s)\<lparr>signal_caught := True\<rparr>\<rparr>"

section \<open>Initial state and cleanup\<close>

definition initialize_socket_state :: "bool \<Rightarrow> 'w server \<Rightarrow> 'w server" where
  "initialize_socket_state cd s =
     (let s1 = s\<lparr>ss := (ss s)\<lparr>free_address_info := False, free_socket_descriptor := False,
                 signal_caught := False, host_addr_info := None, connection_count := 0\<rparr>\<rparr>
      in if cd then s1
         else log_call Mutex_init (s1\<lparr>ss := (ss s1)\<lparr>disarm_alarm := False\<rparr>\<rparr>))"

definition perform_cleanup :: "bool \<Rightarrow> 'w os \<Rightarrow> 'w server \<Rightarrow> 'w server" where
  "perform_cleanup cd Os s =
     (let s1 = (if host_addr_info (ss s) \<noteq> None \<and> free_address_info (ss s) then log_call Freeaddrinfo s else s);
          s2 = (if free_address_info (ss s1) then log_call (Close (socket_descriptor (ss s1))) s1 else s1);
          s3 = (if cd then s2
                else log_call Mutex_destroy (if disarm_alarm (ss s2) then disarm_and_destroy_timer Os s2 else s2))
      in log_call Closelog s3)"

definition shutdown_function :: "bool \<Rightarrow> 'w os \<Rightarrow> 'w server \<Rightarrow> 'w server" where
  "shutdown_function cd Os s =
     (let s1 = perform_cleanup cd Os s
      in (if cd then s1 else log_call Unlink s1)\<lparr>exited := Some 1\<rparr>)"

text \<open>\<open>perform_cleanup(); return -1;\<close>\<close>

definition fail_start :: "bool \<Rightarrow> 'w os \<Rightarrow> 'w server \<Rightarrow> 'w server" where
  "fail_start cd Os s = (perform_cleanup cd Os s)\<lparr>exited := Some (-1)\<rparr>"

section \<open>Start-up\<close>

definition AF_INET :: int where "AF_INET = 2"

definition get_in_addr :: "sockaddr \<Rightarrow> byte list" where
  "get_in_addr sa = (if sa_family sa = AF_INET then sin_addr sa else sin6_addr sa)"

text \<open>\<open>getopt\<close> gives the options one by one; \<open>d\<close> asks for a daemon.\<close>

fun parse_options :: "char list \<Rightarrow> bool \<Rightarrow> bool" where
  "parse_options [] run_as_daemon = run_as_daemon"
| "parse_options (opt # opts) run_as_daemon =
     parse_options opts (if opt = CHR ''d'' then True else run_as_daemon)"

text \<open>The loop over the addresses; the first result is whether \<open>p\<close> is not NULL after it.\<close>

fun bind_loop :: "bool \<Rightarrow> 'w os \<Rightarrow> addrinfo list \<Rightarrow> 'w server \<Rightarrow> bool \<times> 'w server" where
  "bind_loop cd Os [] s = (False, s)"
| "bind_loop cd Os (p # ps) s =
     (let (fd, w) = socket Os (ai_family p) (ai_socktype p) (ai_protocol p) (os_w s);
          s1 = s\<lparr>os_w := w, ss := (ss s)\<lparr>socket_descriptor := fd\<rparr>\<rparr>
      in if fd = -1 then bind_loop cd Os ps s1
         else let s2 = log_call (Socket fd) (s1\<lparr>ss := (ss s1)\<lparr>free_socket_descriptor := True\<rparr>\<rparr>);
                  (status, w1) = setsockopt Os fd (os_w s2);
                  s3 = s2\<lparr>os_w := w1\<rparr>
              in if status = -1 then (True, fail_start cd Os s3)
                 else let (status, w2) = bind_socket Os fd (ai_addr p) (os_w s3);
                          s4 = s3\<lparr>os_w := w2\<rparr>
                      in if status = -1 then bind_loop cd Os ps (log_call (Close fd) s4)
                         else (True, s4))"

text \<open>The parent exits; the child goes on without terminal and standard streams.\<close>

definition daemonize :: "bool \<Rightarrow> 'w os \<Rightarrow> 'w server \<Rightarrow> 'w server" where
  "daemonize cd Os s =
     (let (pid, w) = fork Os (os_w s); s1 = s\<lparr>os_w := w\<rparr> in
      if pid = -1 then fail_start cd Os s1
      else if pid \<noteq> 0 then (perform_cleanup cd Os s1)\<lparr>exited := Some 0\<rparr>
      else let (r, w) = setsid Os (os_w s1); s2 = s1\<lparr>os_w := w\<rparr> in
        if r = -1 then fail_start cd Os s2
        else let (r, w) = chdir_root Os (os_w s2); s3 = s2\<lparr>os_w := w\<rparr> in
          if r = -1 then fail_start cd Os s3
          else log_call (Dup 0) (log_call (Dup 0) (log_call Open_null
                 (log_call (Close 2) (log_call (Close 1) (log_call (Close 0) s3))))))"

text \<open>From \<open>listen\<close> to the first state of the machine.\<close>

definition start_timer :: "bool \<Rightarrow> 'w os \<Rightarrow> 'w server \<Rightarrow> 'w server" where
  "start_timer cd Os s =
     (if cd then s
      else let s1 = s\<lparr>circular_buf := initialize_circular_buf (circular_buf s)\<rparr>;
               (r, s2) = setup_signal cd Os SIGALRM s1
           in if r = -1 then fail_start cd Os s2
              else let (r, s3) = create_and_arm_timer Os s2
                   in if r = -1 then fail_start cd Os s3
                      else s3\<lparr>ss := (ss s3)\<lparr>disarm_alarm := True\<rparr>\<rparr>)"

definition start_machine :: "'w server \<Rightarrow> 'w server" where
  "start_machine s =
     s\<lparr>head := TAILQ_INIT () (head s),
       main_thread_state := (if signal_caught (ss s) then Join_threads else Accept_Connections)\<rparr>"

definition start_listening :: "bool \<Rightarrow> 'w os \<Rightarrow> 'w server \<Rightarrow> 'w server" where
  "start_listening cd Os s =
     (let (status, w) = listen Os (socket_descriptor (ss s)) (os_w s); s1 = s\<lparr>os_w := w\<rparr> in
      if status = -1 then fail_start cd Os s1
      else let (r, s2) = setup_signal cd Os SIGINT s1 in
        if r = -1 then fail_start cd Os s2
        else let (r, s3) = setup_signal cd Os SIGTERM s2 in
          if r = -1 then fail_start cd Os s3
          else let s4 = start_timer cd Os s3
               in if exited s4 \<noteq> None then s4 else start_machine s4)"

definition main_start :: "bool \<Rightarrow> 'w os \<Rightarrow> char list \<Rightarrow> 'w server \<Rightarrow> 'w server" where
  "main_start cd Os opts s0 =
     (let s = log_call Openlog (initialize_socket_state cd s0);
          run_as_daemon = parse_options opts False;
          (status, addrs, w) = getaddrinfo Os (os_w s);
          s1 = s\<lparr>os_w := w, addr_text := []\<rparr>
      in if status \<noteq> 0 then s1\<lparr>exited := Some (-1)\<rparr>
         else let s2 = s1\<lparr>ss := (ss s1)\<lparr>host_addr_info := Some addrs, free_address_info := True\<rparr>\<rparr>;
                  (found, s3) = bind_loop cd Os addrs s2
              in if exited s3 \<noteq> None then s3
                 else if \<not> found then fail_start cd Os s3
                 else let s4 = log_call Freeaddrinfo s3;
                          s5 = s4\<lparr>ss := (ss s4)\<lparr>free_address_info := False\<rparr>\<rparr>;
                          s6 = (if run_as_daemon then daemonize cd Os s5 else s5)
                      in if exited s6 \<noteq> None then s6 else start_listening cd Os s6)"

section \<open>State \<open>Accept_Connections\<close>\<close>

definition to_join :: "'w server \<Rightarrow> 'w server" where
  "to_join s = s\<lparr>main_thread_state := Join_threads\<rparr>"

definition free_node :: "ptr \<Rightarrow> 'w server \<Rightarrow> 'w server" where
  "free_node n s = s\<lparr>nodes := (nodes s)(n := None), head := (head s)\<lparr>field := (field (head s))(n := None)\<rparr>\<rparr>"

definition accept_connections :: "'w os \<Rightarrow> 'w server \<Rightarrow> 'w server option" where
  "accept_connections Os s =
     (let (socket_fd, errno, client_addr, w) = accept Os (socket_descriptor (ss s)) (os_w s);
          s1 = s\<lparr>os_w := w\<rparr>
      in if socket_fd = -1 then Some (to_join s1)
         else let s2 = log_call (Accepted socket_fd) (s1\<lparr>addr_text :=
                     inet_ntop Os (sa_family client_addr) (get_in_addr client_addr) (addr_text s1)\<rparr>);
                  (p, old, old_entry, w1) = malloc_node Os (\<lambda>n. nodes s2 n \<noteq> None) (os_w s2);
                  s3 = s2\<lparr>os_w := w1\<rparr>
              in case p of
                   None \<Rightarrow> Some (to_join s3)
                 | Some node \<Rightarrow>
                     let t = old\<lparr>thread_completed := False, curr_state := Receive_From_Socket,
                                 socket_file_descriptor := socket_fd, ip_addr := addr_text s3\<rparr>;
                         (status, tid, w2) = pthread_create Os node (os_w s3);
                         s4 = s3\<lparr>nodes := (nodes s3)(node \<mapsto> t\<lparr>thread_id := tid\<rparr>),
                                 head := (head s3)\<lparr>field := (field (head s3))(node \<mapsto> old_entry)\<rparr>, os_w := w2\<rparr>
                     in if status \<noteq> 0 then Some (to_join (free_node node s4))
                        else map_option (\<lambda>q. to_join (s4\<lparr>head := q, running := insert node (running s4),
                               ss := (ss s4)\<lparr>connection_count := connection_count (ss s4) + 1\<rparr>\<rparr>))
                             (TAILQ_INSERT_TAIL () node (head s4)))"

section \<open>State \<open>Join_threads\<close>\<close>

text \<open>The body of the loop: a thread that has completed is joined and its node freed.\<close>

definition reap :: "ptr \<Rightarrow> 'w server \<Rightarrow> 'w server option" where
  "reap n s =
     Option.bind (nodes s n) (\<lambda>t.
       if thread_completed t
       then let s1 = log_call (Pthread_join (thread_id t)) s
            in map_option (\<lambda>q. let s2 = free_node n (s1\<lparr>head := q\<rparr>)
                               in s2\<lparr>ss := (ss s2)\<lparr>connection_count := connection_count (ss s2) - 1\<rparr>\<rparr>)
                 (TAILQ_REMOVE () n (head s1))
       else Some s)"

definition join_completed :: "'w server \<Rightarrow> 'w server option" where
  "join_completed s =
     (if connection_count (ss s) > 0 then TAILQ_FOREACH_SAFE head () reap s else Some s)"

text \<open>With no connection open the main thread writes the next timestamp itself.\<close>

definition main_stamp :: "'w os \<Rightarrow> 'w server \<Rightarrow> 'w server option" where
  "main_stamp Os s =
     (let (status, w) = mutex_trylock Os (os_w s); s1 = s\<lparr>os_w := w\<rparr> in
      if status \<noteq> 0 then Some s1
      else let (r, time_val_buf, q) = dequeue_data_from_circ_buf (replicate 80 NUL) (circular_buf s1);
               s2 = s1\<lparr>circular_buf := q\<rparr>
           in map_option (log_call Mutex_unlock)
                (if r = 0
                 then let (fd, w1) = open_append Os (os_w s2); s3 = s2\<lparr>os_w := w1\<rparr>
                      in if fd = -1 then Some s3
                         else map_option (\<lambda>(r, w2). log_call (Close fd) (s3\<lparr>os_w := w2\<rparr>))
                                (dump_content (write_log Os fd) time_val_buf (int (length (c_str time_val_buf))) (os_w s3))
                 else Some s2))"

definition join_threads :: "bool \<Rightarrow> 'w os \<Rightarrow> 'w server \<Rightarrow> 'w server option" where
  "join_threads cd Os s =
     Option.bind (join_completed s) (\<lambda>s1.
     Option.bind (if \<not> cd \<and> connection_count (ss s1) = 0 then main_stamp Os s1 else Some s1) (\<lambda>s2.
       Some (if signal_caught (ss s2)
             then if connection_count (ss s2) = 0 then shutdown_function cd Os s2 else s2
             else s2\<lparr>main_thread_state := Accept_Connections\<rparr>)))"

text \<open>One turn of the loop of \<open>main\<close>.\<close>

definition main_turn :: "bool \<Rightarrow> 'w os \<Rightarrow> 'w server \<Rightarrow> 'w server option" where
  "main_turn cd Os s =
     (case main_thread_state s of
        Accept_Connections \<Rightarrow> accept_connections Os s
      | Join_threads \<Rightarrow> join_threads cd Os s)"

end
