(* ===== verification/SocketMainProofs.thy ===== *)
theory SocketMainProofs
  imports SocketMain
begin

text \<open>
  Correctness of the main thread of the server: the process as a transition system (turns of the
  main loop, signals, alarms and the threads of the connections), its invariant, joining exactly
  the completed threads, exiting only when none is left, and what is released at start-up and exit.
\<close>

section \<open>The process as a transition system\<close>

text \<open>
  A turn of the main loop is one step; between two turns the signal and alarm handlers may run, the
  threads may advance, take a timestamp or end, and the world may change.
\<close>

inductive server_step :: "bool \<Rightarrow> 'w os \<Rightarrow> 'w server \<Rightarrow> 'w server \<Rightarrow> bool" for cd Os where
  turn: "exited s = None \<Longrightarrow> main_turn cd Os s = Some s' \<Longrightarrow> server_step cd Os s s'"
| signal: "exited s = None \<Longrightarrow> server_step cd Os s (sighandler s)"
| alarm: "exited s = None \<Longrightarrow> \<not> cd \<Longrightarrow> alarmhandler info (circular_buf s) = Some q \<Longrightarrow>
    server_step cd Os s (s\<lparr>circular_buf := q\<rparr>)"
| stamp: "exited s = None \<Longrightarrow> \<not> cd \<Longrightarrow> n \<in> running s \<Longrightarrow>
    dequeue_data_from_circ_buf (replicate 80 NUL) (circular_buf s) = (r, b, q) \<Longrightarrow>
    server_step cd Os s (s\<lparr>circular_buf := q\<rparr>)"
| progress: "exited s = None \<Longrightarrow> n \<in> running s \<Longrightarrow> nodes s n = Some t \<Longrightarrow>
    server_step cd Os s (s\<lparr>nodes := (nodes s)(n \<mapsto> t\<lparr>curr_state := c\<rparr>)\<rparr>)"
| finish: "exited s = None \<Longrightarrow> n \<in> running s \<Longrightarrow> nodes s n = Some t \<Longrightarrow>
    server_step cd Os s (s\<lparr>nodes := (nodes s)(n \<mapsto> t\<lparr>thread_completed := True\<rparr>), running := running s - {n}\<rparr>)"
| world: "exited s = None \<Longrightarrow> server_step cd Os s (s\<lparr>os_w := w\<rparr>)"

text \<open>A process before \<open>main\<close>, and what it can reach.\<close>

definition before_main :: "'w server \<Rightarrow> bool" where
  "before_main s \<longleftrightarrow> nodes s = Map.empty \<and> field (head s) = Map.empty \<and> running s = {} \<and> calls s = [] \<and> exited s = None"

inductive server_reachable :: "bool \<Rightarrow> 'w os \<Rightarrow> 'w server \<Rightarrow> bool" for cd Os where
  start: "before_main s \<Longrightarrow> server_reachable cd Os (main_start cd Os opts s)"
| step: "server_reachable cd Os s \<Longrightarrow> server_step cd Os s s' \<Longrightarrow> server_reachable cd Os s'"

text \<open>\<open>malloc\<close> returns blocks that are not in use.\<close>

definition malloc_ok :: "'w os \<Rightarrow> bool" where
  "malloc_ok Os \<longleftrightarrow> (\<forall>used w p t e w'. malloc_node Os used w = (Some p, t, e, w') \<longrightarrow> \<not> used p)"

section \<open>The invariant\<close>

definition completed :: "'w server \<Rightarrow> ptr \<Rightarrow> bool" where
  "completed s n \<longleftrightarrow> (\<exists>t. nodes s n = Some t \<and> thread_completed t)"

text \<open>
  The queue links exactly the allocated nodes, the counter counts them, and a thread runs for each
  one that has not completed: no thread outlives its node.
\<close>

definition server_inv :: "'w server \<Rightarrow> ptr list \<Rightarrow> bool" where
  "server_inv s ns \<longleftrightarrow>
     tailq_rep (head s) ns \<and> connection_count (ss s) = int (length ns) \<and>
     dom (nodes s) = set ns \<and> dom (field (head s)) = set ns \<and>
     running s = {n \<in> set ns. \<not> completed s n} \<and> free_address_info (ss s) = False"

lemma server_inv_frame [simp]:
  "server_inv (s\<lparr>os_w := w\<rparr>) ns = server_inv s ns" "server_inv (s\<lparr>addr_text := t\<rparr>) ns = server_inv s ns"
  "server_inv (s\<lparr>circular_buf := q\<rparr>) ns = server_inv s ns" "server_inv (s\<lparr>calls := cs\<rparr>) ns = server_inv s ns"
  "server_inv (s\<lparr>main_thread_state := m\<rparr>) ns = server_inv s ns" "server_inv (s\<lparr>exited := e\<rparr>) ns = server_inv s ns"
  "server_inv (log_call c s) ns = server_inv s ns" "server_inv (to_join s) ns = server_inv s ns"
  by (simp_all add: server_inv_def completed_def log_call_def to_join_def)

lemma log_call_simps [simp]:
  "head (log_call c s) = head s" "nodes (log_call c s) = nodes s" "running (log_call c s) = running s"
  "ss (log_call c s) = ss s" "calls (log_call c s) = calls s @ [c]" "exited (log_call c s) = exited s"
  "os_w (log_call c s) = os_w s" "circular_buf (log_call c s) = circular_buf s"
  "main_thread_state (log_call c s) = main_thread_state s" "addr_text (log_call c s) = addr_text s"
  by (simp_all add: log_call_def)

lemma to_join_simps [simp]:
  "head (to_join s) = head s" "nodes (to_join s) = nodes s" "running (to_join s) = running s"
  "ss (to_join s) = ss s" "calls (to_join s) = calls s" "exited (to_join s) = exited s"
  "main_thread_state (to_join s) = Join_threads"
  by (simp_all add: to_join_def)

lemma free_node_simps [simp]:
  "ss (free_node n s) = ss s" "calls (free_node n s) = calls s" "exited (free_node n s) = exited s"
  "running (free_node n s) = running s" "nodes (free_node n s) = (nodes s)(n := None)"
  by (simp_all add: free_node_def)

section \<open>Accepting\<close>

text \<open>
  What a turn in \<open>Accept_Connections\<close> does: nothing without a descriptor; with one, either a new
  node is linked and its thread runs, or (no memory, no thread) the queue is as before.
\<close>

definition accept_outcome :: "'w server \<Rightarrow> ptr list \<Rightarrow> 'w server \<Rightarrow> ptr list \<Rightarrow> bool" where
  "accept_outcome s ns s' ns' \<longleftrightarrow>
     server_inv s' ns' \<and> exited s' = exited s \<and> main_thread_state s' = Join_threads \<and>
     signal_caught (ss s') = signal_caught (ss s) \<and> circular_buf s' = circular_buf s \<and>
     (calls s' = calls s \<and> ns' = ns \<or>
      (\<exists>fd. fd \<noteq> -1 \<and> calls s' = calls s @ [Accepted fd] \<and>
         (ns' = ns \<or> (\<exists>n t. ns' = ns @ [n] \<and> n \<notin> set ns \<and> nodes s' = (nodes s)(n \<mapsto> t) \<and> running s' = insert n (running s) \<and>
            socket_file_descriptor t = fd \<and> curr_state t = Receive_From_Socket \<and> \<not> thread_completed t))))"

lemma accept_step:
  assumes inv: "server_inv s ns" and mal: "malloc_ok Os"
  shows "\<exists>s' ns'. accept_connections Os s = Some s' \<and> accept_outcome s ns s' ns'"
proof -
  obtain fd e a w where acc: "accept Os (socket_descriptor (ss s)) (os_w s) = (fd, e, a, w)"
    by (metis prod_cases4)
  show ?thesis
  proof (cases "fd = -1")
    case True
    then have "accept_connections Os s = Some (to_join (s\<lparr>os_w := w\<rparr>))"
      using acc by (simp add: accept_connections_def)
    moreover have "accept_outcome s ns (to_join (s\<lparr>os_w := w\<rparr>)) ns"
      using inv by (simp add: accept_outcome_def) (simp add: to_join_def)
    ultimately show ?thesis by blast
  next
    case False
    let ?s2 = "log_call (Accepted fd) (s\<lparr>os_w := w, addr_text := inet_ntop Os (sa_family a) (get_in_addr a) (addr_text s)\<rparr>)"
    obtain p t0 e0 w1 where m: "malloc_node Os (\<lambda>n. nodes s n \<noteq> None) w = (p, t0, e0, w1)"
      by (metis prod_cases4)
    show ?thesis
    proof (cases p)
      case None
      then have "accept_connections Os s = Some (to_join (?s2\<lparr>os_w := w1\<rparr>))"
        using acc False m by (simp add: accept_connections_def Let_def)
      moreover have "accept_outcome s ns (to_join (?s2\<lparr>os_w := w1\<rparr>)) ns"
        using inv False by (simp add: accept_outcome_def) (simp add: to_join_def log_call_def)
      ultimately show ?thesis by blast
    next
      case (Some n)
      have "\<not> nodes s n \<noteq> None" using mal m Some unfolding malloc_ok_def by blast
      then have new: "nodes s n = None" by simp
      then have n: "n \<notin> set ns" "field (head s) n = None" "n \<notin> running s"
        using inv by (auto simp: server_inv_def)
      obtain st tid w2 where cr: "pthread_create Os n w1 = (st, tid, w2)" by (metis prod_cases3)
      define t where "t = t0\<lparr>thread_completed := False, curr_state := Receive_From_Socket,
        socket_file_descriptor := fd, ip_addr := addr_text ?s2, thread_id := tid\<rparr>"
      let ?q = "(head s)\<lparr>field := (field (head s))(n \<mapsto> e0)\<rparr>"
      let ?s4 = "?s2\<lparr>nodes := (nodes s)(n \<mapsto> t), head := ?q, os_w := w2\<rparr>"
      show ?thesis
      proof (cases "st = 0")
        case failed: False
        have "accept_connections Os s = Some (to_join (free_node n ?s4))"
          using acc False m Some cr failed by (simp add: accept_connections_def Let_def t_def)
        moreover have "server_inv (to_join (free_node n ?s4)) ns"
          using inv n new by (simp add: server_inv_def free_node_def completed_def fun_upd_idem log_call_def)
        then have "accept_outcome s ns (to_join (free_node n ?s4)) ns"
          using False by (simp add: accept_outcome_def) (simp add: to_join_def free_node_def log_call_def)
        ultimately show ?thesis by blast
      next
        case ok: True
        have rep: "tailq_rep ?q ns" and al: "n \<in> dom (field ?q)"
          using inv n tailq_rep_field [OF n(1)] by (simp_all add: server_inv_def)
        from tailq.insert_law [OF rep n(1) al] obtain q where
          ins: "TAILQ_INSERT_TAIL () n ?q = Some q" and q: "tailq_rep q (ns @ [n])" "dom (field q) = dom (field ?q)"
          by blast
        let ?s5 = "to_join (?s4\<lparr>head := q, running := insert n (running s),
            ss := (ss s)\<lparr>connection_count := connection_count (ss s) + 1\<rparr>\<rparr>)"
        have "accept_connections Os s = Some ?s5"
          using acc False m Some cr ok ins by (simp add: accept_connections_def Let_def t_def)
        moreover have "running ?s5 = {k \<in> set (ns @ [n]). \<not> completed ?s5 k}"
          using inv n by (auto simp: server_inv_def completed_def t_def to_join_def log_call_def)
        then have "server_inv ?s5 (ns @ [n])"
          using inv n q by (auto simp: server_inv_def)
        then have "accept_outcome s ns ?s5 (ns @ [n])"
          using False n
          by (auto simp: accept_outcome_def t_def) (simp_all add: to_join_def log_call_def)
        ultimately show ?thesis by blast
      qed
    qed
  qed
qed

section \<open>Joining\<close>

definition joins :: "'w server \<Rightarrow> ptr list \<Rightarrow> call list" where
  "joins s ns = map (\<lambda>n. Pthread_join (thread_id (the (nodes s n)))) (filter (completed s) ns)"

lemma reap_step:
  assumes inv: "server_inv s (xs @ n # ys)"
  shows "\<exists>s'. reap n s = Some s' \<and> (if \<not> completed s n then s' = s
    else server_inv s' (xs @ ys) \<and> calls s' = calls s @ joins s [n] \<and> nodes s' = (nodes s)(n := None) \<and>
      running s' = running s \<and> exited s' = exited s \<and> main_thread_state s' = main_thread_state s \<and>
      circular_buf s' = circular_buf s \<and> os_w s' = os_w s \<and>
      ss s' = (ss s)\<lparr>connection_count := connection_count (ss s) - 1\<rparr>)"
proof -
  have "n \<in> dom (nodes s)" using inv by (simp add: server_inv_def)
  then obtain t where t: "nodes s n = Some t" by auto
  show ?thesis
  proof (cases "completed s n")
    case False
    then show ?thesis using t by (simp add: reap_def completed_def)
  next
    case True
    from inv have rep: "tailq_rep (head s) (xs @ n # ys)" by (simp add: server_inv_def)
    then have d: "distinct (xs @ n # ys)" by (rule tailq_rep_distinct)
    from tailq.remove_law [OF rep] obtain q where rm: "TAILQ_REMOVE () n (head s) = Some q"
      and q: "tailq_rep q (xs @ ys)" "dom (field q) = dom (field (head s))" by blast
    let ?s1 = "log_call (Pthread_join (thread_id t)) s"
    let ?s2 = "free_node n (?s1\<lparr>head := q\<rparr>)"
    let ?s3 = "?s2\<lparr>ss := (ss ?s2)\<lparr>connection_count := connection_count (ss ?s2) - 1\<rparr>\<rparr>"
    have "reap n s = Some ?s3" using t True rm by (simp add: reap_def completed_def Let_def)
    moreover have "server_inv ?s3 (xs @ ys)"
      using inv q d True tailq_rep_field [of n "xs @ ys" q None]
      by (auto simp: server_inv_def completed_def free_node_def)
    ultimately show ?thesis
      using True t by (auto simp: joins_def) (simp_all add: free_node_def log_call_def)
  qed
qed

text \<open>The loop joins exactly the completed threads, each once and in order, and frees their nodes.\<close>

definition joined :: "'w server \<Rightarrow> ptr list \<Rightarrow> 'w server \<Rightarrow> ptr list \<Rightarrow> bool" where
  "joined s ns s' ns' \<longleftrightarrow>
     ns' = filter (\<lambda>n. \<not> completed s n) ns \<and> server_inv s' ns' \<and>
     calls s' = calls s @ joins s ns \<and> nodes s' = nodes s |` set ns' \<and> running s' = running s \<and>
     exited s' = exited s \<and> main_thread_state s' = main_thread_state s \<and> circular_buf s' = circular_buf s \<and>
     os_w s' = os_w s \<and> ss s' = (ss s)\<lparr>connection_count := int (length ns')\<rparr>"

lemma join_completed_step:
  assumes inv: "server_inv s ns"
  shows "\<exists>s' ns'. join_completed s = Some s' \<and> joined s ns s' ns'"
proof (cases "ns = []")
  case True
  then have "dom (nodes s) = {}" "connection_count (ss s) = 0" using inv by (auto simp: server_inv_def)
  then show ?thesis
    using True inv by (auto simp: join_completed_def joined_def joins_def)
next
  case False
  let ?keep = "\<lambda>n. \<not> completed s n"
  define J where "J s1 xs ys \<longleftrightarrow> (\<exists>vs. ns = vs @ ys \<and> xs = filter ?keep vs \<and> server_inv s1 (xs @ ys) \<and>
    calls s1 = calls s @ joins s vs \<and> nodes s1 = nodes s |` set (xs @ ys) \<and> running s1 = running s \<and>
    exited s1 = exited s \<and> main_thread_state s1 = main_thread_state s \<and> circular_buf s1 = circular_buf s \<and>
    os_w s1 = os_w s \<and> (\<exists>c. ss s1 = (ss s)\<lparr>connection_count := c\<rparr>))" for s1 xs ys
  have d: "distinct ns" using inv by (auto simp: server_inv_def dest: tailq_rep_distinct)
  have nodes_s: "nodes s |` set ns = nodes s"
    using inv by (force simp: server_inv_def restrict_map_def fun_eq_iff dom_def)
  have start: "J s [] ns" unfolding J_def
    using inv nodes_s by (intro exI [of _ "[]"]) (auto simp: joins_def intro!: exI [of _ "connection_count (ss s)"])
  have body: "\<exists>s2. reap n s1 = Some s2 \<and> (if ?keep n then J s2 (xs @ [n]) ys else J s2 xs ys)"
    if "J s1 xs (n # ys)" for s1 xs n ys
  proof -
    from that obtain vs where vs: "ns = vs @ n # ys" "xs = filter ?keep vs" and inv1: "server_inv s1 (xs @ n # ys)"
      and fr: "calls s1 = calls s @ joins s vs" "nodes s1 = nodes s |` set (xs @ n # ys)" "running s1 = running s"
        "exited s1 = exited s" "main_thread_state s1 = main_thread_state s" "circular_buf s1 = circular_buf s"
        "os_w s1 = os_w s" "\<exists>c. ss s1 = (ss s)\<lparr>connection_count := c\<rparr>"
      unfolding J_def by blast
    have same: "completed s1 n = completed s n" "joins s1 [n] = joins s [n]"
      using fr(2) by (simp_all add: completed_def joins_def)
    from reap_step [OF inv1] obtain s2 where r: "reap n s1 = Some s2"
      and res: "if \<not> completed s1 n then s2 = s1 else server_inv s2 (xs @ ys) \<and> calls s2 = calls s1 @ joins s1 [n] \<and>
        nodes s2 = (nodes s1)(n := None) \<and> running s2 = running s1 \<and> exited s2 = exited s1 \<and>
        main_thread_state s2 = main_thread_state s1 \<and> circular_buf s2 = circular_buf s1 \<and> os_w s2 = os_w s1 \<and>
        ss s2 = (ss s1)\<lparr>connection_count := connection_count (ss s1) - 1\<rparr>" by blast
    show ?thesis
    proof (cases "completed s n")
      case False
      then have "J s2 (xs @ [n]) ys" unfolding J_def
        using res same vs inv1 fr by (intro exI [of _ "vs @ [n]"]) (simp add: joins_def)
      then show ?thesis using r False by simp
    next
      case True
      have "n \<notin> set xs \<union> set ys" using d vs by auto
      then have "(nodes s |` set (xs @ n # ys))(n := None) = nodes s |` set (xs @ ys)"
        by (auto simp: restrict_map_def fun_eq_iff)
      then have "J s2 xs ys" unfolding J_def
        using res same vs fr True by (intro exI [of _ "vs @ [n]"]) (auto simp: joins_def)
      then show ?thesis using r True by simp
    qed
  qed
  have queue: "tailq_rep (head s1) (xs @ ys)" if "J s1 xs ys" for s1 xs ys
    using that by (auto simp: J_def server_inv_def)
  from tailq.foreach_safe_inv [of J head reap ?keep, OF queue body start] obtain s' where
    run: "foreach_safe (\<lambda>n s. TAILQ_NEXT n (head s)) reap (head_of ns) s = Some s'"
    and J: "J s' (filter ?keep ns) []" by auto
  have "TAILQ_FIRST () (head s) = head_of ns"
    using inv by (intro tailq.first_law) (simp add: server_inv_def)
  moreover have "connection_count (ss s) > 0" using inv False by (simp add: server_inv_def)
  ultimately have "join_completed s = Some s'"
    using run by (simp add: join_completed_def TAILQ_FOREACH_SAFE_def)
  moreover have "joined s ns s' (filter ?keep ns)"
  proof -
    from J obtain c where inv': "server_inv s' (filter ?keep ns)" and ss': "ss s' = (ss s)\<lparr>connection_count := c\<rparr>"
      and fr: "calls s' = calls s @ joins s ns" "nodes s' = nodes s |` set (filter ?keep ns)" "running s' = running s"
        "exited s' = exited s" "main_thread_state s' = main_thread_state s" "circular_buf s' = circular_buf s"
        "os_w s' = os_w s"
      unfolding J_def by auto
    moreover from inv' ss' have "c = int (length (filter ?keep ns))" by (simp add: server_inv_def)
    ultimately show ?thesis by (simp add: joined_def)
  qed
  ultimately show ?thesis by blast
qed

text \<open>The timestamp that the main thread writes changes nothing of the connections.\<close>

definition same_connections :: "'w server \<Rightarrow> 'w server \<Rightarrow> bool" where
  "same_connections s s' \<longleftrightarrow> nodes s' = nodes s \<and> head s' = head s \<and> running s' = running s \<and> ss s' = ss s \<and>
     exited s' = exited s \<and> main_thread_state s' = main_thread_state s"

lemma same_connections_inv: "same_connections s s' \<Longrightarrow> server_inv s' ns = server_inv s ns"
  by (simp add: same_connections_def server_inv_def completed_def)

lemma main_stamp_frame: "main_stamp Os s = Some s' \<Longrightarrow> same_connections s s'"
  by (auto simp: main_stamp_def same_connections_def Let_def split: prod.splits if_splits)

lemma main_stamp_no_close_of_listener:
  "main_stamp Os s = Some s' \<Longrightarrow> \<exists>cs. calls s' = calls s @ cs \<and> set cs \<subseteq> {Mutex_unlock} \<union> range Close"
  by (auto simp: main_stamp_def Let_def split: prod.splits if_splits)

lemma perform_cleanup_frame:
  "nodes (perform_cleanup cd Os s) = nodes s \<and> head (perform_cleanup cd Os s) = head s \<and>
   running (perform_cleanup cd Os s) = running s \<and> exited (perform_cleanup cd Os s) = exited s \<and>
   connection_count (ss (perform_cleanup cd Os s)) = connection_count (ss s) \<and>
   free_address_info (ss (perform_cleanup cd Os s)) = free_address_info (ss s) \<and>
   signal_caught (ss (perform_cleanup cd Os s)) = signal_caught (ss s)"
  by (simp add: perform_cleanup_def disarm_and_destroy_timer_def Let_def split: prod.splits)

lemma server_inv_same:
  "server_inv s ns \<Longrightarrow> head s' = head s \<Longrightarrow> nodes s' = nodes s \<Longrightarrow> running s' = running s \<Longrightarrow>
     connection_count (ss s') = connection_count (ss s) \<Longrightarrow> free_address_info (ss s') = free_address_info (ss s) \<Longrightarrow>
     server_inv s' ns"
  by (simp add: server_inv_def completed_def)

lemma shutdown_frame:
  assumes "server_inv s ns"
  shows "server_inv (shutdown_function cd Os s) ns \<and> exited (shutdown_function cd Os s) = Some 1 \<and>
    signal_caught (ss (shutdown_function cd Os s)) = signal_caught (ss s)"
proof -
  have "server_inv (perform_cleanup cd Os s) ns"
    by (rule server_inv_same [OF assms]) (simp_all add: perform_cleanup_frame)
  then show ?thesis by (cases cd) (simp_all add: shutdown_function_def Let_def perform_cleanup_frame)
qed

text \<open>A whole turn in \<open>Join_threads\<close>.\<close>

lemma join_turn:
  assumes inv: "server_inv s ns" and turn: "join_threads cd Os s = Some s'" and "exited s = None"
  shows "\<exists>s1 s2. joined s ns s1 (filter (\<lambda>n. \<not> completed s n) ns) \<and> same_connections s1 s2 \<and>
    server_inv s' (filter (\<lambda>n. \<not> completed s n) ns) \<and>
    s' = (if signal_caught (ss s)
          then if filter (\<lambda>n. \<not> completed s n) ns = [] then shutdown_function cd Os s2 else s2
          else s2\<lparr>main_thread_state := Accept_Connections\<rparr>)"
proof -
  let ?ns' = "filter (\<lambda>n. \<not> completed s n) ns"
  from join_completed_step [OF inv] obtain s1 where jc: "join_completed s = Some s1"
    and j: "joined s ns s1 ?ns'" by (auto simp: joined_def)
  from turn jc obtain s2 where s2: "(if \<not> cd \<and> connection_count (ss s1) = 0 then main_stamp Os s1 else Some s1) = Some s2"
    and s': "s' = (if signal_caught (ss s2) then if connection_count (ss s2) = 0 then shutdown_function cd Os s2 else s2
      else s2\<lparr>main_thread_state := Accept_Connections\<rparr>)"
    by (auto simp: join_threads_def bind_eq_Some_conv)
  have same: "same_connections s1 s2"
    using s2 main_stamp_frame by (fastforce simp: same_connections_def split: if_splits)
  have inv1: "server_inv s1 ?ns'" and sg: "signal_caught (ss s1) = signal_caught (ss s)"
    and cc: "connection_count (ss s1) = int (length ?ns')"
    using j by (simp_all add: joined_def)
  have inv2: "server_inv s2 ?ns'" using same_connections_inv [OF same] inv1 by simp
  have eq: "s' = (if signal_caught (ss s) then if ?ns' = [] then shutdown_function cd Os s2 else s2
      else s2\<lparr>main_thread_state := Accept_Connections\<rparr>)"
    using s' same sg cc by (simp add: same_connections_def)
  moreover have "server_inv s' ?ns'"
    using shutdown_frame [OF inv2] inv2 unfolding eq by (cases "?ns' = []"; cases "signal_caught (ss s)") simp_all
  ultimately show ?thesis using j same by blast
qed

section \<open>Start-up\<close>

text \<open>
  What start-up keeps: the connections, and whether the address list is still to be freed; and the
  number of times it has been freed.
\<close>

definition freed :: "'w server \<Rightarrow> nat" where
  "freed s = count_list (calls s) Freeaddrinfo"

definition start_frame :: "'w server \<Rightarrow> 'w server \<Rightarrow> bool" where
  "start_frame s s' \<longleftrightarrow> nodes s' = nodes s \<and> field (head s') = field (head s) \<and> running s' = running s \<and>
     connection_count (ss s') = connection_count (ss s) \<and> host_addr_info (ss s') = host_addr_info (ss s) \<and>
     free_address_info (ss s') = free_address_info (ss s) \<and> signal_caught (ss s') = signal_caught (ss s)"

definition owns_list :: "'w server \<Rightarrow> bool" where
  "owns_list s \<longleftrightarrow> host_addr_info (ss s) \<noteq> None \<and> free_address_info (ss s)"

lemma start_frame_refl [simp]: "start_frame s s"
  by (simp add: start_frame_def)

lemma start_frame_trans: "start_frame s s1 \<Longrightarrow> start_frame s1 s2 \<Longrightarrow> start_frame s s2"
  by (simp add: start_frame_def)

lemma start_frame_owns: "start_frame s s' \<Longrightarrow> owns_list s' = owns_list s"
  by (simp add: start_frame_def owns_list_def)

lemma freed_log [simp]: "freed (log_call c s) = freed s + (if c = Freeaddrinfo then 1 else 0)"
  by (simp add: freed_def)

text \<open>Exactly what a cleanup releases, in order.\<close>

definition cleanup_calls :: "bool \<Rightarrow> 'w server \<Rightarrow> call list" where
  "cleanup_calls cd s =
     (if owns_list s then [Freeaddrinfo] else []) @
     (if free_address_info (ss s) then [Close (socket_descriptor (ss s))] else []) @
     (if cd then [] else (if disarm_alarm (ss s) then [Timer_delete (timer_1 (ss s))] else []) @ [Mutex_destroy]) @
     [Closelog]"

lemma disarm_simps [simp]:
  "calls (disarm_and_destroy_timer Os s) = calls s @ [Timer_delete (timer_1 (ss s))]"
  "host_addr_info (ss (disarm_and_destroy_timer Os s)) = host_addr_info (ss s)"
  by (simp_all add: disarm_and_destroy_timer_def Let_def split: prod.splits)

lemma log_if [simp]:
  "ss (if b then log_call c s else s) = ss s"
  "calls (if b then log_call c s else s) = calls s @ (if b then [c] else [])"
  by simp_all

lemmas cleanup_simps = if_True if_False log_call_simps log_if append_assoc append_Nil disarm_simps

lemma perform_cleanup_calls: "calls (perform_cleanup cd Os s) = calls s @ cleanup_calls cd s"
proof -
  have dev: "calls (perform_cleanup True Os s) = calls s @ cleanup_calls True s"
    unfolding perform_cleanup_def Let_def owns_list_def [symmetric] cleanup_calls_def log_if
    by (simp only: cleanup_simps)
  have armed: "calls (perform_cleanup False Os s) = calls s @ cleanup_calls False s" if "disarm_alarm (ss s)"
    using that unfolding perform_cleanup_def Let_def owns_list_def [symmetric] cleanup_calls_def log_if
    by (simp only: cleanup_simps)
  have "calls (perform_cleanup False Os s) = calls s @ cleanup_calls False s" if "disarm_alarm (ss s) = False"
    using that unfolding perform_cleanup_def Let_def owns_list_def [symmetric] cleanup_calls_def log_if
    by (simp only: cleanup_simps)
  with dev armed show ?thesis by (metis (full_types))
qed

lemma perform_cleanup_list: "host_addr_info (ss (perform_cleanup cd Os s)) = host_addr_info (ss s)"
  by (simp add: perform_cleanup_def Let_def)

lemma fail_start_frame:
  "start_frame s (fail_start cd Os s) \<and> exited (fail_start cd Os s) = Some (-1) \<and>
   freed (fail_start cd Os s) = freed s + (if owns_list s then 1 else 0)"
proof -
  have "count_list (cleanup_calls cd s) Freeaddrinfo = (if owns_list s then 1 else 0)"
    by (simp add: cleanup_calls_def)
  then show ?thesis
    using perform_cleanup_frame [of cd Os s] perform_cleanup_list [of cd Os s]
    by (simp add: fail_start_def start_frame_def freed_def perform_cleanup_calls)
qed

definition bind_post :: "'w server \<Rightarrow> 'w server \<Rightarrow> bool" where
  "bind_post s s' \<longleftrightarrow> exited s = None \<longrightarrow> start_frame s s' \<and>
     freed s' = freed s + (if exited s' \<noteq> None \<and> owns_list s then 1 else 0) \<and>
     (exited s' = None \<or> exited s' = Some (-1))"

lemma bind_post_trans:
  "start_frame s s1 \<and> freed s1 = freed s \<and> exited s1 = exited s \<Longrightarrow> bind_post s1 s' \<Longrightarrow> bind_post s s'"
  using start_frame_trans [of s s1 s'] start_frame_owns [of s s1] by (simp add: bind_post_def)

lemma bind_loop_frame: "bind_loop cd Os ps s = (found, s') \<Longrightarrow> bind_post s s'"
proof (induction ps arbitrary: s)
  case Nil
  then show ?case by (simp add: bind_post_def)
next
  case (Cons p ps)
  obtain fd w where sk: "socket Os (ai_family p) (ai_socktype p) (ai_protocol p) (os_w s) = (fd, w)" by fastforce
  let ?s1 = "s\<lparr>os_w := w, ss := (ss s)\<lparr>socket_descriptor := fd\<rparr>\<rparr>"
  have f1: "start_frame s ?s1 \<and> freed ?s1 = freed s \<and> exited ?s1 = exited s"
    by (simp_all add: start_frame_def freed_def)
  show ?case
  proof (cases "fd = -1")
    case True
    then have "bind_loop cd Os ps ?s1 = (found, s')" using Cons.prems sk by simp
    from bind_post_trans [OF f1 Cons.IH [OF this]] show ?thesis .
  next
    case False
    let ?s2 = "log_call (Socket fd) (?s1\<lparr>ss := (ss ?s1)\<lparr>free_socket_descriptor := True\<rparr>\<rparr>)"
    have f2: "start_frame s ?s2 \<and> freed ?s2 = freed s \<and> exited ?s2 = exited s"
      by (simp_all add: start_frame_def freed_def)
    obtain st w1 where so: "setsockopt Os fd (os_w ?s2) = (st, w1)" by fastforce
    let ?s3 = "?s2\<lparr>os_w := w1\<rparr>"
    have f3: "start_frame s ?s3 \<and> freed ?s3 = freed s \<and> exited ?s3 = exited s"
      using f2 by (simp_all add: start_frame_def freed_def)
    show ?thesis
    proof (cases "st = -1")
      case True
      then have "s' = fail_start cd Os ?s3" using Cons.prems sk False so by (simp add: Let_def)
      with fail_start_frame [of ?s3 cd Os] have "bind_post ?s3 s'" by (auto simp: bind_post_def)
      then show ?thesis by (rule bind_post_trans [OF f3])
    next
      case ok: False
      obtain st2 w2 where bd: "bind_socket Os fd (ai_addr p) (os_w ?s3) = (st2, w2)" by fastforce
      let ?s4 = "?s3\<lparr>os_w := w2\<rparr>" and ?s5 = "log_call (Close fd) (?s3\<lparr>os_w := w2\<rparr>)"
      have f4: "start_frame s ?s4 \<and> freed ?s4 = freed s \<and> exited ?s4 = exited s"
        and f5: "start_frame s ?s5 \<and> freed ?s5 = freed s \<and> exited ?s5 = exited s"
        using f3 by (simp_all add: start_frame_def freed_def)
      show ?thesis
      proof (cases "st2 = -1")
        case True
        then have run: "bind_loop cd Os ps ?s5 = (found, s')" using Cons.prems sk False so ok bd by (simp add: Let_def)
        from Cons.IH [OF run] show ?thesis by (rule bind_post_trans [OF f5])
      next
        case False
        then have "s' = ?s4" using Cons.prems sk \<open>fd \<noteq> -1\<close> so ok bd by (simp add: Let_def)
        then show ?thesis using f4 by (simp add: bind_post_def)
      qed
    qed
  qed
qed

text \<open>The later phases of start-up, when the list has been freed.\<close>

definition quiet :: "'w server \<Rightarrow> 'w server \<Rightarrow> bool" where
  "quiet s s' \<longleftrightarrow> start_frame s s' \<and> (\<not> owns_list s \<longrightarrow> freed s' = freed s)"

lemma quiet_refl [simp]: "quiet s s"
  by (simp add: quiet_def)

lemma quiet_trans: "quiet s s1 \<Longrightarrow> quiet s1 s2 \<Longrightarrow> quiet s s2"
  using start_frame_trans [of s s1 s2] start_frame_owns [of s s1] by (simp add: quiet_def)

lemma quiet_updates [intro]:
  "quiet s s1 \<Longrightarrow> quiet s (s1\<lparr>os_w := w\<rparr>)" "quiet s s1 \<Longrightarrow> c \<noteq> Freeaddrinfo \<Longrightarrow> quiet s (log_call c s1)"
  "quiet s s1 \<Longrightarrow> quiet s (s1\<lparr>circular_buf := q\<rparr>)" "quiet s s1 \<Longrightarrow> quiet s (s1\<lparr>exited := e\<rparr>)"
  "quiet s s1 \<Longrightarrow> quiet s (s1\<lparr>ss := (ss s1)\<lparr>disarm_alarm := b\<rparr>\<rparr>)"
  "quiet s s1 \<Longrightarrow> quiet s (s1\<lparr>ss := (ss s1)\<lparr>timer_1 := t, itime := it\<rparr>\<rparr>)"
  by (simp_all add: quiet_def start_frame_def freed_def log_call_def)

lemma quiet_cleanup [intro]: "quiet s s1 \<Longrightarrow> quiet s (perform_cleanup cd Os s1)"
  "quiet s s1 \<Longrightarrow> quiet s (fail_start cd Os s1)"
proof -
  have "quiet s1 (perform_cleanup cd Os s1)" for s1
    using perform_cleanup_frame [of cd Os s1] perform_cleanup_list [of cd Os s1]
    by (simp add: quiet_def start_frame_def freed_def perform_cleanup_calls) (simp add: cleanup_calls_def)
  moreover have "quiet s1 (fail_start cd Os s1)" for s1
    using fail_start_frame [of s1 cd Os] by (simp add: quiet_def)
  ultimately show "quiet s s1 \<Longrightarrow> quiet s (perform_cleanup cd Os s1)"
    "quiet s s1 \<Longrightarrow> quiet s (fail_start cd Os s1)"
    using quiet_trans by blast+
qed

lemma setup_signal_quiet: "setup_signal cd Os signo s1 = (r, s2) \<Longrightarrow> quiet s s1 \<Longrightarrow> quiet s s2 \<and> exited s2 = exited s1"
  by (auto simp: setup_signal_def Let_def split: prod.splits if_splits)

lemma create_and_arm_timer_quiet:
  "create_and_arm_timer Os s1 = (r, s2) \<Longrightarrow> quiet s s1 \<Longrightarrow> quiet s s2 \<and> exited s2 = exited s1"
  by (auto simp: create_and_arm_timer_def Let_def split: prod.splits if_splits)

lemma daemonize_quiet: "quiet s s1 \<Longrightarrow> quiet s (daemonize cd Os s1)"
  by (auto simp: daemonize_def Let_def intro!: quiet_updates split: prod.splits)

lemma start_timer_quiet: "quiet s s1 \<Longrightarrow> quiet s (start_timer cd Os s1)"
  by (fastforce simp: start_timer_def Let_def dest: setup_signal_quiet create_and_arm_timer_quiet split: prod.splits)

lemma start_machine_quiet: "quiet s s1 \<Longrightarrow> quiet s (start_machine s1)"
  by (simp add: start_machine_def quiet_def start_frame_def freed_def)

lemma start_listening_quiet:
  assumes "quiet s s1"
  shows "quiet s (start_listening cd Os s1)"
proof -
  obtain st w where l: "listen Os (socket_descriptor (ss s1)) (os_w s1) = (st, w)" by fastforce
  let ?s1 = "s1\<lparr>os_w := w\<rparr>"
  have q1: "quiet s ?s1" using assms by auto
  obtain r2 s2 where s2: "setup_signal cd Os SIGINT ?s1 = (r2, s2)" by fastforce
  obtain r3 s3 where s3: "setup_signal cd Os SIGTERM s2 = (r3, s3)" by fastforce
  have q2: "quiet s s2" using setup_signal_quiet [OF s2 q1] by simp
  have q3: "quiet s s3" using setup_signal_quiet [OF s3 q2] by simp
  show ?thesis
    using l s2 s3 quiet_cleanup(2) [OF q1] quiet_cleanup(2) [OF q2] quiet_cleanup(2) [OF q3]
      start_timer_quiet [OF q3] start_machine_quiet [OF start_timer_quiet [OF q3]]
    by (simp add: start_listening_def Let_def)
qed

text \<open>The address list is freed exactly once on every path, if there is one.\<close>

lemma main_start_frame:
  assumes "before_main s"
  shows "freed (main_start cd Os opts s) = (if fst (getaddrinfo Os (os_w s)) = 0 then 1 else 0) \<and>
    (exited (main_start cd Os opts s) = None \<longrightarrow> nodes (main_start cd Os opts s) = Map.empty \<and>
       field (head (main_start cd Os opts s)) = Map.empty \<and> running (main_start cd Os opts s) = {} \<and>
       connection_count (ss (main_start cd Os opts s)) = 0 \<and>
       free_address_info (ss (main_start cd Os opts s)) = False)"
proof -
  let ?s = "log_call Openlog (initialize_socket_state cd s)"
  have init: "nodes ?s = Map.empty" "field (head ?s) = Map.empty" "running ?s = {}" "freed ?s = 0" "exited ?s = None"
    "connection_count (ss ?s) = 0" "os_w ?s = os_w s"
    using assms by (auto simp: initialize_socket_state_def before_main_def freed_def Let_def log_call_def)
  obtain st addrs w where ga: "getaddrinfo Os (os_w s) = (st, addrs, w)" by (metis prod_cases3)
  let ?s1 = "?s\<lparr>os_w := w, addr_text := []\<rparr>"
  have i1: "nodes ?s1 = Map.empty" "field (head ?s1) = Map.empty" "running ?s1 = {}" "freed ?s1 = 0" "exited ?s1 = None"
    "connection_count (ss ?s1) = 0"
    using init by (simp_all add: freed_def)
  show ?thesis
  proof (cases "st = 0")
    case False
    then have "main_start cd Os opts s = ?s1\<lparr>exited := Some (-1)\<rparr>"
      using ga init(7) by (simp add: main_start_def Let_def)
    then show ?thesis using i1 False ga by (simp add: freed_def)
  next
    case True
    let ?s2 = "?s1\<lparr>ss := (ss ?s1)\<lparr>host_addr_info := Some addrs, free_address_info := True\<rparr>\<rparr>"
    have i2: "nodes ?s2 = Map.empty" "field (head ?s2) = Map.empty" "running ?s2 = {}" "freed ?s2 = 0" "exited ?s2 = None"
      "connection_count (ss ?s2) = 0" "owns_list ?s2"
      using i1 by (simp_all add: freed_def owns_list_def)
    obtain found s3 where bl: "bind_loop cd Os addrs ?s2 = (found, s3)" by fastforce
    have "bind_post ?s2 s3" by (rule bind_loop_frame [OF bl])
    then have fr: "start_frame ?s2 s3" and cnt: "freed s3 = (if exited s3 \<noteq> None then 1 else 0)"
      using i2 by (simp_all add: bind_post_def)
    have own3: "owns_list s3" using start_frame_owns [OF fr] i2 by simp
    have main: "main_start cd Os opts s = (if exited s3 \<noteq> None then s3 else if \<not> found then fail_start cd Os s3
        else let s5 = (log_call Freeaddrinfo s3)\<lparr>ss := (ss s3)\<lparr>free_address_info := False\<rparr>\<rparr>;
               s6 = (if parse_options opts False then daemonize cd Os s5 else s5)
             in if exited s6 \<noteq> None then s6 else start_listening cd Os s6)"
      using ga True bl init(7) by (simp add: main_start_def Let_def)
    show ?thesis
    proof (cases "exited s3 = None \<and> found")
      case False
      then show ?thesis
        using main cnt own3 ga True fail_start_frame [of s3 cd Os] by (auto simp: start_frame_def)
    next
      case ok: True
      let ?s5 = "(log_call Freeaddrinfo s3)\<lparr>ss := (ss s3)\<lparr>free_address_info := False\<rparr>\<rparr>"
      let ?s6 = "if parse_options opts False then daemonize cd Os ?s5 else ?s5"
      have i5: "nodes ?s5 = Map.empty" "field (head ?s5) = Map.empty" "running ?s5 = {}" "freed ?s5 = 1"
        "connection_count (ss ?s5) = 0" "\<not> owns_list ?s5" "\<not> free_address_info (ss ?s5)"
        using fr i2 cnt ok by (auto simp: start_frame_def freed_def owns_list_def)
      have q6: "quiet ?s5 ?s6" by (simp add: daemonize_quiet)
      have "quiet ?s5 (main_start cd Os opts s)"
        using main ok q6 start_listening_quiet [OF q6] unfolding Let_def by (simp only: simp_thms if_False split: if_split)
      then show ?thesis using i5 ga True by (simp add: quiet_def start_frame_def)
    qed
  qed
qed

lemma fail_start_exited [simp]: "exited (fail_start cd Os s) = Some (-1)"
  using fail_start_frame by blast

lemma start_listening_ready:
  assumes "exited (start_listening cd Os s) = None"
  shows "\<exists>s1. start_listening cd Os s = start_machine s1 \<and> exited s1 = None"
  using assms by (auto simp: start_listening_def Let_def split: prod.splits if_splits)

lemma main_start_ready:
  assumes "exited (main_start cd Os opts s) = None"
  shows "\<exists>s1. main_start cd Os opts s = start_machine s1 \<and> exited s1 = None"
  using assms start_listening_ready
  by (auto simp: main_start_def Let_def split: prod.splits if_splits)

lemma main_start_inv:
  assumes "before_main s" and "exited (main_start cd Os opts s) = None"
  shows "server_inv (main_start cd Os opts s) []"
proof -
  obtain s1 where "main_start cd Os opts s = start_machine s1" using main_start_ready [OF assms(2)] by blast
  then have "tailq_rep (head (main_start cd Os opts s)) []" by (simp add: start_machine_def init_rep)
  then show ?thesis
    using main_start_frame [OF assms(1), of cd Os opts] assms(2) by (simp add: server_inv_def)
qed

section \<open>Every step keeps the invariant\<close>

lemma completed_upd: "completed (s\<lparr>nodes := (nodes s)(n \<mapsto> t), running := R\<rparr>) k =
    (if k = n then thread_completed t else completed s k)"
  "completed (s\<lparr>nodes := (nodes s)(n \<mapsto> t)\<rparr>) k = (if k = n then thread_completed t else completed s k)"
  by (simp_all add: completed_def)

lemma main_turn_inv:
  assumes "server_inv s ns" and "malloc_ok Os" and "exited s = None" and "main_turn cd Os s = Some s'"
  shows "\<exists>ns'. server_inv s' ns'"
proof (cases "main_thread_state s")
  case Accept_Connections
  then show ?thesis
    using accept_step [OF assms(1,2)] assms(4) by (auto simp: main_turn_def accept_outcome_def)
next
  case Join_threads
  then show ?thesis
    using join_turn [OF assms(1) _ assms(3)] assms(4) by (auto simp: main_turn_def)
qed

lemma step_inv:
  assumes "server_step cd Os s s'" and "server_inv s ns" and "malloc_ok Os"
  shows "\<exists>ns'. server_inv s' ns'"
  using assms(1,2)
proof cases
  case turn
  then show ?thesis using main_turn_inv [OF assms(2,3)] by blast
next
  case signal
  then show ?thesis using server_inv_same [OF assms(2), of "sighandler s"] by (auto simp: sighandler_def)
next
  case (progress n t c)
  have "thread_completed t \<longleftrightarrow> completed s n" using progress by (simp add: completed_def)
  then have "server_inv s' ns"
    using assms(2) progress by (auto simp: server_inv_def completed_upd)
  then show ?thesis by blast
next
  case (finish n t)
  then have "server_inv s' ns"
    using assms(2) by (auto simp: server_inv_def completed_upd)
  then show ?thesis by blast
qed (use assms(2) in auto)

lemma reachable_inv:
  assumes "server_reachable cd Os s" and "malloc_ok Os"
  shows "exited s = None \<Longrightarrow> \<exists>ns. server_inv s ns"
  using assms(1)
proof (induction rule: server_reachable.induct)
  case (start s opts)
  then show ?case using main_start_inv by blast
next
  case (step s s')
  from step.hyps(2) have "exited s = None" by cases
  then show ?case using step.IH step_inv [OF step.hyps(2) _ assms(2)] by blast
qed

section \<open>Properties\<close>

text \<open>
  C34: in every reachable state of the running server, where \<open>malloc\<close> gives fresh blocks, the queue of connections is well formed and
  links exactly the allocated nodes, \<open>connection_count\<close> is their number, and every thread that still
  runs has its node: no thread outlives the memory it uses.
\<close>

theorem connections_consistent:
  assumes "server_reachable cd Os s" and "malloc_ok Os" and "exited s = None"
  shows "\<exists>ns. tailq_rep (head s) ns \<and> set ns = dom (nodes s) \<and> connection_count (ss s) = int (length ns) \<and>
    running s = {n \<in> dom (nodes s). \<not> completed s n}"
  using reachable_inv [OF assms(1,2,3)] by (auto simp: server_inv_def)

text \<open>
  C35: the main thread never follows a bad pointer in its queue: in every reachable state of the running
  server accepting and joining succeed, whatever the system calls answer (\<open>malloc\<close> a fresh block or
  none).
\<close>

theorem connections_memory_safe:
  assumes "server_reachable cd Os s" and "malloc_ok Os" and "exited s = None"
  shows "accept_connections Os s \<noteq> None \<and> join_completed s \<noteq> None"
  using reachable_inv [OF assms] accept_step [OF _ assms(2)] join_completed_step by fastforce

text \<open>
  C36: in a reachable state of the running server a pass over the connections joins exactly the threads that have completed, each once and in
  the order of the queue, frees their nodes and keeps the others in order.
\<close>

theorem join_reaps_completed:
  assumes "server_reachable cd Os s" and "malloc_ok Os" and "exited s = None"
  shows "\<exists>ns s'. tailq_rep (head s) ns \<and> join_completed s = Some s' \<and>
    tailq_rep (head s') (filter (\<lambda>n. \<not> completed s n) ns) \<and>
    nodes s' = nodes s |` {n. \<not> completed s n} \<and>
    calls s' = calls s @ map (\<lambda>n. Pthread_join (thread_id (the (nodes s n)))) (filter (completed s) ns) \<and>
    connection_count (ss s') = int (length (filter (\<lambda>n. \<not> completed s n) ns))"
proof -
  obtain ns where inv: "server_inv s ns" using reachable_inv [OF assms] by blast
  from join_completed_step [OF inv] obtain s' where "join_completed s = Some s'"
    and j: "joined s ns s' (filter (\<lambda>n. \<not> completed s n) ns)" by (auto simp: joined_def)
  moreover have "nodes s |` set (filter (\<lambda>n. \<not> completed s n) ns) = nodes s |` {n. \<not> completed s n}"
  proof -
    have "nodes s n = None" if "n \<notin> set ns" for n
      using inv that unfolding server_inv_def by blast
    then show ?thesis by (auto simp: restrict_map_def fun_eq_iff)
  qed
  ultimately show ?thesis
    using inv by (auto simp: joined_def joins_def server_inv_def)
qed

text \<open>
  C37: a running server (reachable, \<open>malloc\<close> gives fresh blocks) only exits from its loop after a signal, when no connection is left: every thread
  has ended and been joined, and no node is left allocated.
\<close>

theorem exits_only_when_drained:
  assumes "server_reachable cd Os s" and "malloc_ok Os" and "server_step cd Os s s'" and "exited s' \<noteq> None"
  shows "exited s' = Some 1 \<and> signal_caught (ss s') \<and> nodes s' = Map.empty \<and> running s' = {} \<and>
    connection_count (ss s') = 0"
proof -
  from assms(3) have none: "exited s = None" by cases
  obtain ns where inv: "server_inv s ns" using reachable_inv [OF assms(1,2) none] by blast
  from assms(3,4) none have turn: "main_turn cd Os s = Some s'" by cases (auto simp: sighandler_def)
  have join: "main_thread_state s = Join_threads"
  proof (rule ccontr)
    assume "main_thread_state s \<noteq> Join_threads"
    then have "main_thread_state s = Accept_Connections" by (cases "main_thread_state s") auto
    then have "exited s' = exited s"
      using accept_step [OF inv assms(2)] turn by (auto simp: main_turn_def accept_outcome_def)
    then show False using none assms(4) by simp
  qed
  let ?ns' = "filter (\<lambda>n. \<not> completed s n) ns"
  have "join_threads cd Os s = Some s'" using turn join by (simp add: main_turn_def)
  from join_turn [OF inv this none] obtain s1 s2 where j: "joined s ns s1 ?ns'" and same: "same_connections s1 s2"
    and inv': "server_inv s' ?ns'"
    and s': "s' = (if signal_caught (ss s) then if ?ns' = [] then shutdown_function cd Os s2 else s2
          else s2\<lparr>main_thread_state := Accept_Connections\<rparr>)" by blast
  have "exited s2 = None" and sg: "signal_caught (ss s2) = signal_caught (ss s)"
    using j same none by (simp_all add: joined_def same_connections_def)
  then have caught: "signal_caught (ss s)" and empty: "?ns' = []"
    using s' assms(4) by (auto split: if_splits)
  have inv2: "server_inv s2 ?ns'" using same_connections_inv [OF same] j by (simp add: joined_def)
  have "s' = shutdown_function cd Os s2" unfolding s' using caught empty by simp
  then show ?thesis
    using shutdown_frame [OF inv2, of cd Os] inv' caught sg unfolding empty by (auto simp: server_inv_def)
qed

end
