(* ===== verification/SocketLifecycle.thy ===== *)
theory SocketLifecycle
  imports SocketMainProofs
begin

text \<open>
  The life of the server process: what start-up leaves, the timestamps the main thread writes, the
  shutdown after a signal, and the resources that are released twice or never.
\<close>

section \<open>Timestamps written by the main thread\<close>

text \<open>The first queued timestamp goes to the log when no connection is open.\<close>

lemma main_stamp_writes:
  assumes "tq_inv (circular_buf s)" and "mutex_trylock Os (os_w s) = (0, w)" and "open_append Os w = (fd, w1)"
    and "fd \<noteq> -1" and "write_ok (write_log Os fd) content pending failed" and "tq_live (circular_buf s) = x # xs"
  shows "\<exists>s'. main_stamp Os s = Some s' \<and> tq_inv (circular_buf s') \<and> tq_live (circular_buf s') = xs \<and>
    calls s' = calls s @ [Close fd, Mutex_unlock] \<and>
    (failed (os_w s') \<or> content (os_w s') = content w1 @ x)"
proof -
  obtain r b q where de: "dequeue_data_from_circ_buf (replicate 80 NUL) (circular_buf s) = (r, b, q)"
    by (metis prod_cases3)
  have "\<not> queue_empty (circular_buf s)"
    using tq_count_empty [OF assms(1)] assms(6) by (auto simp: tq_live_def)
  from dequeue_live [OF assms(1) this _ de] have d: "r = 0" "tq_inv q" "c_str b = x" "tq_live q = xs" "length b = 80"
    using assms(6) by auto
  have len: "length x \<le> length b" using d(3) by (metis c_str_def length_takeWhile_le)
  then have small: "length x < 2 ^ 31" using d(5) by simp
  have "take (length x) b = x" using d(3) by (metis c_str_def takeWhile_eq_take)
  with dump_to_file [OF assms(5) len small, of w1] obtain r' w' where
    dump: "dump_content (write_log Os fd) b (int (length x)) w1 = Some (r', w')"
    and res: "failed w' \<or> content w' = content w1 @ x" by auto
  have "main_stamp Os s = Some (log_call Mutex_unlock (log_call (Close fd) (s\<lparr>circular_buf := q, os_w := w'\<rparr>)))"
    using assms(2-4) de d(1,3) dump by (simp add: main_stamp_def Let_def)
  then show ?thesis using d res by simp
qed

lemma main_stamp_returns:
  assumes "\<And>fd. write_ok (write_log Os fd) content pending failed"
  shows "main_stamp Os s \<noteq> None"
proof -
  have "dump_content (write_log Os fd) b (int (length (c_str b))) w \<noteq> None" if "length b \<le> 80" for fd b w
  proof -
    have "length (c_str b) \<le> length b" by (simp add: c_str_def length_takeWhile_le)
    then show ?thesis
      using dump_to_file [OF assms, of "length (c_str b)" b fd w] that by fastforce
  qed
  moreover have "length b \<le> 80" if "dequeue_data_from_circ_buf (replicate 80 NUL) q = (r, b, q')" for q r b q'
    using that length_strncpy [of 80 "replicate 80 NUL"]
    by (auto simp: dequeue_data Let_def split: if_splits)
  ultimately show ?thesis
    by (fastforce simp: main_stamp_def Let_def split: prod.splits)
qed

section \<open>For the witnesses: a system on which everything succeeds\<close>

definition blank_thread :: worker_thread_t where
  "blank_thread = \<lparr>thread_id = 0, thread_completed = True, curr_state = Parse_data,
     socket_file_descriptor = 0, ip_addr = []\<rparr>"

text \<open>Its world counts what it has handed out, and holds the log file.\<close>

definition good_os :: "(nat \<times> byte list) os" where
  "good_os = \<lparr>
     getaddrinfo = (\<lambda>w. (0, [\<lparr>ai_family = 2, ai_socktype = 1, ai_protocol = 6, ai_addr = []\<rparr>,
                             \<lparr>ai_family = 10, ai_socktype = 1, ai_protocol = 6, ai_addr = []\<rparr>], w)),
     socket = (\<lambda>f t p (k, l). (int k + 3, (k + 1, l))),
     setsockopt = (\<lambda>fd w. (0, w)),
     bind_socket = (\<lambda>fd a w. (0, w)),
     fork = (\<lambda>w. (0, w)), setsid = (\<lambda>w. (1, w)), chdir_root = (\<lambda>w. (0, w)),
     listen = (\<lambda>fd w. (0, w)),
     sigemptyset = (\<lambda>w. (0, w)), sigaction = (\<lambda>n h w. (0, w)),
     timer_create = (\<lambda>w. (0, 7, w)), timer_settime = (\<lambda>t it w. (0, w)),
     accept = (\<lambda>fd (k, l). (int k + 3, 0, \<lparr>sa_family = 2, sin_addr = ''abcd'', sin6_addr = []\<rparr>, (k + 1, l))),
     inet_ntop = (\<lambda>f a old. ''97.98.99.100''),
     malloc_node = (\<lambda>used (k, l). (if used k then None else Some k, blank_thread,
                                    \<lparr>tqe_next = None, tqe_prev = First ()\<rparr>, (k + 1, l))),
     pthread_create = (\<lambda>n w. (0, int n, w)),
     mutex_trylock = (\<lambda>w. (0, w)),
     open_append = (\<lambda>w. (3, w)),
     write_log = (\<lambda>fd bs (k, l). Some (int (length bs), 0, (k, l @ bs)))\<rparr>"

definition at_exec :: "(nat \<times> byte list) server" where
  "at_exec = \<lparr>ss = \<lparr>signal_caught = False, free_address_info = False, free_socket_descriptor = False,
       host_addr_info = None, socket_descriptor = 0, connection_count = 0, disarm_alarm = False, timer_1 = 0,
       itime = \<lparr>it_interval = (0, 0), it_value = (0, 0)\<rparr>\<rparr>,
     circular_buf = static_queue, main_thread_state = Accept_Connections, addr_text = [],
     head = \<lparr>heads = TAILQ_HEAD_INITIALIZER, field = Map.empty\<rparr>, nodes = Map.empty, running = {},
     os_w = (20, []), calls = [], exited = None\<rparr>"

lemma at_exec_before: "before_main at_exec"
  by (simp add: before_main_def at_exec_def)

lemma good_malloc: "malloc_ok good_os"
  by (auto simp: malloc_ok_def good_os_def split: if_splits)

text \<open>The server started, with one connection, and with that connection's thread ended.\<close>

definition started :: "(nat \<times> byte list) server" where
  "started = main_start False good_os [] at_exec"

definition connected :: "(nat \<times> byte list) server" where
  "connected = the (main_turn False good_os started)"

definition hung_up :: "(nat \<times> byte list) server" where
  "hung_up = connected\<lparr>nodes := (nodes connected)(22 \<mapsto> (the (nodes connected 22))\<lparr>thread_completed := True\<rparr>),
     running := running connected - {22}\<rparr>"

lemma started_running: "exited started = None" "main_thread_state started = Accept_Connections"
  by code_simp+

lemma connected_turn: "main_turn False good_os started = Some connected" "exited connected = None"
  "nodes connected 22 \<noteq> None" "connection_count (ss connected) = 1" "main_thread_state connected = Join_threads"
proof -
  have "map_option exited (main_turn False good_os started) = Some None" by code_simp
  then show "main_turn False good_os started = Some connected" by (auto simp: connected_def)
  show "exited connected = None" "nodes connected 22 \<noteq> None" "connection_count (ss connected) = 1"
    "main_thread_state connected = Join_threads"
    by code_simp+
qed

lemma running_connected: "running connected = {22}"
  by code_simp

lemma started_reachable: "server_reachable False good_os started"
  unfolding started_def by (rule server_reachable.start [OF at_exec_before])

lemma connected_reachable: "server_reachable False good_os connected"
  by (rule server_reachable.step [OF started_reachable server_step.turn [OF started_running(1) connected_turn(1)]])

lemma hung_up_reachable: "server_reachable False good_os hung_up"
proof (rule server_reachable.step [OF connected_reachable])
  obtain t where "nodes connected 22 = Some t" using connected_turn(3) by auto
  have "22 \<in> running connected" by (simp add: running_connected)
  from server_step.finish [OF connected_turn(2) this \<open>nodes connected 22 = Some t\<close>]
  show "server_step False good_os connected hung_up"
    by (simp add: hung_up_def \<open>nodes connected 22 = Some t\<close>)
qed

lemma hung_up_simps: "exited hung_up = None" "main_thread_state hung_up = Join_threads"
  "running hung_up = {}" "connection_count (ss hung_up) = 1" "completed hung_up 22"
  using connected_turn running_connected by (simp_all add: hung_up_def completed_def)

theorem connections_consistent_witness:
  "\<exists>ns. tailq_rep (head connected) ns \<and> set ns = dom (nodes connected) \<and> int (length ns) = 1 \<and> running connected = {22}"
  using connections_consistent [OF connected_reachable good_malloc connected_turn(2)] connected_turn(4) running_connected
  by auto

theorem connections_memory_safe_witness:
  "accept_connections good_os hung_up \<noteq> None \<and> join_completed hung_up \<noteq> None"
  using connections_memory_safe [OF hung_up_reachable good_malloc hung_up_simps(1)] .

theorem join_reaps_completed_witness:
  "\<exists>s'. join_completed hung_up = Some s' \<and> nodes s' 22 = None \<and> connection_count (ss hung_up) = 1"
  using join_reaps_completed [OF hung_up_reachable good_malloc hung_up_simps(1)] hung_up_simps(4,5)
  by (fastforce simp: restrict_map_def)

definition signalled :: "(nat \<times> byte list) server" where
  "signalled = sighandler hung_up"

lemma signalled_reachable: "server_reachable False good_os signalled"
  unfolding signalled_def
  by (rule server_reachable.step [OF hung_up_reachable server_step.signal [OF hung_up_simps(1)]])

lemma signalled_turn: "map_option exited (main_turn False good_os signalled) = Some (Some 1)"
  by code_simp

theorem exits_only_when_drained_witness:
  "\<exists>s'. main_turn False good_os signalled = Some s' \<and> exited s' = Some 1 \<and> nodes s' = Map.empty \<and> running s' = {}"
proof -
  obtain s' where t: "main_turn False good_os signalled = Some s'" and e: "exited s' = Some 1"
    using signalled_turn by auto
  have "exited signalled = None" using hung_up_simps(1) by (simp add: signalled_def sighandler_def)
  from exits_only_when_drained [OF signalled_reachable good_malloc server_step.turn [OF this t]] t e
  show ?thesis by simp
qed

section \<open>Properties\<close>

lemma shutdown_state: "main_thread_state (shutdown_function cd Os s) = main_thread_state s"
  "exited (shutdown_function cd Os s) = Some 1"
  by (simp_all add: shutdown_function_def perform_cleanup_def disarm_and_destroy_timer_def Let_def split: prod.splits)

text \<open>
  C38: once a signal has been caught and the main thread of a reachable server is in \<open>Join_threads\<close>, no
  step leads back to \<open>Accept_Connections\<close>: no connection is accepted any more.  (A turn of the main
  thread is one step: a signal that comes within a turn counts as coming after it.)
\<close>

theorem signal_stops_accepting:
  assumes "server_reachable cd Os s" and "malloc_ok Os" and "server_step cd Os s s'"
    and "signal_caught (ss s)" and "main_thread_state s = Join_threads"
  shows "signal_caught (ss s') \<and> main_thread_state s' = Join_threads \<and> dom (nodes s') \<subseteq> dom (nodes s)"
proof -
  from assms(3) have none: "exited s = None" by cases
  obtain ns where inv: "server_inv s ns" using reachable_inv [OF assms(1,2) none] by blast
  show ?thesis
    using assms(3)
  proof cases
    case turn
    then have "join_threads cd Os s = Some s'" using assms(5) by (simp add: main_turn_def)
    from join_turn [OF inv this none] obtain s1 s2 where j: "joined s ns s1 (filter (\<lambda>n. \<not> completed s n) ns)"
      and same: "same_connections s1 s2" and inv': "server_inv s' (filter (\<lambda>n. \<not> completed s n) ns)"
      and s': "s' = (if filter (\<lambda>n. \<not> completed s n) ns = [] then shutdown_function cd Os s2 else s2)"
      using assms(4) by auto
    have s2: "signal_caught (ss s2)" "main_thread_state s2 = Join_threads"
      using j same assms(4,5) by (simp_all add: joined_def same_connections_def)
    have inv2: "server_inv s2 (filter (\<lambda>n. \<not> completed s n) ns)"
      using same_connections_inv [OF same] j by (simp add: joined_def)
    have "signal_caught (ss s') \<and> main_thread_state s' = Join_threads"
      using s2 shutdown_frame [OF inv2] unfolding s' by (simp add: shutdown_state)
    moreover have "dom (nodes s') \<subseteq> dom (nodes s)" using inv inv' by (auto simp: server_inv_def)
    ultimately show ?thesis by simp
  qed (use assms(4,5) in \<open>auto simp: sighandler_def\<close>)
qed

theorem signal_stops_accepting_witness:
  "\<exists>s'. main_turn False good_os signalled = Some s' \<and> main_thread_state s' = Join_threads \<and> signal_caught (ss s')"
proof -
  obtain s' where t: "main_turn False good_os signalled = Some s'" using signalled_turn by auto
  have "exited signalled = None" "main_thread_state signalled = Join_threads" "signal_caught (ss signalled)"
    using hung_up_simps by (simp_all add: signalled_def sighandler_def)
  with signal_stops_accepting [OF signalled_reachable good_malloc server_step.turn [OF _ t]] t
  show ?thesis by simp
qed

text \<open>
  C39: a reachable server that has caught a signal and is in \<open>Join_threads\<close>, and whose threads have all
  ended, exits with status 1 in its next turn, whatever the system calls answer, as long as the write of
  a timestamp to the log returns as documented.
\<close>

theorem drained_server_exits:
  assumes "server_reachable cd Os s" and "malloc_ok Os" and "exited s = None"
    and "signal_caught (ss s)" and "main_thread_state s = Join_threads" and "running s = {}"
    and "\<And>fd. write_ok (write_log Os fd) content pending failed"
  shows "\<exists>s'. main_turn cd Os s = Some s' \<and> exited s' = Some 1 \<and> nodes s' = Map.empty"
proof -
  obtain ns where inv: "server_inv s ns" using reachable_inv [OF assms(1,2,3)] by blast
  obtain s1 where jc: "join_completed s = Some s1" using join_completed_step [OF inv] by blast
  obtain s2 where "main_stamp Os s1 = Some s2" using main_stamp_returns [OF assms(7)] by blast
  then obtain s' where turn: "join_threads cd Os s = Some s'"
    using jc by (cases "cd \<or> connection_count (ss s1) \<noteq> 0") (auto simp: join_threads_def)
  from join_turn [OF inv turn assms(3)] obtain s1 s2 where "same_connections s1 s2"
    and "joined s ns s1 (filter (\<lambda>n. \<not> completed s n) ns)"
    and inv': "server_inv s' (filter (\<lambda>n. \<not> completed s n) ns)"
    and s': "s' = (if filter (\<lambda>n. \<not> completed s n) ns = [] then shutdown_function cd Os s2 else s2)"
    using assms(4) by auto
  moreover have "filter (\<lambda>n. \<not> completed s n) ns = []"
    using inv assms(6) by (auto simp: server_inv_def filter_empty_conv)
  ultimately have "exited s' = Some 1 \<and> nodes s' = Map.empty"
    by (auto simp: shutdown_state server_inv_def)
  then show ?thesis using turn assms(5) by (simp add: main_turn_def)
qed

lemma good_write: "write_ok (write_log good_os fd) snd (\<lambda>_. 0) (\<lambda>_. False)"
  by (auto simp: write_ok_def good_os_def)

theorem drained_server_exits_witness:
  "\<exists>s'. main_turn False good_os signalled = Some s' \<and> exited s' = Some 1 \<and> nodes s' = Map.empty"
  by (rule drained_server_exits [OF signalled_reachable good_malloc _ _ _ _ good_write])
    (simp_all add: signalled_def sighandler_def hung_up_simps)

text \<open>
  With no connection open and a timestamp waiting, a turn in \<open>Join_threads\<close> takes exactly the
  oldest one and appends it to the log file, unless a write failed; the mutex is released and the
  descriptor closed.
\<close>

theorem main_stamp_appends:
  assumes "tq_inv (circular_buf s)" and "tq_live (circular_buf s) = x # xs"
    and "mutex_trylock Os (os_w s) = (0, w)" and "open_append Os w = (fd, w1)" and "fd \<noteq> -1"
    and "write_ok (write_log Os fd) content pending failed"
  shows "\<exists>s'. main_stamp Os s = Some s' \<and> tq_live (circular_buf s') = xs \<and> tq_inv (circular_buf s') \<and>
    calls s' = calls s @ [Close fd, Mutex_unlock] \<and> same_connections s s' \<and>
    (failed (os_w s') \<or> content (os_w s') = content w1 @ x)"
  using main_stamp_writes [OF assms(1,3,4,5,6,2)] main_stamp_frame by blast

definition one_stamp :: "(nat \<times> byte list) server" where
  "one_stamp = started\<lparr>circular_buf := snd (tq_enq (initialize_circular_buf static_queue) ''t1'')\<rparr>"

theorem main_stamp_appends_witness:
  "\<exists>s'. main_stamp good_os one_stamp = Some s' \<and> tq_live (circular_buf s') = [] \<and> snd (os_w s') = ''t1''"
proof -
  have str: "tq_string ''t1''" by (simp add: tq_string_def NUL_def)
  obtain ok q where e: "tq_enq (initialize_circular_buf static_queue) ''t1'' = (ok, q)" by fastforce
  from tq.enq_step [OF initial_queue(1) str e] have "tq_inv q" "tq_live q = [''t1'']"
    by (simp_all add: initial_queue)
  then have "tq_inv (circular_buf one_stamp)" "tq_live (circular_buf one_stamp) = [''t1'']"
    using e by (simp_all add: one_stamp_def)
  moreover have "snd (os_w one_stamp) = []" by code_simp
  moreover have "mutex_trylock good_os (os_w one_stamp) = (0, os_w one_stamp)" "open_append good_os (os_w one_stamp) = (3, os_w one_stamp)"
    by (simp_all add: good_os_def)
  ultimately show ?thesis
    using main_stamp_appends [OF _ _ _ _ _ good_write, of one_stamp "''t1''" "[]" "os_w one_stamp" 3 "os_w one_stamp"] by auto
qed

section \<open>What is released\<close>

text \<open>
  C40: if \<open>getaddrinfo\<close> gives a list, it is freed exactly once on every path through start-up, successful
  or not; if it gives none, none is freed.
\<close>

theorem address_list_freed_once:
  assumes "before_main s"
  shows "count_list (calls (main_start cd Os opts s)) Freeaddrinfo =
    (if fst (getaddrinfo Os (os_w s)) = 0 then 1 else 0)"
  using main_start_frame [OF assms, of cd Os opts] by (simp add: freed_def)

theorem address_list_freed_once_witness:
  "count_list (calls (main_start False good_os ''d'' at_exec)) Freeaddrinfo = 1"
  using address_list_freed_once [OF at_exec_before, of False good_os "''d''"] by (simp add: good_os_def at_exec_def)

text \<open>
  The shutdown does not close the listening socket: \<open>perform_cleanup\<close> tests \<open>free_address_info\<close>,
  which is false in a running server, instead of \<open>free_socket_descriptor\<close>.
\<close>

theorem shutdown_leaves_listener_open:
  assumes "server_reachable cd Os s" and "malloc_ok Os" and "exited s = None"
  shows "calls (shutdown_function cd Os s) = calls s @
    (if cd then [Closelog]
     else (if disarm_alarm (ss s) then [Timer_delete (timer_1 (ss s))] else []) @ [Mutex_destroy, Closelog, Unlink])"
proof -
  obtain ns where "server_inv s ns" using reachable_inv [OF assms] by blast
  then have "\<not> free_address_info (ss s)" by (simp add: server_inv_def)
  then show ?thesis
    by (cases cd) (simp_all add: shutdown_function_def perform_cleanup_calls cleanup_calls_def owns_list_def Let_def)
qed

theorem shutdown_leaves_listener_open_witness:
  "calls (shutdown_function False good_os started) = calls started @ [Timer_delete 7, Mutex_destroy, Closelog, Unlink]"
proof -
  have "disarm_alarm (ss started)" "timer_1 (ss started) = 7" by code_simp+
  then show ?thesis
    using shutdown_leaves_listener_open [OF started_reachable good_malloc started_running(1)] by simp
qed

lemma bind_loop_unbound:
  assumes "\<And>fd a w. fst (bind_socket Os fd a w) = -1" and "\<And>fd w. fst (setsockopt Os fd w) = 0"
    and "\<And>f t p w. fst (socket Os f t p w) \<noteq> -1" and "ps \<noteq> []"
  shows "\<exists>s' cs. bind_loop cd Os ps s = (False, s') \<and> exited s' = exited s \<and>
    host_addr_info (ss s') = host_addr_info (ss s) \<and> free_address_info (ss s') = free_address_info (ss s) \<and>
    disarm_alarm (ss s') = disarm_alarm (ss s) \<and> calls s' = cs @ [Close (socket_descriptor (ss s'))]"
  using assms(4)
proof (induction ps arbitrary: s)
  case Nil
  then show ?case by simp
next
  case (Cons p ps)
  obtain fd w where sk: "socket Os (ai_family p) (ai_socktype p) (ai_protocol p) (os_w s) = (fd, w)" by fastforce
  have fd: "fd \<noteq> -1" using assms(3) sk by (metis fst_conv)
  obtain w1 where so: "setsockopt Os fd w = (0, w1)" using assms(2) by (metis prod.collapse)
  obtain w2 where bd: "bind_socket Os fd (ai_addr p) w1 = (-1, w2)" using assms(1) by (metis prod.collapse)
  define s1 where "s1 = log_call (Close fd) ((log_call (Socket fd)
    (s\<lparr>os_w := w, ss := (ss s)\<lparr>socket_descriptor := fd, free_socket_descriptor := True\<rparr>\<rparr>))\<lparr>os_w := w1\<rparr>\<lparr>os_w := w2\<rparr>)"
  have run: "bind_loop cd Os (p # ps) s = bind_loop cd Os ps s1"
    using sk fd so bd by (simp add: Let_def s1_def)
  have s1: "exited s1 = exited s" "host_addr_info (ss s1) = host_addr_info (ss s)"
    "free_address_info (ss s1) = free_address_info (ss s)" "socket_descriptor (ss s1) = fd"
    "disarm_alarm (ss s1) = disarm_alarm (ss s)" "\<exists>cs. calls s1 = cs @ [Close fd]"
    by (simp_all add: s1_def)
  show ?case
  proof (cases "ps = []")
    case True
    then show ?thesis using run s1 by auto
  next
    case False
    from Cons.IH [OF this, of s1] run s1 show ?thesis by auto
  qed
qed

text \<open>
  When no address can be bound, the socket tried last is closed in the loop and again by the
  cleanup.
\<close>

theorem unbound_socket_closed_twice:
  assumes "getaddrinfo Os (os_w s) = (0, addrs, w)" and "addrs \<noteq> []" and "exited s = None"
    and "\<And>f t p w. fst (socket Os f t p w) \<noteq> -1" and "\<And>fd w. fst (setsockopt Os fd w) = 0"
    and "\<And>fd a w. fst (bind_socket Os fd a w) = -1"
  shows "\<exists>fd cs. exited (main_start cd Os opts s) = Some (-1) \<and> calls (main_start cd Os opts s) =
    cs @ [Close fd, Freeaddrinfo, Close fd] @ (if cd then [] else [Mutex_destroy]) @ [Closelog]"
proof -
  let ?s = "log_call Openlog (initialize_socket_state cd s)"
  let ?s2 = "?s\<lparr>os_w := w, addr_text := []\<rparr>\<lparr>ss := (ss ?s)\<lparr>host_addr_info := Some addrs, free_address_info := True\<rparr>\<rparr>"
  have init: "os_w ?s = os_w s" "exited ?s = None" "\<not> cd \<Longrightarrow> \<not> disarm_alarm (ss ?s)"
    using assms(3) by (simp_all add: initialize_socket_state_def Let_def log_call_def)
  have ex: "exited ?s2 = None" using init(2) by simp
  from bind_loop_unbound [OF assms(6,5,4,2), where cd = cd and s = ?s2] obtain s3 cs where
    bl: "bind_loop cd Os addrs ?s2 = (False, s3)" and s3: "exited s3 = None" "host_addr_info (ss s3) = Some addrs"
      "free_address_info (ss s3)" "disarm_alarm (ss s3) = disarm_alarm (ss ?s)"
      "calls s3 = cs @ [Close (socket_descriptor (ss s3))]"
    unfolding ex by auto
  have "main_start cd Os opts s = fail_start cd Os s3"
    using assms(1) init(1) bl s3(1) by (simp add: main_start_def Let_def)
  moreover have "cleanup_calls cd s3 = [Freeaddrinfo, Close (socket_descriptor (ss s3))] @ (if cd then [] else [Mutex_destroy]) @ [Closelog]"
    using s3 init(3) by (cases cd) (simp_all add: cleanup_calls_def owns_list_def Let_def)
  ultimately have "exited (main_start cd Os opts s) = Some (-1) \<and> calls (main_start cd Os opts s) =
    cs @ [Close (socket_descriptor (ss s3)), Freeaddrinfo, Close (socket_descriptor (ss s3))] @
    (if cd then [] else [Mutex_destroy]) @ [Closelog]"
    using s3(5) by (simp add: fail_start_def perform_cleanup_calls)
  then show ?thesis by blast
qed

definition nothing_binds :: "(nat \<times> byte list) os" where
  "nothing_binds = good_os\<lparr>bind_socket := (\<lambda>fd a w. (-1, w))\<rparr>"

theorem unbound_socket_closed_twice_witness:
  "\<exists>fd cs. calls (main_start False nothing_binds [] at_exec) =
    cs @ [Close fd, Freeaddrinfo, Close fd, Mutex_destroy, Closelog]"
proof -
  obtain addrs w where "getaddrinfo nothing_binds (os_w at_exec) = (0, addrs, w)" and "addrs \<noteq> []"
    by (simp add: nothing_binds_def good_os_def)
  from unbound_socket_closed_twice [OF this, of False "[]"] show ?thesis
    by (auto simp: nothing_binds_def good_os_def at_exec_def)
qed

text \<open>
  When there is no memory for a connection that was accepted, its descriptor is neither kept nor
  closed: the main thread goes on as if no one had connected.
\<close>

theorem accept_without_memory_leaks:
  assumes "accept Os (socket_descriptor (ss s)) (os_w s) = (fd, errno, client, w)" and "fd \<noteq> -1"
    and "\<And>used w. fst (malloc_node Os used w) = None"
  shows "\<exists>s'. accept_connections Os s = Some s' \<and> calls s' = calls s @ [Accepted fd] \<and>
    nodes s' = nodes s \<and> head s' = head s \<and> ss s' = ss s"
proof -
  obtain old e w1 where m: "malloc_node Os (\<lambda>n. nodes s n \<noteq> None) w = (None, old, e, w1)"
    using assms(3) by (metis prod_cases4 fst_conv)
  show ?thesis
    using assms(1,2) m by (simp add: accept_connections_def Let_def to_join_def log_call_def)
qed

definition no_memory :: "(nat \<times> byte list) os" where
  "no_memory = good_os\<lparr>malloc_node := (\<lambda>used w. (None, blank_thread, \<lparr>tqe_next = None, tqe_prev = First ()\<rparr>, w))\<rparr>"

theorem accept_without_memory_leaks_witness:
  "\<exists>s' cs fd. accept_connections no_memory started = Some s' \<and> calls s' = cs @ [Accepted fd] \<and> ss s' = ss started"
proof -
  obtain fd e client w where a: "accept no_memory (socket_descriptor (ss started)) (os_w started) = (fd, e, client, w)" "fd \<noteq> -1"
    by (cases "os_w started") (simp add: no_memory_def good_os_def)
  have "fst (malloc_node no_memory used w) = None" for used w by (simp add: no_memory_def)
  from accept_without_memory_leaks [OF a this] show ?thesis by blast
qed

end
