(* ===== verification/ServerSystem.thy ===== *)
theory ServerSystem
  imports ConcurrentServer SocketLifecycle
begin

text \<open>
  The server put together: what \<open>main\<close> in src/server/aesdsocket.c hands to a connection's thread,
  what the thread changes of its node, and how \<open>main\<close> finds it when it has ended.  The transition
  system of the main thread lets a thread only move between its states and set its flag; here both
  thread functions are proved to do nothing else to their node, so that their runs are steps of that
  system, and a connection is followed from \<open>accept\<close> to \<open>pthread_join\<close>.
\<close>

section \<open>What a thread changes of its node\<close>

definition moved :: "worker_thread_t \<Rightarrow> worker_thread_t \<Rightarrow> bool" where
  "moved t t' \<longleftrightarrow> (\<exists>c. t' = t\<lparr>curr_state := c\<rparr>)"

lemma moved_refl [simp]: "moved t t"
  by (auto simp: moved_def intro: exI [of _ "curr_state t"])

lemma moved_trans: "moved t t1 \<Longrightarrow> moved t1 t2 \<Longrightarrow> moved t t2"
  by (auto simp: moved_def)

lemma moved_state [simp]: "moved t (t\<lparr>curr_state := c\<rparr>)"
  by (auto simp: moved_def)

definition moves :: "(worker_thread_t \<Rightarrow> worker_locals \<Rightarrow> 'w \<Rightarrow> 'w turn) \<Rightarrow> bool" where
  "moves turn \<longleftrightarrow> (\<forall>t l w lab t' l' w'. turn t l w = Some (lab, t', l', w') \<longrightarrow> moved t t')"

lemma movesD: "moves turn \<Longrightarrow> turn t l w = Some (lab, t', l', w') \<Longrightarrow> moved t t'"
  unfolding moves_def by blast

lemma receive_moves: "moves (receive_from_socket S)"
  by (auto simp: moves_def receive_from_socket_def Let_def split: bind_splits option.splits prod.splits if_splits)

lemma parse_moves: "moves (parse_data handle)"
  by (auto simp: moves_def parse_data_def Let_def split: bind_splits option.splits prod.splits if_splits)

lemma loop_moves:
  assumes "worker_loop receive parse t l w = Some (lb, t', l', w')" and "moves receive" and "moves parse"
  shows "moved t t'"
proof -
  have "moves receive \<longrightarrow> moves parse \<longrightarrow> moved t (fst (snd r))" if "worker_loop receive parse t l w = Some r" for r
  proof (rule worker_loop.raw_induct [OF _ that])
    fix loop receive parse and t :: worker_thread_t and l :: worker_locals and w :: 'a
      and r :: "label \<times> worker_thread_t \<times> worker_locals \<times> 'a"
    assume IH: "\<And>receive parse t l w r. loop receive parse t l w = Some r \<Longrightarrow>
        moves receive \<longrightarrow> moves parse \<longrightarrow> moved t (fst (snd r))"
      and "Option.bind (if curr_state t = Receive_From_Socket then receive t l w else parse t l w)
        (\<lambda>(lab, t1, l1, w1). case lab of Some lb \<Rightarrow> Some (lb, t1, l1, w1) | None \<Rightarrow> loop receive parse t1 l1 w1) = Some r"
    then obtain lab t1 l1 w1 where turn:
      "(if curr_state t = Receive_From_Socket then receive t l w else parse t l w) = Some (lab, t1, l1, w1)"
      and rest: "(case lab of Some lb \<Rightarrow> Some (lb, t1, l1, w1) | None \<Rightarrow> loop receive parse t1 l1 w1) = Some r"
      by (auto split: bind_splits)
    show "moves receive \<longrightarrow> moves parse \<longrightarrow> moved t (fst (snd r))"
    proof (intro impI)
      assume m: "moves receive" "moves parse"
      have "moved t t1" using turn movesD [OF m(1)] movesD [OF m(2)] by (simp split: if_splits)
      moreover have "moved t1 (fst (snd r))"
      proof (cases lab)
        case None
        then show ?thesis using rest IH m by simp
      qed (use rest in auto)
      ultimately show "moved t (fst (snd r))" by (rule moved_trans)
    qed
  qed
  from this [OF assms(1)] assms(2,3) show ?thesis by simp
qed

lemma free_socket_completes:
  "free_socket_fd S t l w = Some (t', l', w') \<Longrightarrow> t' = t\<lparr>thread_completed := True\<rparr>"
  by (auto simp: free_socket_fd_def split: bind_splits)

lemma free_mem_completes: "free_mem S t l w = Some (t', l', w') \<Longrightarrow> t' = t\<lparr>thread_completed := True\<rparr>"
  by (auto simp: free_mem_def free_socket_completes split: bind_splits)

lemma exit_completes:
  "char_exit S lb t l w = Some (t', l', w') \<Longrightarrow> t' = t\<lparr>thread_completed := True\<rparr>"
  "file_exit S lb t l w = Some (t', l', w') \<Longrightarrow> t' = t\<lparr>thread_completed := True\<rparr>"
  by (cases lb; auto simp: free_mem_completes free_socket_completes split: bind_splits)+

definition ended :: "worker_thread_t \<Rightarrow> worker_thread_t \<Rightarrow> bool" where
  "ended t t' \<longleftrightarrow> (\<exists>c. t' = t\<lparr>curr_state := c, thread_completed := True\<rparr>)"

lemma threads_end:
  "aesd_char_thread S t w = Some (t', l', w') \<Longrightarrow> ended t t'"
  "server_thread S' t v = Some (t', l', v') \<Longrightarrow> ended t t'"
proof -
  have "ended t t'" if "moved t t1" "t' = t1\<lparr>thread_completed := True\<rparr>" for t1
    using that by (auto simp: moved_def ended_def)
  note end_of = this [OF loop_moves [OF _ receive_moves parse_moves]]
  show "ended t t'" if run: "aesd_char_thread S t w = Some (t', l', w')"
  proof -
    obtain lb t1 l1 w1 where "worker_loop (receive_from_socket S) (parse_data (char_packet S)) t worker_start w = Some (lb, t1, l1, w1)"
      and exit: "char_exit S lb t1 l1 w1 = Some (t', l', w')"
      using run by (auto simp: aesd_char_thread_def split: bind_splits)
    from end_of [OF this(1) exit_completes(1) [OF exit]] show ?thesis .
  qed
  show "ended t t'" if run: "server_thread S' t v = Some (t', l', v')"
  proof -
    obtain lb t1 l1 w1 where "worker_loop (receive_from_socket S') (parse_data (file_packet S')) t worker_start v = Some (lb, t1, l1, w1)"
      and exit: "file_exit S' lb t1 l1 w1 = Some (t', l', v')"
      using run by (auto simp: server_thread_def split: bind_splits)
    from end_of [OF this(1) exit_completes(2) [OF exit]] show ?thesis .
  qed
qed

section \<open>A thread's run in the process\<close>

definition thread_ended :: "ptr \<Rightarrow> worker_thread_t \<Rightarrow> 'w server \<Rightarrow> 'w server" where
  "thread_ended n t' s = s\<lparr>nodes := (nodes s)(n \<mapsto> t'), running := running s - {n}\<rparr>"

lemma thread_run_reachable:
  assumes reach: "server_reachable cd Os s" and "exited s = None" and n: "n \<in> running s" "nodes s n = Some t"
    and "ended t t'"
  shows "server_reachable cd Os (thread_ended n t' s)"
proof -
  obtain c where t': "t' = t\<lparr>curr_state := c, thread_completed := True\<rparr>" using assms(5) by (auto simp: ended_def)
  let ?s1 = "s\<lparr>nodes := (nodes s)(n \<mapsto> t\<lparr>curr_state := c\<rparr>)\<rparr>"
  have "server_reachable cd Os ?s1"
    by (rule server_reachable.step [OF reach server_step.progress [OF assms(2) n]])
  moreover have "server_step cd Os ?s1 (thread_ended n t' s)"
    using server_step.finish [of ?s1 n "t\<lparr>curr_state := c\<rparr>" cd Os] assms(2) n by (simp add: thread_ended_def t')
  ultimately show ?thesis by (rule server_reachable.step)
qed

text \<open>A connection that a turn of \<open>main\<close> accepts: its node is new, and prepared for its thread.\<close>

lemma accepted_node:
  assumes reach: "server_reachable cd Os s" and mal: "malloc_ok Os" and run: "exited s = None"
    and st: "main_thread_state s = Accept_Connections" and turn: "main_turn cd Os s = Some s1"
    and new: "nodes s n = None" "nodes s1 n = Some t"
  shows "server_reachable cd Os s1 \<and> exited s1 = None \<and> n \<in> running s1 \<and> curr_state t = Receive_From_Socket \<and>
    \<not> thread_completed t \<and> calls s1 = calls s @ [Accepted (socket_file_descriptor t)]"
proof -
  obtain ns where inv: "server_inv s ns" using reachable_inv [OF reach mal run] by blast
  from accept_step [OF inv mal] obtain ns' where out: "accept_outcome s ns s1 ns'"
    using turn st by (auto simp: main_turn_def)
  have "n \<notin> set ns" using inv new(1) by (auto simp: server_inv_def)
  moreover have "n \<in> set ns'" using out new(2) by (auto simp: accept_outcome_def server_inv_def)
  ultimately have "ns' \<noteq> ns" by blast
  then obtain fd k t0 where "calls s1 = calls s @ [Accepted fd]" and nodes: "nodes s1 = (nodes s)(k \<mapsto> t0)"
    and "running s1 = insert k (running s)" and "socket_file_descriptor t0 = fd" "curr_state t0 = Receive_From_Socket"
    "\<not> thread_completed t0" and "exited s1 = None"
    using out run unfolding accept_outcome_def by auto
  moreover from nodes new have "k = n" "t0 = t" by (auto split: if_splits)
  moreover have "server_reachable cd Os s1" by (rule server_reachable.step [OF reach server_step.turn [OF run turn]])
  ultimately show ?thesis by simp
qed

lemma served_once:
  assumes "packet_served lines pkt h reply"
  shows "filter fst h = (if take 19 pkt = seek_command then [] else [(True, pkt)])"
  using assms by (auto simp: packet_served_def filter_map comp_def split: if_splits)

text \<open>Once it has ended, the next pass over the connections joins it and frees its node.\<close>

lemma ended_reaped:
  assumes reach: "server_reachable cd Os s" and mal: "malloc_ok Os" and run: "exited s = None"
    and n: "nodes s n = Some t" "thread_completed t"
  shows "\<exists>s'. join_completed s = Some s' \<and> nodes s' n = None \<and> Pthread_join (thread_id t) \<in> set (drop (length (calls s)) (calls s'))"
proof -
  obtain ns where inv: "server_inv s ns" using reachable_inv [OF reach mal run] by blast
  have "n \<in> set ns" "completed s n" using inv n by (auto simp: server_inv_def completed_def)
  then have "Pthread_join (thread_id t) \<in> set (joins s ns)" unfolding joins_def using n(1) by force
  moreover from join_completed_step [OF inv] obtain s' ns' where "join_completed s = Some s'" and "joined s ns s' ns'"
    by blast
  ultimately show ?thesis using \<open>completed s n\<close> by (auto simp: joined_def)
qed

section \<open>Properties\<close>

text \<open>
  C11: a connection from \<open>accept\<close> to \<open>pthread_join\<close>.  A turn of the main thread of a reachable server
  accepts a client that sends one packet, while the device holds no incomplete line, \<open>realloc\<close> does not
  fail, and any other threads make calls between those of the one it starts (their writes are whole
  lines and succeed).  That thread ends; unless one of its calls failed, the packet is then in the log,
  once and whole, the client has been sent what reading the log from its beginning after that gives,
  until nothing was left (a seek command is not stored, and answered from some byte on), and the device
  holds the last ten lines of the log.  What the thread did to its node is a step of the process, so all
  invariants of the server hold after it, and the next pass over the connections joins the thread and
  frees the node.
\<close>

theorem accepted_client_served:
  assumes "server_reachable True Os s" and "malloc_ok Os" and "exited s = None"
    and "main_thread_state s = Accept_Connections" and "main_turn True Os s = Some s1"
    and "nodes s n = None" and "nodes s1 n = Some t"
    and "server_idle K N (socket_file_descriptor t) arr dl (base w) lines []"
    and "sockets_apart N (socket_file_descriptor t) arr dl" and "log_hist w = []" and "own w = None"
    and "arr (net_env (base w)) = body @ [nl]" and "nl \<notin> set body"
    and "length body < 2 ^ 31 - 1"
    and "\<And>old n e. fst (n_realloc N old n e) \<noteq> None"
  defines "sock \<equiv> socket_file_descriptor t"
  shows "\<exists>t' l' w' s3. aesd_char_thread (interfered (crowd K N sock plan) sock (driver_sys K N)) t w = Some (t', l', w') \<and>
    (failed (base w') \<or>
       filter fst (log_hist w') = (if take 19 (body @ [nl]) = seek_command then [] else [(True, body @ [nl])]) \<and>
       (\<exists>reply. dl (net_env (base w')) = dl (net_env (base w)) @ reply \<and>
          packet_served lines (body @ [nl]) (log_hist w') reply) \<and>
       dev_rep K (dev (driver (base w'))) (kheap (wld (driver (base w')))) (last_n 10 (lines @ map snd (log_hist w'))) []) \<and>
    server_reachable True Os (thread_ended n t' s1) \<and>
    join_completed (thread_ended n t' s1) = Some s3 \<and> nodes s3 n = None \<and>
    Pthread_join (thread_id t) \<in> set (drop (length (calls s1)) (calls s3))"
proof -
  note new = accepted_node [OF assms(1-7)]
  have "curr_state t = Receive_From_Socket" using new by simp
  from concurrent_thread [OF assms(8-14) this refl assms(15), of plan] obtain t' l' w' where
    run: "aesd_char_thread (interfered (crowd K N sock plan) sock (driver_sys K N)) t w = Some (t', l', w')"
    and res: "failed (base w') \<or> dev_rep K (dev (driver (base w'))) (kheap (wld (driver (base w'))))
        (last_n 10 (lines @ map snd (log_hist w'))) [] \<and>
     (\<exists>reply. dl (net_env (base w')) = dl (net_env (base w)) @ reply \<and>
        packet_served lines (body @ [nl]) (log_hist w') reply)"
    unfolding sock_def by blast
  have "ended t t'" by (rule threads_end(1) [OF run])
  then have t': "thread_completed t'" "thread_id t' = thread_id t" by (auto simp: ended_def)
  have reach: "server_reachable True Os (thread_ended n t' s1)"
    using new thread_run_reachable [OF _ _ _ assms(7) \<open>ended t t'\<close>] by blast
  moreover have "exited (thread_ended n t' s1) = None" "nodes (thread_ended n t' s1) n = Some t'"
    "calls (thread_ended n t' s1) = calls s1"
    using new by (simp_all add: thread_ended_def)
  ultimately obtain s3 where "join_completed (thread_ended n t' s1) = Some s3" and "nodes s3 n = None"
    and "Pthread_join (thread_id t) \<in> set (drop (length (calls s1)) (calls s3))"
    using ended_reaped [OF reach assms(2) _ _ t'(1)] t'(2) by metis
  moreover have "failed (base w') \<or>
      filter fst (log_hist w') = (if take 19 (body @ [nl]) = seek_command then [] else [(True, body @ [nl])]) \<and>
      (\<exists>reply. dl (net_env (base w')) = dl (net_env (base w)) @ reply \<and>
          packet_served lines (body @ [nl]) (log_hist w') reply) \<and>
      dev_rep K (dev (driver (base w'))) (kheap (wld (driver (base w')))) (last_n 10 (lines @ map snd (log_hist w'))) []"
    using res served_once by blast
  ultimately show ?thesis using run reach by blast
qed

text \<open>For the witness: the server of the device, which accepts its first client.\<close>

definition device_server :: "(nat \<times> byte list) server" where
  "device_server = main_start True good_os [] at_exec"

theorem accepted_client_served_witness:
  "\<exists>s1 t t' l' w' s3. main_turn True good_os device_server = Some s1 \<and> nodes s1 22 = Some t \<and>
    aesd_char_thread (interfered (crowd bump_kernel (two_net 24) 24 busy) 24 (driver_sys bump_kernel (two_net 24)))
      t shared_world = Some (t', l', w') \<and>
    filter fst (log_hist w') = [(True, ''hi'' @ [nl])] \<and>
    join_completed (thread_ended 22 t' s1) = Some s3 \<and> nodes s3 22 = None"
proof -
  let ?S = "interfered (crowd bump_kernel (two_net 24) 24 busy) 24 (driver_sys bump_kernel (two_net 24))"
  have "map_option (\<lambda>s1. map_option (\<lambda>t. (socket_file_descriptor t,
      map_option (\<lambda>(t, l, w). failed (base w)) (aesd_char_thread ?S t shared_world))) (nodes s1 22))
      (main_turn True good_os device_server) = Some (Some (24, Some False))"
    by code_simp
  then obtain s1 t where turn: "main_turn True good_os device_server = Some s1" and t: "nodes s1 22 = Some t"
    and sock: "socket_file_descriptor t = 24"
    and ok: "map_option (\<lambda>(t, l, w). failed (base w)) (aesd_char_thread ?S t shared_world) = Some False"
    by auto
  have reach: "server_reachable True good_os device_server"
    unfolding device_server_def by (rule server_reachable.start [OF at_exec_before])
  have start: "exited device_server = None" "main_thread_state device_server = Accept_Connections"
    "nodes device_server 22 = None" by code_simp+
  have w: "server_idle bump_kernel (two_net 24) (socket_file_descriptor t) (\<lambda>(chunks, out). concat chunks) (\<lambda>(chunks, out). out)
      (base shared_world) [] []" "sockets_apart (two_net 24) (socket_file_descriptor t) (\<lambda>(chunks, out). concat chunks) (\<lambda>(chunks, out). out)"
    using shared_world_ok(1) [of 24] two_net_ok(2) [of 24] by (simp_all add: sock)
  have hyps: "nl \<notin> set ''hi''" "length ''hi'' < 2 ^ 31 - 1" "take 19 (''hi'' @ [nl]) \<noteq> seek_command"
    by (simp_all add: nl_def seek_command_def)
  from accepted_client_served [OF reach good_malloc start(1,2) turn start(3) t w shared_world_ok(2-4) [of 24] hyps(1,2)
      two_net_realloc, of busy] turn t ok hyps(3)
  show ?thesis unfolding sock by auto
qed

end
