(* ===== verification/CharDriverSystem.thy ===== *)
theory CharDriverSystem
  imports CharDriverRead
begin

text \<open>
  The driver in use: the module is loaded and unloaded, and any number of processes open its device
  and call its file operations in any order, dispatched through the table \<open>aesd_fops\<close> of
  src/aesd-char-driver/main.c.  Every operation touches the device only while it holds the mutex, so
  the runs of the system are the sequences of whole operations.  The properties of single operations
  become properties of every run.
\<close>

section \<open>Operations\<close>

text \<open>
  The open files are numbered in the order they were opened; a closed one leaves its number unused.
\<close>

datatype op =
    Load
  | Unload
  | Open
  | Release nat
  | Write nat "byte list" u64
  | Read nat u64
  | Llseek nat int int
  | Ioctl nat u32 "byte list"

record 'w system =
  modul :: "'w module_state"
  table :: "file_t option list"

definition file_of :: "'w system \<Rightarrow> nat \<Rightarrow> file_t option" where
  "file_of s fd = (if fd < length (table s) then table s ! fd else None)"

text \<open>A call on an open file; without one the kernel answers \<open>-EBADF\<close> and does not call the driver.\<close>

definition put_file :: "'w system \<Rightarrow> nat \<Rightarrow> file_t \<Rightarrow> 'w kst \<Rightarrow> 'w system" where
  "put_file s fd f k = s\<lparr>modul := (modul s)\<lparr>kst := k\<rparr>, table := (table s)[fd := Some f]\<rparr>"

definition on_file ::
  "'w system \<Rightarrow> nat \<Rightarrow> (file_t \<Rightarrow> 'w kst \<Rightarrow> (int \<times> byte list \<times> file_t \<times> 'w kst) option) \<Rightarrow>
     (int \<times> byte list \<times> 'w system) option" where
  "on_file s fd call =
     (case file_of s fd of
        None \<Rightarrow> Some (- EBADF, [], s)
      | Some f \<Rightarrow> Option.bind (call f (kst (modul s))) (\<lambda>(r, got, f', k).
          Some (r, got, put_file s fd f' k)))"

text \<open>
  The dispatch.  \<open>read(2)\<close> stores the position back only when the driver reports no error.
\<close>

fun driver_op :: "'w kernel \<Rightarrow> op \<Rightarrow> 'w system \<Rightarrow> (int \<times> byte list \<times> 'w system) option" where
  "driver_op K Load s = (let (r, m) = aesd_init_module K (modul s) in Some (r, [], s\<lparr>modul := m\<rparr>))"
| "driver_op K Unload s = Option.bind (aesd_cleanup_module K (modul s)) (\<lambda>m. Some (0, [], s\<lparr>modul := m\<rparr>))"
| "driver_op K Open s =
     (let (r, f) = aesd_open dev_inode \<lparr>private_data = None, f_pos = 0\<rparr>
      in Some (r, [], s\<lparr>table := table s @ [Some f]\<rparr>))"
| "driver_op K (Release fd) s =
     (case file_of s fd of
        None \<Rightarrow> Some (- EBADF, [], s)
      | Some f \<Rightarrow> let (r, f') = aesd_release dev_inode f in Some (r, [], s\<lparr>table := (table s)[fd := None]\<rparr>))"
| "driver_op K (Write fd buf count) s = on_file s fd (\<lambda>f k.
     Option.bind (aesd_write K (Some f) buf count k) (\<lambda>(r, k'). Some (r, [], f, k')))"
| "driver_op K (Read fd count) s = on_file s fd (\<lambda>f k.
     Option.bind (aesd_read K (Some f) count (f_pos f) k) (\<lambda>(r, pos, got, k').
       Some (r, got, if r < 0 then f else f\<lparr>f_pos := pos\<rparr>, k')))"
| "driver_op K (Llseek fd off whence) s = on_file s fd (\<lambda>f k.
     let (r, f', k') = aesd_llseek K f off whence k in Some (r, [], f', k'))"
| "driver_op K (Ioctl fd cmd arg) s = on_file s fd (\<lambda>f k.
     let (r, f', k') = aesd_ioctl K f cmd arg k in Some (r, [], f', k'))"

text \<open>
  What the kernel and the callers guarantee: the module is loaded once and, as it owns the table,
  not unloaded under an open file; the bytes of a write are readable; and a write holds at most one
  newline, since the driver is wrong for more.
\<close>

fun allowed :: "'w system \<Rightarrow> op \<Rightarrow> bool" where
  "allowed s Load = (\<not> cdev_live (modul s))"
| "allowed s Unload = (cdev_live (modul s) \<and> list_all (\<lambda>f. f = None) (table s))"
| "allowed s Open = cdev_live (modul s)"
| "allowed s (Write fd buf count) =
     (unat count \<le> length buf \<and> count_list (take (unat count) buf) nl \<le> 1)"
| "allowed s op = True"

text \<open>
  When memory runs out in the middle of a line the driver keeps a dangling working buffer
  (\<open>allocate_memory_dangling\<close>); a run ends there.
\<close>

definition dangling :: "'w system \<Rightarrow> bool" where
  "dangling s \<longleftrightarrow> cdev_live (modul s) \<and> work_dangling (kst (modul s))"

section \<open>Runs\<close>

text \<open>A run from \<open>s0\<close> with what was called, answered and delivered.\<close>

type_synonym event = "op \<times> int \<times> byte list"

inductive driver_run :: "'w kernel \<Rightarrow> 'w system \<Rightarrow> event list \<Rightarrow> 'w system \<Rightarrow> bool" for K s0 where
  start: "driver_run K s0 [] s0"
| step: "driver_run K s0 tr s \<Longrightarrow> allowed s op \<Longrightarrow> \<not> dangling s \<Longrightarrow>
    driver_op K op s = Some (r, got, s') \<Longrightarrow> driver_run K s0 (tr @ [(op, r, got)]) s'"

text \<open>The same, computed from the operations.\<close>

fun run_ops :: "'w kernel \<Rightarrow> op list \<Rightarrow> 'w system \<Rightarrow> (event list \<times> 'w system) option" where
  "run_ops K [] s = Some ([], s)"
| "run_ops K (op # ops) s =
     (if allowed s op \<and> \<not> dangling s
      then Option.bind (driver_op K op s) (\<lambda>(r, got, s').
           Option.bind (run_ops K ops s') (\<lambda>(tr, s''). Some ((op, r, got) # tr, s'')))
      else None)"

lemma run_ops_run:
  "driver_run K s0 tr s \<Longrightarrow> run_ops K ops s = Some (tr', s') \<Longrightarrow> driver_run K s0 (tr @ tr') s'"
proof (induction ops arbitrary: tr tr' s)
  case (Cons op ops)
  then obtain r got s1 tr1 where op: "allowed s op" "\<not> dangling s" "driver_op K op s = Some (r, got, s1)"
    and rest: "run_ops K ops s1 = Some (tr1, s')" and tr': "tr' = (op, r, got) # tr1"
    by (auto split: if_splits bind_splits)
  then show ?case
    using Cons.IH [OF driver_run.step [OF Cons.prems(1) op] rest] by simp
qed simp

text \<open>
  What the answers say about the contents: the bytes accepted since the module was loaded.
\<close>

fun record_event :: "byte list \<Rightarrow> event \<Rightarrow> byte list" where
  "record_event bs (Load, r, got) = []"
| "record_event bs (Unload, r, got) = []"
| "record_event bs (Write fd buf count, r, got) = (if r < 0 then bs else bs @ take (unat count) buf)"
| "record_event bs (op, r, got) = bs"

definition history :: "event list \<Rightarrow> byte list" where
  "history tr = foldl record_event [] tr"

fun out_of_memory :: "event \<Rightarrow> bool" where
  "out_of_memory (Write fd buf count, r, got) = (r = - ENOMEM)"
| "out_of_memory ev = False"

fun unloads :: "event \<Rightarrow> bool" where
  "unloads (Unload, r, got) = True"
| "unloads ev = False"

section \<open>The invariant\<close>

definition good_file :: "file_t \<Rightarrow> bool" where
  "good_file f \<longleftrightarrow> private_data f \<noteq> None \<and> 0 \<le> f_pos f \<and> f_pos f < 2 ^ 63"

text \<open>
  The types of the system: device numbers and \<open>cdev\<close> are registered together, the mutex is free
  between operations, files are open only while the module is loaded and point to the device, with
  a position a \<open>loff_t\<close> can hold.
\<close>

definition well_typed :: "'w system \<Rightarrow> bool" where
  "well_typed s \<longleftrightarrow>
     region (modul s) = cdev_live (modul s) \<and>
     (if cdev_live (modul s) then lock (dev (kst (modul s))) = False
      else list_all (\<lambda>f. f = None) (table s)) \<and>
     list_all (\<lambda>f. case f of None \<Rightarrow> True | Some f \<Rightarrow> good_file f) (table s)"

text \<open>The contents: while the module is loaded, those of its device.\<close>

definition contents :: "'w kernel \<Rightarrow> 'w system \<Rightarrow> byte list list \<Rightarrow> byte list \<Rightarrow> bool" where
  "contents K s lines pend \<longleftrightarrow>
     nl \<notin> set pend \<and>
     (if cdev_live (modul s)
      then dev_rep K (dev (kst (modul s))) (kheap (wld (kst (modul s)))) lines pend
      else lines = [] \<and> pend = [] \<and> kheap (wld (kst (modul s))) NULL = None \<and>
           kheap (wld (kst (modul s))) (ZERO_SIZE_PTR K) = None)"

text \<open>The memory of the rest of the kernel.\<close>

definition foreign :: "'w system \<Rightarrow> heap" where
  "foreign s = (if cdev_live (modul s) then unowned (kst (modul s)) else kheap (wld (kst (modul s))))"

definition booted :: "'w kernel \<Rightarrow> 'w system \<Rightarrow> bool" where
  "booted K s \<longleftrightarrow> kernel_ok K \<and> \<not> cdev_live (modul s) \<and> \<not> region (modul s) \<and> table s = [] \<and>
     kheap (wld (kst (modul s))) NULL = None \<and> kheap (wld (kst (modul s))) (ZERO_SIZE_PTR K) = None"


lemma contents_sound: "contents K s lines pend \<Longrightarrow> \<not> dangling s"
  by (auto simp: contents_def dangling_def work_dangling_def dev_rep_def work_rep_def)

lemma booted_contents: "booted K s \<Longrightarrow> well_typed s \<and> contents K s [] []"
  by (simp add: booted_def well_typed_def contents_def)

text \<open>What an operation leaves, from the contents before it and its answer.\<close>

fun log_after :: "op \<Rightarrow> int \<Rightarrow> byte list list \<times> byte list \<Rightarrow> byte list list \<times> byte list" where
  "log_after Load r st = ([], [])"
| "log_after Unload r st = ([], [])"
| "log_after (Write fd buf count) r (lines, pend) =
     (if r < 0 then (lines, pend) else accept_bytes lines pend (take (unat count) buf))"
| "log_after op r st = st"

definition op_post :: "'w kernel \<Rightarrow> 'w system \<Rightarrow> op \<Rightarrow> byte list list \<Rightarrow> byte list \<Rightarrow> int \<Rightarrow> byte list \<Rightarrow>
    'w system \<Rightarrow> bool" where
  "op_post K s op lines pend r got s' \<longleftrightarrow>
     well_typed s' \<and> (op \<noteq> Unload \<or> pend = [] \<longrightarrow> foreign s' = foreign s) \<and>
     (case log_after op r (lines, pend) of (lines', pend') \<Rightarrow> contents K s' lines' pend' \<or>
        out_of_memory (op, r, got) \<and> (dangling s' \<or> (\<exists>lines' pend'. contents K s' lines' pend')))"

lemma op_postI:
  "well_typed s' \<Longrightarrow> foreign s' = foreign s \<Longrightarrow> contents K s' lines' pend' \<Longrightarrow>
     log_after op r (lines, pend) = (lines', pend') \<Longrightarrow> op_post K s op lines pend r got s'"
  by (simp add: op_post_def)

section \<open>Each operation keeps it\<close>

lemma dev_rep_owned: "dev_rep K d h lines [] \<Longrightarrow> owned d = buffptr ` set (live d)"
  by (auto simp: dev_rep_def owned_def work_rep_def unsigned_eq_0_iff split: if_splits)

lemma file_of_live:
  assumes "well_typed s" and "file_of s fd = Some f"
  shows "cdev_live (modul s)" and "good_file f" and "fd < length (table s)"
proof -
  show fd: "fd < length (table s)" using assms(2) by (simp add: file_of_def split: if_splits)
  then have "table s ! fd = Some f" using assms(2) by (simp add: file_of_def)
  with nth_mem [OF fd] have "Some f \<in> set (table s)" by simp
  then show "cdev_live (modul s)" and "good_file f"
    using assms(1) by (auto simp: well_typed_def list_all_iff split: if_splits)
qed

lemma put_file_system:
  assumes "well_typed s" and "file_of s fd = Some f" and "lock (dev k) = False" and "good_file f'"
  shows "well_typed (put_file s fd f' k)" and "foreign (put_file s fd f' k) = unowned k"
    and "contents K (put_file s fd f' k) lines pend \<longleftrightarrow> nl \<notin> set pend \<and> dev_rep K (dev k) (kheap (wld k)) lines pend"
    and "dangling (put_file s fd f' k) = work_dangling k"
proof -
  note live = file_of_live [OF assms(1,2)]
  show "foreign (put_file s fd f' k) = unowned k"
    and "contents K (put_file s fd f' k) lines pend \<longleftrightarrow> nl \<notin> set pend \<and> dev_rep K (dev k) (kheap (wld k)) lines pend"
    and "dangling (put_file s fd f' k) = work_dangling k"
    using live(1) by (simp_all add: put_file_def foreign_def contents_def dangling_def)
  have "list_all P ((table s)[fd := Some f'])" if "list_all P (table s)" and "P (Some f')" for P
    using that set_update_subset_insert [of "table s" fd "Some f'"] by (auto simp: list_all_iff)
  then show "well_typed (put_file s fd f' k)"
    using assms(1,3,4) live(1) by (simp add: put_file_def well_typed_def)
qed

lemma open_file_view:
  assumes "well_typed s" and "contents K s lines pend" and "file_of s fd = Some f"
  shows "private_data f \<noteq> None" and "0 \<le> f_pos f" and "f_pos f < 2 ^ 63"
    and "lock (dev (kst (modul s))) = False" and "nl \<notin> set pend"
    and "dev_rep K (dev (kst (modul s))) (kheap (wld (kst (modul s)))) lines pend"
    and "foreign s = unowned (kst (modul s))"
  using file_of_live [OF assms(1,3)] assms(1,2)
  by (simp_all add: good_file_def well_typed_def contents_def foreign_def)

text \<open>An operation that changes neither the device nor the heap.\<close>

lemma quiet_post:
  assumes "well_typed s" and "contents K s lines pend" and "file_of s fd = Some f"
    and "dev k = dev (kst (modul s))" and "kheap (wld k) = kheap (wld (kst (modul s)))"
    and "good_file f'" and "log_after op r (lines, pend) = (lines, pend)"
  shows "op_post K s op lines pend r got (put_file s fd f' k)"
proof (rule op_postI [OF _ _ _ assms(7)])
  note view = open_file_view [OF assms(1-3)]
  have "lock (dev k) = False" using view(4) assms(4) by simp
  note sys = put_file_system [OF assms(1,3) this assms(6)]
  show "well_typed (put_file s fd f' k)" by (rule sys)
  show "foreign (put_file s fd f' k) = foreign s"
    using view(7) sys(2) assms(4,5) by (simp add: unowned_def)
  show "contents K (put_file s fd f' k) lines pend"
    using view(5,6) sys(3) assms(4,5) by simp
qed

lemma no_file_post:
  assumes "well_typed s" and "contents K s lines pend" and "r < 0"
    and "\<not> (op = Load \<or> op = Unload)"
  shows "op_post K s op lines pend r got s"
  using assms by (intro op_postI) (cases op; simp)+


lemma open_post:
  assumes wt: "well_typed s" and rep: "contents K s lines pend" and ok: "allowed s Open"
  shows "\<exists>r got s'. driver_op K Open s = Some (r, got, s') \<and> op_post K s Open lines pend r got s'"
proof -
  let ?s = "s\<lparr>table := table s @ [Some \<lparr>private_data = Some Aesd_device, f_pos = 0\<rparr>]\<rparr>"
  have "op_post K s Open lines pend 0 [] ?s"
    using wt rep ok by (intro op_postI) (simp_all add: well_typed_def good_file_def contents_def foreign_def)
  then show ?thesis by (simp add: aesd_open_def dev_inode_def)
qed

lemma release_post:
  assumes wt: "well_typed s" and rep: "contents K s lines pend"
  shows "\<exists>r got s'. driver_op K (Release fd) s = Some (r, got, s') \<and> op_post K s (Release fd) lines pend r got s'"
proof (cases "file_of s fd")
  case None
  then show ?thesis using no_file_post [OF wt rep, of "- EBADF"] by simp
next
  case (Some f)
  let ?s = "s\<lparr>table := (table s)[fd := None]\<rparr>"
  have "list_all P ((table s)[fd := None])" if "list_all P (table s)" and "P None" for P :: "file_t option \<Rightarrow> bool"
    using that set_update_subset_insert [of "table s" fd None] by (auto simp: list_all_iff)
  then have "op_post K s (Release fd) lines pend 0 [] ?s"
    using wt rep by (intro op_postI) (simp_all add: well_typed_def contents_def foreign_def)
  then show ?thesis using Some by (simp add: aesd_release_def)
qed

text \<open>What a read answers, with the position it leaves in the file.\<close>

lemma read_answer:
  assumes K: "kernel_ok K" and wt: "well_typed s" and rep: "contents K s lines pend"
    and opened: "file_of s fd = Some f"
  shows "\<exists>r got f' k. driver_op K (Read fd count) s = Some (r, got, put_file s fd f' k) \<and>
    dev k = dev (kst (modul s)) \<and> kheap (wld k) = kheap (wld (kst (modul s))) \<and> good_file f' \<and>
    (r \<in> {- EINTR, - EFAULT} \<and> f' = f \<or>
     length (concat lines) \<le> nat (f_pos f) \<and> r = 0 \<and> got = [] \<and> f' = f\<lparr>f_pos := 0\<rparr> \<or>
     nat (f_pos f) < length (concat lines) \<and> r = int (read_len lines count (f_pos f)) \<and>
       got = take (nat r) (drop (nat (f_pos f)) (concat lines)) \<and> f' = f\<lparr>f_pos := f_pos f + r\<rparr>)"
proof -
  note view = open_file_view [OF wt rep opened]
  let ?n = "read_len lines count (f_pos f)"
  obtain r pos got k where run: "aesd_read K (Some f) count (f_pos f) (kst (modul s)) = Some (r, pos, got, k)"
    and frame: "read_frame (kst (modul s)) k"
    and r: "r = - EINTR \<or> (if length (concat lines) \<le> nat (f_pos f) then r = 0 \<and> pos = 0 \<and> got = []
      else pos = f_pos f + int ?n \<and> (r = - EFAULT \<or>
        r = int ?n \<and> got = take ?n (drop (nat (f_pos f)) (concat lines))))"
    using aesd_read_run [OF K view(6,1,4,2,3), of count] by blast
  have top: "f_pos f + int ?n < 2 ^ 63" if "nat (f_pos f) < length (concat lines)"
  proof -
    have "f_pos f + int ?n \<le> int (length (concat lines))"
      using that read_len_bound [of lines count "f_pos f"] view(2) by linarith
    also have "\<dots> < 2 ^ 63" using dev_rep_total [OF K view(6)] by simp
    finally show ?thesis .
  qed
  have k: "dev k = dev (kst (modul s))" "kheap (wld k) = kheap (wld (kst (modul s)))"
    using frame view(4) by (simp_all add: read_frame_def)
  let ?f = "if r < 0 then f else f\<lparr>f_pos := pos\<rparr>"
  have "driver_op K (Read fd count) s = Some (r, got, put_file s fd ?f k)"
    using run opened by (simp add: on_file_def)
  moreover have "good_file ?f"
    using r top view(1-3) by (auto simp: good_file_def split: if_splits)
  moreover have "r \<in> {- EINTR, - EFAULT} \<and> ?f = f \<or>
     length (concat lines) \<le> nat (f_pos f) \<and> r = 0 \<and> got = [] \<and> ?f = f\<lparr>f_pos := 0\<rparr> \<or>
     nat (f_pos f) < length (concat lines) \<and> r = int ?n \<and>
       got = take (nat r) (drop (nat (f_pos f)) (concat lines)) \<and> ?f = f\<lparr>f_pos := f_pos f + r\<rparr>"
    using r by (auto split: if_splits)
  ultimately show ?thesis using k by blast
qed

lemma read_post:
  assumes K: "kernel_ok K" and wt: "well_typed s" and rep: "contents K s lines pend"
  shows "\<exists>r got s'. driver_op K (Read fd count) s = Some (r, got, s') \<and>
    op_post K s (Read fd count) lines pend r got s'"
proof (cases "file_of s fd")
  case None
  then show ?thesis using no_file_post [OF wt rep, of "- EBADF"] by (simp add: on_file_def)
next
  case (Some f)
  with read_answer [OF K wt rep, of fd f count] quiet_post [OF wt rep Some] show ?thesis
    by (metis log_after.simps(6))
qed

lemma llseek_post:
  assumes K: "kernel_ok K" and wt: "well_typed s" and rep: "contents K s lines pend"
  shows "\<exists>r got s'. driver_op K (Llseek fd off whence) s = Some (r, got, s') \<and>
      op_post K s (Llseek fd off whence) lines pend r got s'"
proof (cases "file_of s fd")
  case None
  then show ?thesis using no_file_post [OF wt rep, of "- EBADF"] by (simp add: on_file_def)
next
  case (Some f)
  note view = open_file_view [OF wt rep Some]
  obtain r pos k where run: "aesd_llseek K f off whence (kst (modul s)) = (r, f\<lparr>f_pos := pos\<rparr>, k)"
    and k: "dev k = dev (kst (modul s))" "kheap (wld k) = kheap (wld (kst (modul s)))"
    and "pos = f_pos f \<or> 0 \<le> pos \<and> pos \<le> int (length (concat lines))"
    using aesd_llseek_run [OF K view(6,1,4), of off whence] by blast
  then have "good_file (f\<lparr>f_pos := pos\<rparr>)"
    using dev_rep_total [OF K view(6)] view(1-3) by (auto simp: good_file_def)
  then show ?thesis
    using quiet_post [OF wt rep Some k] run Some by (simp add: on_file_def)
qed

lemma ioctl_post:
  assumes K: "kernel_ok K" and wt: "well_typed s" and rep: "contents K s lines pend"
  shows "\<exists>r got s'. driver_op K (Ioctl fd cmd arg) s = Some (r, got, s') \<and>
      op_post K s (Ioctl fd cmd arg) lines pend r got s'"
proof (cases "file_of s fd")
  case None
  then show ?thesis using no_file_post [OF wt rep, of "- EBADF"] by (simp add: on_file_def)
next
  case (Some f)
  note view = open_file_view [OF wt rep Some]
  obtain r pos k where run: "aesd_ioctl K f cmd arg (kst (modul s)) = (r, f\<lparr>f_pos := pos\<rparr>, k)"
    and k: "dev k = dev (kst (modul s))" "kheap (wld k) = kheap (wld (kst (modul s)))"
    and "pos = f_pos f \<or> 0 \<le> pos \<and> pos < 2 ^ 32"
    using aesd_ioctl_run [OF K view(4), of f cmd arg] by blast
  then have "good_file (f\<lparr>f_pos := pos\<rparr>)"
    using view(1-3) by (auto simp: good_file_def)
  then show ?thesis
    using quiet_post [OF wt rep Some k] run Some by (simp add: on_file_def)
qed

lemma write_post:
  assumes K: "kernel_ok K" and wt: "well_typed s" and rep: "contents K s lines pend"
    and ok: "allowed s (Write fd buf count)"
  shows "\<exists>r got s'. driver_op K (Write fd buf count) s = Some (r, got, s') \<and>
    op_post K s (Write fd buf count) lines pend r got s'"
proof (cases "file_of s fd")
  case None
  then show ?thesis using no_file_post [OF wt rep, of "- EBADF"] by (simp add: on_file_def)
next
  case (Some f)
  note view = open_file_view [OF wt rep Some]
  obtain lines' pend' where acc: "accept_bytes lines pend (take (unat count) buf) = (lines', pend')"
    by fastforce
  from aesd_write_run [OF K view(6,5,1,4) _ _ acc] ok obtain r k
    where run: "aesd_write K (Some f) buf count (kst (modul s)) = Some (r, k)"
      and out: "write_outcome K (kst (modul s)) lines pend (take (unat count) buf) (int (unat count)) lines' pend' r k"
    by auto
  have "lock (dev k) = False" and un: "unowned k = unowned (kst (modul s))"
    using out by (simp_all add: write_outcome_def)
  note sys = put_file_system [OF wt Some this(1) file_of_live(2) [OF wt Some]]
  have sys3: "contents K (put_file s fd f k) l p"
    if "nl \<notin> set p" "dev_rep K (dev k) (kheap (wld k)) l p" for l p
    using sys(3) that by simp
  have none: "nl \<notin> set []" by simp
  have "case log_after (Write fd buf count) r (lines, pend) of (lines', pend') \<Rightarrow>
      contents K (put_file s fd f k) lines' pend' \<or>
      r = - ENOMEM \<and> (dangling (put_file s fd f k) \<or>
        (\<exists>lines' pend'. contents K (put_file s fd f k) lines' pend'))"
    using out unfolding write_outcome_def
  proof (elim conjE disjE)
    assume "r = int (unat count)" and "dev_rep K (dev k) (kheap (wld k)) lines' pend'"
    then show ?thesis using acc accept_rest [OF acc] sys3 by simp
  next
    assume "r = - ENOMEM" and "write_aborted K k lines pend (take (unat count) buf)"
    then have "dangling (put_file s fd f k) \<or> (\<exists>lines' pend'. contents K (put_file s fd f k) lines' pend')"
      unfolding write_aborted_def work_lost_def sys(4) using view(5) sys3 sys3 [OF none] by blast
    then show ?thesis using \<open>r = - ENOMEM\<close> by simp
  qed (use view(5) sys3 in simp_all)
  then have "op_post K s (Write fd buf count) lines pend r [] (put_file s fd f k)"
    using sys(1,2) un view(7) by (simp add: op_post_def)
  then show ?thesis using run Some by (simp add: on_file_def)
qed


lemma load_post:
  assumes K: "kernel_ok K" and wt: "well_typed s" and rep: "contents K s lines pend"
    and ok: "allowed s Load"
  shows "\<exists>r got s'. driver_op K Load s = Some (r, got, s') \<and> op_post K s Load lines pend r got s'"
proof -
  obtain r m where run: "aesd_init_module K (modul s) = (r, m)" by fastforce
  have "region (modul s) = False" "cdev_live (modul s) = False"
    "kheap (wld (kst (modul s))) NULL = None" "kheap (wld (kst (modul s))) (ZERO_SIZE_PTR K) = None"
    using wt rep ok by (simp_all add: well_typed_def contents_def)
  note loaded = aesd_init_module_registers [OF K this, unfolded run, simplified]
  let ?s = "s\<lparr>modul := m\<rparr>"
  have "unowned (kst m) = kheap (wld (kst (modul s)))" if "r = 0"
    using loaded that dev_rep_lengths [of K "dev (kst m)" _ "[]" "[]"] dev_rep_owned [of K "dev (kst m)" _ "[]"]
    by (auto simp: unowned_def)
  then have "op_post K s Load lines pend r [] ?s"
    using loaded wt rep ok
    by (intro op_postI) (auto simp: well_typed_def contents_def foreign_def list_all_iff)
  then show ?thesis using run by simp
qed

lemma unload_post:
  assumes K: "kernel_ok K" and wt: "well_typed s" and rep: "contents K s lines pend"
    and ok: "allowed s Unload"
  shows "\<exists>r got s'. driver_op K Unload s = Some (r, got, s') \<and> op_post K s Unload lines pend r got s'"
proof -
  let ?k = "kst (modul s)"
  have live: "cdev_live (modul s)" and none: "list_all (\<lambda>f. f = None) (table s)" using ok by simp_all
  then have dr: "dev_rep K (dev ?k) (kheap (wld ?k)) lines pend" using rep by (simp add: contents_def)
  obtain m where run: "aesd_cleanup_module K (modul s) = Some m" and m: "region m = False" "cdev_live m = False"
    and h: "kheap (wld (kst m)) = kheap (wld ?k) |` (- buffptr ` set (CharDriverRep.live (dev ?k)))"
    using aesd_cleanup_module_leaks_rest [OF K dr] by blast
  let ?s = "s\<lparr>modul := m\<rparr>"
  have "kheap (wld (kst m)) NULL = None" "kheap (wld (kst m)) (ZERO_SIZE_PTR K) = None"
    using dr h by (auto simp: dev_rep_def restrict_map_def)
  then have "contents K ?s [] []" using m by (simp add: contents_def)
  moreover have "well_typed ?s" using m none by (auto simp: well_typed_def list_all_iff)
  moreover have "foreign ?s = foreign s" if "pend = []"
    using dev_rep_owned [of K "dev ?k" _ lines] dr h m live that
    by (simp add: foreign_def unowned_def)
  ultimately have "op_post K s Unload lines pend 0 [] ?s" by (simp add: op_post_def)
  then show ?thesis using run by simp
qed

text \<open>Progress and preservation: every allowed operation returns and keeps the invariant.\<close>

lemma driver_op_post:
  assumes "kernel_ok K" and "well_typed s" and "contents K s lines pend" and "allowed s op"
  shows "\<exists>r got s'. driver_op K op s = Some (r, got, s') \<and> op_post K s op lines pend r got s'"
proof (cases op)
  case Load
  then show ?thesis using load_post [OF assms(1-3)] assms(4) by blast
next
  case Unload
  then show ?thesis using unload_post [OF assms(1-3)] assms(4) by blast
next
  case Open
  then show ?thesis using open_post [OF assms(2,3)] assms(4) by blast
next
  case (Release fd)
  then show ?thesis using release_post [OF assms(2,3)] by blast
next
  case (Write fd buf count)
  then show ?thesis using write_post [OF assms(1-3)] assms(4) by blast
next
  case (Read fd count)
  then show ?thesis using read_post [OF assms(1-3)] by blast
next
  case (Llseek fd off whence)
  then show ?thesis using llseek_post [OF assms(1-3)] by blast
next
  case (Ioctl fd cmd arg)
  then show ?thesis using ioctl_post [OF assms(1-3)] by blast
qed


section \<open>Every run keeps it\<close>

lemma record_event_log:
  "accept_bytes [] [] (record_event bs (op, r, got)) = log_after op r (accept_bytes [] [] bs)"
proof (cases op)
  case (Write fd buf count)
  obtain lines pend where "accept_bytes [] [] bs = (lines, pend)" by fastforce
  with accept_append [OF this, of "take (unat count) buf"] Write show ?thesis by simp
qed (auto simp: accept_none)

lemma history_snoc: "history (tr @ [ev]) = record_event (history tr) ev"
  by (simp add: history_def)

definition run_inv :: "'w kernel \<Rightarrow> 'w system \<Rightarrow> event list \<Rightarrow> 'w system \<Rightarrow> bool" where
  "run_inv K s0 tr s \<longleftrightarrow>
     well_typed s \<and> (list_ex unloads tr \<or> foreign s = foreign s0) \<and>
     (dangling s \<or> (\<exists>lines pend. contents K s lines pend)) \<and>
     (list_ex out_of_memory tr \<or>
        (case accept_bytes [] [] (history tr) of (lines, pend) \<Rightarrow> contents K s lines pend))"

lemma run_inv_step:
  assumes K: "kernel_ok K" and inv: "run_inv K s0 tr s" and ok: "allowed s op" and sound: "\<not> dangling s"
    and op: "driver_op K op s = Some (r, got, s')"
  shows "run_inv K s0 (tr @ [(op, r, got)]) s'"
proof -
  obtain lines pend where acc: "accept_bytes [] [] (history tr) = (lines, pend)" by fastforce
  have wt: "well_typed s" using inv by (simp add: run_inv_def)
  obtain l p where any: "contents K s l p" using inv sound by (auto simp: run_inv_def)
  have post: "op_post K s op l p r got s'" if "contents K s l p" for l p
    using driver_op_post [OF K wt that ok] op by auto
  have wt': "well_typed s'" using post [OF any] by (simp add: op_post_def)
  have some: "dangling s' \<or> (\<exists>lines pend. contents K s' lines pend)"
    using post [OF any] by (auto simp: op_post_def split: prod.splits)
  have "foreign s' = foreign s" if "\<not> unloads (op, r, got)"
    using post [OF any] that by (cases op) (auto simp: op_post_def)
  then have frame: "list_ex unloads (tr @ [(op, r, got)]) \<or> foreign s' = foreign s0"
    using inv by (auto simp: run_inv_def)
  have next_log: "accept_bytes [] [] (history (tr @ [(op, r, got)])) = log_after op r (lines, pend)"
    by (simp add: history_snoc record_event_log acc)
  have "contents K s' l' p'"
    if "\<not> list_ex out_of_memory (tr @ [(op, r, got)])" and "log_after op r (lines, pend) = (l', p')" for l' p'
  proof -
    have "contents K s lines pend" and "\<not> out_of_memory (op, r, got)"
      using inv acc that(1) by (auto simp: run_inv_def)
    with post [OF this(1)] that(2) show ?thesis by (simp add: op_post_def)
  qed
  then show ?thesis
    using wt' some frame next_log by (auto simp: run_inv_def split: prod.splits)
qed

lemma run_inv_run:
  assumes "booted K s0" and "driver_run K s0 tr s"
  shows "run_inv K s0 tr s"
  using assms(2)
proof induction
  case start
  then show ?case
    using booted_contents [OF assms(1)] by (auto simp: run_inv_def history_def accept_none)
next
  case (step tr s op r got s')
  have "kernel_ok K" using assms(1) by (simp add: booted_def)
  from run_inv_step [OF this step.IH step.hyps(2-4)] show ?case .
qed

text \<open>The contents of the device in a run, from the bytes written.\<close>

lemma run_contents:
  assumes "booted K s0" and "driver_run K s0 tr s" and "\<not> list_ex out_of_memory tr"
    and "split_lines (history tr) = (lines, rest)"
  shows "contents K s (last_n 10 lines) rest"
  using run_inv_run [OF assms(1,2)] assms(3,4) by (simp add: run_inv_def accept_bytes_def)

text \<open>What a reader gets in a run.\<close>

lemma reader_sees:
  assumes "booted K s0" and "driver_run K s0 tr s" and "\<not> list_ex out_of_memory tr"
    and "split_lines (history tr) = (lines, rest)" and "file_of s fd = Some f" and "0 < count"
  shows "\<exists>r got s'. driver_op K (Read fd count) s = Some (r, got, s') \<and>
    (r \<in> {- EINTR, - EFAULT} \<and> file_of s' fd = Some f \<or>
     length (concat (last_n 10 lines)) \<le> nat (f_pos f) \<and> r = 0 \<and> got = [] \<and>
       file_of s' fd = Some (f\<lparr>f_pos := 0\<rparr>) \<or>
     0 < r \<and> nat r \<le> unat count \<and> length got = nat r \<and>
       got = take (nat r) (drop (nat (f_pos f)) (concat (last_n 10 lines))) \<and>
       file_of s' fd = Some (f\<lparr>f_pos := f_pos f + r\<rparr>))"
proof -
  have K: "kernel_ok K" using assms(1) by (simp add: booted_def)
  have wt: "well_typed s" using run_inv_run [OF assms(1,2)] by (simp add: run_inv_def)
  let ?lines = "last_n 10 lines"
  have "read_len ?lines count (f_pos f) \<le> length (drop (nat (f_pos f)) (concat ?lines))"
    and "read_len ?lines count (f_pos f) \<le> unat count"
    using read_len_bound read_len_count by simp_all
  moreover have "0 < read_len ?lines count (f_pos f)" if "nat (f_pos f) < length (concat ?lines)"
    by (rule read_len_pos [OF that assms(6)])
  moreover have "file_of (put_file s fd f' k) fd = Some f'" for f' k
    using file_of_live(3) [OF wt assms(5)] by (simp add: file_of_def put_file_def)
  ultimately show ?thesis
    using read_answer [OF K wt run_contents [OF assms(1-4)] assms(5), of count] by fastforce
qed

section \<open>Properties\<close>

text \<open>For the witnesses: a system on the bump allocator before the module is loaded.\<close>

definition boot_system :: "nat system" where
  "boot_system = \<lparr>modul = unloaded, table = []\<rparr>"

lemma boot_system_booted: "booted bump_kernel boot_system"
  by (simp add: booted_def boot_system_def unloaded_def fresh_driver_def bump_kernel_ok)

lemma boot_run: "run_ops bump_kernel ops boot_system = Some (tr, s) \<Longrightarrow> driver_run bump_kernel boot_system tr s"
  using run_ops_run [OF driver_run.start] by fastforce

text \<open>
  C5: disciplined use never gets the driver stuck.  Take a run of whole operations in which every write
  holds at most one newline and has readable bytes, the module is loaded only when it is not and
  unloaded only without open files, and which has not ended in the dangling working buffer that a failed
  \<open>krealloc\<close> of an incomplete line leaves (the write after that uses freed memory,
  \<open>allocate_memory_dangling\<close>).  Then every further operation of this kind returns, one that runs
  out of memory included: no bad pointer is followed, no block is freed twice and no loop runs forever.
  It leaves the mutex free and every open file pointing to the device at a representable position.
  Writes of several newlines are excluded, as the driver is wrong for them
  (\<open>aesd_write_short_second_line\<close>, \<open>aesd_write_long_second_line\<close>).
\<close>

theorem driver_never_stuck:
  assumes "booted K s0" and "driver_run K s0 tr s" and "\<not> dangling s" and "allowed s op"
  shows "\<exists>r got s'. driver_op K op s = Some (r, got, s') \<and> well_typed s'"
proof -
  have "kernel_ok K" using assms(1) by (simp add: booted_def)
  moreover from run_inv_run [OF assms(1,2)] assms(3) obtain lines pend
    where "well_typed s" and "contents K s lines pend" by (auto simp: run_inv_def)
  ultimately show ?thesis
    using driver_op_post [OF _ _ _ assms(4)] by (metis op_post_def)
qed

text \<open>Two processes write parts of a line in turn, then a third reads.\<close>

definition two_writers :: "op list" where
  "two_writers = [Load, Open, Open, Write 0 ''ab'' 2, Write 1 (''c'' @ [nl] @ ''d'') 3, Release 0, Open]"

lemma two_writers_run:
  obtains tr s where "run_ops bump_kernel two_writers boot_system = Some (tr, s)"
    and "\<not> dangling s" and "file_of s 2 = Some dev_file" and "cdev_live (modul s)"
    and "history tr = ''abc'' @ [nl] @ ''d''" and "\<not> list_ex out_of_memory tr" and "\<not> list_ex unloads tr"
proof -
  have "map_option (\<lambda>(tr, s). (\<not> dangling s, file_of s 2 = Some dev_file, cdev_live (modul s),
      history tr = ''abc'' @ [nl] @ ''d'', list_ex out_of_memory tr, list_ex unloads tr))
      (run_ops bump_kernel two_writers boot_system) = Some (True, True, True, True, False, False)"
    by code_simp
  then show ?thesis using that by auto
qed


theorem driver_never_stuck_witness:
  "\<exists>tr s r got s'. run_ops bump_kernel two_writers boot_system = Some (tr, s) \<and>
     driver_op bump_kernel (Write 1 ''e'' 1) s = Some (r, got, s') \<and> well_typed s'"
proof -
  obtain tr s where run: "run_ops bump_kernel two_writers boot_system = Some (tr, s)" and "\<not> dangling s"
    by (rule two_writers_run)
  moreover have "allowed s (Write 1 ''e'' 1)" by simp
  ultimately show ?thesis
    using driver_never_stuck [OF boot_system_booted boot_run [OF run]] by blast
qed

text \<open>
  C6: whoever reads sees the last ten complete lines of what all processes have written.  Take any
  interleaving of whole operations of any number of processes in which every write holds at most one
  newline, no write ran out of memory and the module is loaded only when it is not and unloaded only
  without open files.  A read of at least one byte on any open file then returns, from its own position,
  the next bytes of the last ten complete lines of all writes accepted since the module was loaded, in
  the order they were made, and moves the position past them; at their end it returns 0 and starts
  over; or it is interrupted or faults, and the file stays where it was.
\<close>

theorem readers_see_last_ten_lines:
  assumes "booted K s0" and "driver_run K s0 tr s" and "\<not> list_ex out_of_memory tr"
    and "split_lines (history tr) = (lines, rest)" and "file_of s fd = Some f" and "0 < count"
  shows "\<exists>r got s'. driver_op K (Read fd count) s = Some (r, got, s') \<and>
    (r \<in> {- EINTR, - EFAULT} \<and> file_of s' fd = Some f \<or>
     length (concat (last_n 10 lines)) \<le> nat (f_pos f) \<and> r = 0 \<and> got = [] \<and>
       file_of s' fd = Some (f\<lparr>f_pos := 0\<rparr>) \<or>
     0 < r \<and> nat r \<le> unat count \<and> length got = nat r \<and>
       got = take (nat r) (drop (nat (f_pos f)) (concat (last_n 10 lines))) \<and>
       file_of s' fd = Some (f\<lparr>f_pos := f_pos f + r\<rparr>))"
  by (rule reader_sees [OF assms])

theorem readers_see_last_ten_lines_witness:
  "\<exists>tr s s'. run_ops bump_kernel two_writers boot_system = Some (tr, s) \<and>
     driver_op bump_kernel (Read 2 100) s = Some (4, ''abc'' @ [nl], s')"
proof -
  obtain tr s where run: "run_ops bump_kernel two_writers boot_system = Some (tr, s)"
    and fd: "file_of s 2 = Some dev_file" and hist: "history tr = ''abc'' @ [nl] @ ''d''"
    and mem: "\<not> list_ex out_of_memory tr"
    by (rule two_writers_run)
  have split: "split_lines (history tr) = ([''abc'' @ [nl]], ''d'')"
    using split_lines_first [of "''abc''" "''d''"] hist by (simp add: nl_def split_lines_none)
  have "map_option (\<lambda>(tr, s). map_option fst (driver_op bump_kernel (Read 2 100) s))
      (run_ops bump_kernel two_writers boot_system) = Some (Some 4)"
    by code_simp
  with run obtain got s' where op: "driver_op bump_kernel (Read 2 100) s = Some (4, got, s')" by auto
  have "(0 :: u64) < 100" by simp
  from readers_see_last_ten_lines [OF boot_system_booted boot_run [OF run] mem split fd this]
  have "got = take 4 (concat (last_n 10 [''abc'' @ [nl]]))"
    using op by (auto simp: dev_file_def)
  then show ?thesis using run op by (auto simp: last_n_def)
qed



text \<open>
  C8: unloading undoes everything.  If in a run of whole operations every write held at most one newline,
  no write ran out of memory, the module was loaded once, the last line is complete and no file is open,
  then unloading the module returns and frees every block that the driver has allocated since it was loaded and no other: the
  heap is what it was before the load.  (The working buffer of an incomplete line would be leaked,
  \<open>aesd_cleanup_module_leaks_rest\<close>.)
\<close>

theorem unload_restores_heap:
  assumes "booted K s0" and "driver_run K s0 tr s" and "\<not> list_ex unloads tr"
    and "\<not> list_ex out_of_memory tr" and "split_lines (history tr) = (lines, [])" and "allowed s Unload"
  shows "\<exists>s'. driver_op K Unload s = Some (0, [], s') \<and>
    kheap (wld (kst (modul s'))) = kheap (wld (kst (modul s0)))"
proof -
  have K: "kernel_ok K" and s0: "foreign s0 = kheap (wld (kst (modul s0)))"
    using assms(1) by (simp_all add: booted_def foreign_def)
  have wt: "well_typed s" and same: "foreign s = foreign s0"
    using run_inv_run [OF assms(1,2)] assms(3) by (simp_all add: run_inv_def)
  obtain r got s' where op: "driver_op K Unload s = Some (r, got, s')"
    and post: "op_post K s Unload (last_n 10 lines) [] r got s'"
    using unload_post [OF K wt run_contents [OF assms(1,2,4,5)] assms(6)] by blast
  have "r = 0" "got = []" "\<not> cdev_live (modul s')"
    using op by (auto simp: aesd_cleanup_module_def Let_def split: bind_splits prod.splits)
  moreover have "foreign s' = foreign s" using post by (simp add: op_post_def)
  ultimately show ?thesis
    using op same s0 assms(6) by (auto simp: foreign_def)
qed

theorem unload_restores_heap_witness:
  "\<exists>tr s s'. run_ops bump_kernel [Load, Open, Write 0 (''ab'' @ [nl]) 3, Release 0] boot_system = Some (tr, s) \<and>
     driver_op bump_kernel Unload s = Some (0, [], s') \<and> kheap (wld (kst (modul s'))) = Map.empty"
proof -
  have "map_option (\<lambda>(tr, s). (history tr = ''ab'' @ [nl], list_ex out_of_memory tr, list_ex unloads tr,
      allowed s Unload)) (run_ops bump_kernel [Load, Open, Write 0 (''ab'' @ [nl]) 3, Release 0] boot_system)
      = Some (True, False, False, True)"
    by code_simp
  then obtain tr s
    where run: "run_ops bump_kernel [Load, Open, Write 0 (''ab'' @ [nl]) 3, Release 0] boot_system = Some (tr, s)"
      and hist: "history tr = ''ab'' @ [nl]" and tr: "\<not> list_ex out_of_memory tr" "\<not> list_ex unloads tr"
      and ok: "allowed s Unload"
    by auto
  have "split_lines (history tr) = ([''ab'' @ [nl]], [])"
    using split_lines_first [of "''ab''" "[]"] hist by (simp add: nl_def split_lines_none)
  from unload_restores_heap [OF boot_system_booted boot_run [OF run] tr(2,1) this ok] run show ?thesis
    by (auto simp: boot_system_def unloaded_def fresh_driver_def)
qed

text \<open>
  A reader that another process overtakes loses data.  When ten lines are held and a further line is
  written, the oldest goes, but the positions of open files stay: the next read at a position skips as
  many bytes as that line had.
\<close>

theorem overwrite_skips_bytes:
  assumes "booted K s0" and "driver_run K s0 (tr @ [(Write fd (body @ [nl]) n, r, got)]) s"
    and "\<not> list_ex out_of_memory (tr @ [(Write fd (body @ [nl]) n, r, got)])" and "0 \<le> r"
    and "unat n = length (body @ [nl])" and "nl \<notin> set body"
    and "split_lines (history tr) = (lines, [])" and "10 \<le> length lines"
    and "file_of s fd' = Some f" and "0 < count"
  defines "held \<equiv> last_n 10 lines"
  shows "\<exists>r' got' s'. driver_op K (Read fd' count) s = Some (r', got', s') \<and>
    (r' \<le> 0 \<or> got' = take (nat r') (drop (nat (f_pos f) + length (hd held)) (concat (held @ [body @ [nl]]))))"
proof -
  have "split_lines (history tr @ body @ [nl]) = (lines @ [body @ [nl]], [])"
    using split_lines_append [of "history tr" "body @ [nl]"] split_lines_first [of body "[]"] assms(6,7)
    by (simp add: split_lines_none)
  then have split: "split_lines (history (tr @ [(Write fd (body @ [nl]) n, r, got)])) = (lines @ [body @ [nl]], [])"
    using assms(4,5) by (simp add: history_snoc)
  have len: "length held = 10" using assms(8) by (simp add: held_def last_n_def)
  then have ne: "held \<noteq> []" by auto
  have "last_n 10 (lines @ [body @ [nl]]) = last_n 10 (held @ [body @ [nl]])"
    by (simp add: held_def last_n_last_n_append)
  also have "\<dots> = tl held @ [body @ [nl]]" using len by (simp add: last_n_def drop_Suc)
  finally have new: "last_n 10 (lines @ [body @ [nl]]) = tl held @ [body @ [nl]]" .
  have "concat (held @ [body @ [nl]]) = hd held @ concat (tl held @ [body @ [nl]])"
    using ne by (cases held) simp_all
  then have "drop (nat (f_pos f) + length (hd held)) (concat (held @ [body @ [nl]])) =
      drop (nat (f_pos f)) (concat (tl held @ [body @ [nl]]))" by simp
  with reader_sees [OF assms(1-3) split assms(9,10)] show ?thesis
    unfolding new by force
qed

text \<open>Ten lines, of which the third process has read the first; then an eleventh is written.\<close>

definition overtaken :: "op list" where
  "overtaken = [Load, Open, Open] @ map (\<lambda>c. Write 0 [c, nl] 2) ''abcdefghij'' @ [Read 1 100, Write 0 [CHR ''k'', nl] 2]"

theorem overwrite_skips_bytes_witness:
  "\<exists>tr s s'. run_ops bump_kernel overtaken boot_system = Some (tr, s) \<and>
     driver_op bump_kernel (Read 1 100) s = Some (2, ''c'' @ [nl], s')"
proof -
  let ?ten = "map (\<lambda>c. [c, nl]) ''abcdefghij''" and ?ev = "(Write 0 ([CHR ''k''] @ [nl]) 2, 2, [])"
  have "map_option (\<lambda>(tr, s). (tr = butlast tr @ [?ev], split_lines (history (butlast tr)) = (?ten, []),
      list_ex out_of_memory tr, file_of s 1 = Some \<lparr>private_data = Some Aesd_device, f_pos = 2\<rparr>,
      map_option fst (driver_op bump_kernel (Read 1 100) s)))
      (run_ops bump_kernel overtaken boot_system) = Some (True, True, False, True, Some 2)"
    by code_simp
  then obtain tr s where run: "run_ops bump_kernel overtaken boot_system = Some (tr, s)"
    and tr: "tr = butlast tr @ [?ev]" and split: "split_lines (history (butlast tr)) = (?ten, [])"
    and mem: "\<not> list_ex out_of_memory tr"
    and fd: "file_of s 1 = Some \<lparr>private_data = Some Aesd_device, f_pos = 2\<rparr>"
    and read: "map_option fst (driver_op bump_kernel (Read 1 100) s) = Some 2"
    by fastforce
  from read obtain got s' where op: "driver_op bump_kernel (Read 1 100) s = Some (2, got, s')" by auto
  have count: "unat (2 :: u64) = length ([CHR ''k''] @ [nl])" "nl \<notin> set [CHR ''k'']" "(0 :: u64) < 100"
    "(0 :: int) \<le> 2" "10 \<le> length ?ten" by (simp_all add: nl_def)
  have "driver_run bump_kernel boot_system (butlast tr @ [?ev]) s"
    and "\<not> list_ex out_of_memory (butlast tr @ [?ev])"
    unfolding tr [symmetric] using boot_run [OF run] mem by simp_all
  from overwrite_skips_bytes [OF boot_system_booted this count(4,1,2) split count(5) fd count(3)]
  have "got = take 2 (drop (2 + 2) (concat (?ten @ [[CHR ''k''] @ [nl]])))"
    using op by (auto simp: last_n_def)
  then show ?thesis using run op by simp
qed

end
