(* ===== verification/FileServer.thy ===== *)
theory FileServer
  imports Connection
begin

text \<open>
  \<open>server_thread\<close> of src/server/aesdsocket.c, the connection thread that keeps the log in a file: what
  it relies on, that it always ends with the mutex released and every descriptor closed, and what a
  packet does to the file, the socket and the timestamp queue.
\<close>

section \<open>The world as the thread sees it\<close>

text \<open>
  The log file, each byte with whether this thread wrote it, the offsets of the open descriptors (the
  socket is among them), the bytes that will still arrive and those sent so far, and whether this
  thread holds the mutex.
\<close>

record fview =
  f_log :: "(bool \<times> byte) list"
  f_offs :: "int \<Rightarrow> nat option"
  f_inbox :: "byte list"
  f_sent :: "byte list"
  f_held :: bool

abbreviation mine :: "byte list \<Rightarrow> (bool \<times> byte) list" where
  "mine \<equiv> map (Pair True)"

abbreviation theirs :: "byte list \<Rightarrow> (bool \<times> byte) list" where
  "theirs \<equiv> map (Pair False)"

definition f_bytes :: "fview \<Rightarrow> byte list" where
  "f_bytes v = map snd (f_log v)"

definition write_mine :: "byte list \<Rightarrow> fview \<Rightarrow> fview" where
  "write_mine bs v = v\<lparr>f_log := f_log v @ mine bs\<rparr>"

lemma bytes_written [simp]: "map (snd \<circ> Pair own) bs = bs"
  by (simp add: comp_def)

lemma write_mine_simps [simp]: "f_bytes (write_mine bs v) = f_bytes v @ bs" "f_sent (write_mine bs v) = f_sent v"
  by (simp_all add: write_mine_def f_bytes_def)

definition set_off :: "int \<Rightarrow> nat option \<Rightarrow> fview \<Rightarrow> fview" where
  "set_off fd p v = v\<lparr>f_offs := (f_offs v)(fd := p)\<rparr>"

text \<open>Other threads may append to the file while this one does not hold the mutex.\<close>

definition by_others :: "fview \<Rightarrow> fview \<Rightarrow> bool" where
  "by_others v v' \<longleftrightarrow> (\<exists>bs. v' = v\<lparr>f_log := f_log v @ theirs bs\<rparr>)"

lemma by_others_simps:
  "by_others v v' \<Longrightarrow> f_offs v' = f_offs v \<and> f_inbox v' = f_inbox v \<and> f_sent v' = f_sent v \<and> f_held v' = f_held v"
  by (auto simp: by_others_def)

section \<open>The system calls, as documented\<close>

text \<open>
  During any call the alarm handler may change the timestamp queue; it stays a queue of timestamps (it
  would not if the handler ran within a dequeue from a full queue).  A call that
  fails, other than by \<open>EINTR\<close>, makes the world \<open>failed\<close> and changes nothing else.
\<close>

definition after :: "('w \<Rightarrow> fview) \<Rightarrow> 'w stamped \<Rightarrow> fview \<Rightarrow> bool" where
  "after look s v \<longleftrightarrow> tq_stamps (fst s) \<and> look (snd s) = v"

definition log_open_ok :: "'w stamped sys \<Rightarrow> ('w \<Rightarrow> fview) \<Rightarrow> ('w \<Rightarrow> bool) \<Rightarrow> bool" where
  "log_open_ok S look failed \<longleftrightarrow> (\<forall>s v. after look s v \<longrightarrow> (\<exists>fd s'. open_log S s = Some (fd, s') \<and>
     (fd = -1 \<and> after look s' v \<and> failed (snd s') \<or>
      fd \<noteq> -1 \<and> f_offs v fd = None \<and> after look s' (set_off fd (Some 0) v))))"

definition log_close_ok :: "'w stamped sys \<Rightarrow> ('w \<Rightarrow> fview) \<Rightarrow> ('w \<Rightarrow> bool) \<Rightarrow> bool" where
  "log_close_ok S look failed \<longleftrightarrow> (\<forall>s v fd. after look s v \<longrightarrow> f_offs v fd \<noteq> None \<longrightarrow>
     (\<exists>s' v'. close_fd S fd s = Some s' \<and> after look s' v' \<and> (failed (snd s) \<longrightarrow> failed (snd s')) \<and>
        (if f_held v then v' = set_off fd None v else by_others (set_off fd None v) v')))"

definition write_log_ok :: "'w stamped sys \<Rightarrow> ('w \<Rightarrow> fview) \<Rightarrow> ('w \<Rightarrow> nat) \<Rightarrow> ('w \<Rightarrow> bool) \<Rightarrow> bool" where
  "write_log_ok S look intr failed \<longleftrightarrow> (\<forall>s v fd bs. after look s v \<longrightarrow> f_held v \<longrightarrow> f_offs v fd \<noteq> None \<longrightarrow>
     bs \<noteq> [] \<longrightarrow> length bs < 2 ^ 31 \<longrightarrow> (\<exists>r e s'. write_fd S fd bs s = Some (r, e, s') \<and>
       (r = -1 \<and> after look s' v \<and> (if e = EINTR then intr (snd s') < intr (snd s) else failed (snd s')) \<or>
        0 < r \<and> nat r \<le> length bs \<and> intr (snd s') \<le> intr (snd s) \<and>
          after look s' (set_off fd (Some (length (f_bytes v) + nat r)) (write_mine (take (nat r) bs) v)))))"

definition lseek_ok :: "'w stamped sys \<Rightarrow> ('w \<Rightarrow> fview) \<Rightarrow> bool" where
  "lseek_ok S look \<longleftrightarrow> (\<forall>s v fd. after look s v \<longrightarrow> f_held v \<longrightarrow> f_offs v fd \<noteq> None \<longrightarrow>
     (\<exists>s'. lseek_start S fd s = Some s' \<and> after look s' (set_off fd (Some 0) v)))"

definition read_log_ok :: "'w stamped sys \<Rightarrow> ('w \<Rightarrow> fview) \<Rightarrow> ('w \<Rightarrow> nat) \<Rightarrow> ('w \<Rightarrow> bool) \<Rightarrow> bool" where
  "read_log_ok S look intr failed \<longleftrightarrow> (\<forall>s v fd p n. after look s v \<longrightarrow> f_held v \<longrightarrow> f_offs v fd = Some p \<longrightarrow>
     0 < n \<longrightarrow> n < 2 ^ 31 \<longrightarrow> (\<exists>r e bs s'. read_fd S fd n s = Some (r, e, bs, s') \<and>
       (r = -1 \<and> after look s' v \<and> (if e = EINTR then intr (snd s') < intr (snd s) else failed (snd s')) \<or>
        r = 0 \<and> drop p (f_bytes v) = [] \<and> after look s' v \<or>
        0 < r \<and> r \<le> int n \<and> nat r \<le> length (drop p (f_bytes v)) \<and> bs = take (nat r) (drop p (f_bytes v)) \<and>
          intr (snd s') \<le> intr (snd s) \<and> after look s' (set_off fd (Some (p + nat r)) v))))"

definition sock_send_ok :: "'w stamped sys \<Rightarrow> ('w \<Rightarrow> fview) \<Rightarrow> ('w \<Rightarrow> nat) \<Rightarrow> ('w \<Rightarrow> bool) \<Rightarrow> int \<Rightarrow> bool" where
  "sock_send_ok S look intr failed sock \<longleftrightarrow> (\<forall>s v bs. after look s v \<longrightarrow> f_held v \<longrightarrow> bs \<noteq> [] \<longrightarrow> length bs < 2 ^ 31 \<longrightarrow>
     (\<exists>r e s'. send_sock S sock bs s = Some (r, e, s') \<and>
       (r = -1 \<and> after look s' v \<and> failed (snd s') \<and> (e = EINTR \<longrightarrow> intr (snd s') < intr (snd s)) \<or>
        0 < r \<and> nat r \<le> length bs \<and> intr (snd s') \<le> intr (snd s) \<and>
          after look s' (v\<lparr>f_sent := f_sent v @ take (nat r) bs\<rparr>))))"

definition sock_recv_ok :: "'w stamped sys \<Rightarrow> ('w \<Rightarrow> fview) \<Rightarrow> ('w \<Rightarrow> bool) \<Rightarrow> int \<Rightarrow> bool" where
  "sock_recv_ok S look failed sock \<longleftrightarrow> (\<forall>s v n. after look s v \<longrightarrow> \<not> f_held v \<longrightarrow> 0 < n \<longrightarrow>
     (\<exists>r bs s' v'. recv_sock S sock n s = Some (r, bs, s') \<and> after look s' v' \<and> (failed (snd s) \<longrightarrow> failed (snd s')) \<and>
       (r = -1 \<and> bs = [] \<and> failed (snd s') \<and> by_others v v' \<or>
        r = 0 \<and> bs = [] \<and> f_inbox v = [] \<and> by_others v v' \<or>
        0 < r \<and> r \<le> int n \<and> nat r \<le> length (f_inbox v) \<and> bs = take (nat r) (f_inbox v) \<and>
          by_others (v\<lparr>f_inbox := drop (nat r) (f_inbox v)\<rparr>) v')))"

definition memory_ok :: "'w stamped sys \<Rightarrow> ('w \<Rightarrow> fview) \<Rightarrow> ('w \<Rightarrow> bool) \<Rightarrow> bool" where
  "memory_ok S look failed \<longleftrightarrow> (\<forall>s v n. after look s v \<longrightarrow> \<not> f_held v \<longrightarrow>
     (\<forall>res s'. malloc S n s = (res, s') \<longrightarrow> (\<exists>v'. after look s' v' \<and> by_others v v' \<and>
        (failed (snd s) \<longrightarrow> failed (snd s')) \<and> (case res of None \<Rightarrow> failed (snd s') | Some blk \<Rightarrow> length blk = n))) \<and>
     (\<forall>old res s'. length old \<le> n \<longrightarrow> realloc S old n s = (res, s') \<longrightarrow> (\<exists>v'. after look s' v' \<and> by_others v v' \<and>
        (failed (snd s) \<longrightarrow> failed (snd s')) \<and> (case res of None \<Rightarrow> True | Some blk \<Rightarrow> length blk = n \<and> take (length old) blk = old))))"

text \<open>Only a thread that does not hold the mutex may lock it, only one that does may unlock it.\<close>

definition log_mutex_ok :: "'w stamped sys \<Rightarrow> ('w \<Rightarrow> fview) \<Rightarrow> ('w \<Rightarrow> bool) \<Rightarrow> bool" where
  "log_mutex_ok S look failed \<longleftrightarrow> (\<forall>s v. after look s v \<longrightarrow>
     (\<forall>r s'. \<not> f_held v \<longrightarrow> pthread_mutex_lock S s = (r, s') \<longrightarrow> (\<exists>v'. after look s' v' \<and>
        (r = 0 \<and> by_others (v\<lparr>f_held := True\<rparr>) v' \<or> r \<noteq> 0 \<and> by_others v v' \<and> failed (snd s')))) \<and>
     (\<forall>r s'. f_held v \<longrightarrow> pthread_mutex_unlock S s = (r, s') \<longrightarrow> r = 0 \<and> (failed (snd s) \<longrightarrow> failed (snd s')) \<and>
        (\<exists>v'. after look s' v' \<and> by_others (v\<lparr>f_held := False\<rparr>) v')))"

definition posix :: "'w stamped sys \<Rightarrow> ('w \<Rightarrow> fview) \<Rightarrow> ('w \<Rightarrow> nat) \<Rightarrow> ('w \<Rightarrow> bool) \<Rightarrow> int \<Rightarrow> bool" where
  "posix S look intr failed sock \<longleftrightarrow> log_open_ok S look failed \<and> log_close_ok S look failed \<and>
     write_log_ok S look intr failed \<and> lseek_ok S look \<and> read_log_ok S look intr failed \<and>
     sock_send_ok S look intr failed sock \<and> sock_recv_ok S look failed sock \<and> memory_ok S look failed \<and> log_mutex_ok S look failed"

lemma posixD:
  assumes "posix S look intr failed sock"
  shows "log_open_ok S look failed" "log_close_ok S look failed" "write_log_ok S look intr failed" "lseek_ok S look"
    "read_log_ok S look intr failed" "sock_send_ok S look intr failed sock" "sock_recv_ok S look failed sock"
    "memory_ok S look failed" "log_mutex_ok S look failed"
  using assms by (simp_all add: posix_def)

section \<open>Inside the mutex\<close>

text \<open>From \<open>v\<close>, \<open>add\<close> was appended and \<open>snt\<close> sent, and \<open>fd\<close> is at \<open>p\<close>.\<close>

definition mid :: "fview \<Rightarrow> int \<Rightarrow> nat option \<Rightarrow> byte list \<Rightarrow> byte list \<Rightarrow> fview" where
  "mid v fd p add snt = v\<lparr>f_log := f_log v @ mine add, f_offs := (f_offs v)(fd := p), f_sent := f_sent v @ snt\<rparr>"

lemma mid_simps [simp]: "f_log (mid v fd p add snt) = f_log v @ mine add"
  "f_bytes (mid v fd p add snt) = f_bytes v @ add"
  "f_offs (mid v fd p add snt) = (f_offs v)(fd := p)" "f_sent (mid v fd p add snt) = f_sent v @ snt"
  "f_inbox (mid v fd p add snt) = f_inbox v" "f_held (mid v fd p add snt) = f_held v"
  "set_off fd q (mid v fd p add snt) = mid v fd q add snt"
  by (simp_all add: mid_def set_off_def f_bytes_def)

lemma mid_write [simp]: "set_off fd q (write_mine bs (mid v fd p add snt)) = mid v fd q (add @ bs) snt"
  by (simp add: mid_def set_off_def write_mine_def)

lemma mid_send [simp]: "(mid v fd p add snt)\<lparr>f_sent := f_sent v @ bs\<rparr> = mid v fd p add bs"
  by (simp add: mid_def)

lemma mid_open: "set_off fd (Some p) v = mid v fd (Some p) [] []"
  by (simp add: mid_def set_off_def)

text \<open>The descriptor is open, somewhere in the file.\<close>

definition working :: "('w \<Rightarrow> fview) \<Rightarrow> fview \<Rightarrow> int \<Rightarrow> byte list \<Rightarrow> byte list \<Rightarrow> 'w stamped \<Rightarrow> bool" where
  "working look v fd add snt s \<longleftrightarrow> f_held v \<and> (\<exists>p. after look s (mid v fd (Some p) add snt))"

definition broken :: "('w \<Rightarrow> fview) \<Rightarrow> ('w \<Rightarrow> bool) \<Rightarrow> fview \<Rightarrow> int \<Rightarrow> 'w stamped \<Rightarrow> bool" where
  "broken look failed v fd s \<longleftrightarrow> failed (snd s) \<and> (\<exists>add snt. working look v fd add snt s)"

interpretation log_file: byte_sink
  "\<lambda>s acc. posix S look intr failed sock \<and> working look v fd (add @ acc) snt s" "\<lambda>s. intr (snd s)" "broken look failed v fd"
  "\<lambda>_. True" "write_fd S fd"
  for S look intr failed sock v fd add snt
proof
  fix s acc and bs :: "byte list"
  assume "posix S look intr failed sock \<and> working look v fd (add @ acc) snt s" and bs: "bs \<noteq> []" "length bs < 2 ^ 31"
  then obtain p where P: "posix S look intr failed sock" and held: "f_held v"
    and s: "after look s (mid v fd (Some p) (add @ acc) snt)" by (auto simp: working_def)
  from posixD(3) [OF P, unfolded write_log_ok_def, rule_format, OF s _ _ bs, of fd] held obtain r e s' where
    w: "write_fd S fd bs s = Some (r, e, s')" and
    res: "r = -1 \<and> after look s' (mid v fd (Some p) (add @ acc) snt) \<and> (if e = EINTR then intr (snd s') < intr (snd s) else failed (snd s')) \<or>
      0 < r \<and> nat r \<le> length bs \<and> intr (snd s') \<le> intr (snd s) \<and>
        (\<exists>q. after look s' (mid v fd (Some q) ((add @ acc) @ take (nat r) bs) snt))"
    by (auto, blast)
  then show "\<exists>r e s'. write_fd S fd bs s = Some (r, e, s') \<and>
      (r = -1 \<and> (if e = EINTR then (posix S look intr failed sock \<and> working look v fd (add @ acc) snt s') \<and> intr (snd s') < intr (snd s)
         else broken look failed v fd s') \<or>
       0 < r \<and> nat r \<le> length bs \<and>
         (posix S look intr failed sock \<and> working look v fd (add @ acc @ take (nat r) bs) snt s') \<and> intr (snd s') \<le> intr (snd s))"
    using P held unfolding broken_def working_def append_assoc by (cases "r = -1"; cases "e = EINTR") auto
qed simp


interpretation log_copy: byte_copy
  "\<lambda>s rest. posix S look intr failed sock \<and> f_held v \<and>
     (\<exists>p snt. after look s (mid v fd (Some p) add snt) \<and> rest = drop p (f_bytes v @ add))" "\<lambda>s. intr (snd s)" "broken look failed v fd"
  "read_fd S fd" "\<lambda>s acc. posix S look intr failed sock \<and> working look v fd add acc s" "\<lambda>_. True" "send_sock S sock"
  for S look intr failed sock v fd add
proof
  fix s rest and n :: nat
  assume "posix S look intr failed sock \<and> f_held v \<and>
     (\<exists>p snt. after look s (mid v fd (Some p) add snt) \<and> rest = drop p (f_bytes v @ add))" and n: "0 < n" "n < 2 ^ 31"
  then obtain p snt where P: "posix S look intr failed sock" and held: "f_held v"
    and s: "after look s (mid v fd (Some p) add snt)" and rest: "rest = drop p (f_bytes v @ add)" by blast
  from posixD(5) [OF P, unfolded read_log_ok_def, rule_format, OF s _ _ n, of fd p] held obtain r e bs s' where
    rd: "read_fd S fd n s = Some (r, e, bs, s')" and
    res: "r = -1 \<and> after look s' (mid v fd (Some p) add snt) \<and> (if e = EINTR then intr (snd s') < intr (snd s) else failed (snd s')) \<or>
      r = 0 \<and> rest = [] \<or>
      0 < r \<and> r \<le> int n \<and> nat r \<le> length rest \<and> bs = take (nat r) rest \<and> intr (snd s') \<le> intr (snd s) \<and>
        after look s' (mid v fd (Some (p + nat r)) add snt)"
    unfolding mid_simps rest by force
  have "drop (nat r) rest = drop (p + nat r) (f_bytes v @ add)" by (simp only: rest drop_drop add.commute)
  then show "\<exists>r e bs s'. read_fd S fd n s = Some (r, e, bs, s') \<and>
    (r = -1 \<and> (if e = EINTR then (posix S look intr failed sock \<and> f_held v \<and>
         (\<exists>p snt. after look s' (mid v fd (Some p) add snt) \<and> rest = drop p (f_bytes v @ add))) \<and> intr (snd s') < intr (snd s)
       else broken look failed v fd s') \<or>
     r = 0 \<and> rest = [] \<or>
     0 < r \<and> r \<le> int n \<and> nat r \<le> length rest \<and> bs = take (nat r) rest \<and>
       (posix S look intr failed sock \<and> f_held v \<and>
         (\<exists>p snt. after look s' (mid v fd (Some p) add snt) \<and> drop (nat r) rest = drop p (f_bytes v @ add))) \<and>
       intr (snd s') \<le> intr (snd s))"
    using res
  proof (elim disjE)
    assume "r = -1 \<and> after look s' (mid v fd (Some p) add snt) \<and> (if e = EINTR then intr (snd s') < intr (snd s) else failed (snd s'))"
    then show ?thesis
      using rd P held rest unfolding broken_def working_def by (cases "e = EINTR") (simp, blast, simp, blast)
  qed (use rd P held in blast)+
next
  fix s acc and bs :: "byte list"
  assume "posix S look intr failed sock \<and> working look v fd add acc s" and bs: "bs \<noteq> []" "length bs < 2 ^ 31"
  then obtain p where P: "posix S look intr failed sock" and held: "f_held v"
    and s: "after look s (mid v fd (Some p) add acc)" by (auto simp: working_def)
  from posixD(6) [OF P, unfolded sock_send_ok_def, rule_format, OF s _ bs] held
  show "\<exists>r e s'. send_sock S sock bs s = Some (r, e, s') \<and>
      (r = -1 \<and> (if e = EINTR then (posix S look intr failed sock \<and> working look v fd add acc s') \<and> intr (snd s') < intr (snd s)
         else broken look failed v fd s') \<or>
       0 < r \<and> nat r \<le> length bs \<and>
         (posix S look intr failed sock \<and> working look v fd add (acc @ take (nat r) bs) s') \<and> intr (snd s') \<le> intr (snd s))"
    using P unfolding broken_def working_def by fastforce
next
  fix s acc n r e bs s'
  assume "posix S look intr failed sock \<and> working look v fd add acc s" and n: "0 < n" "n < 2 ^ 31"
    and rd: "read_fd S fd n s = Some (r, e, bs, s')"
  then obtain p where P: "posix S look intr failed sock" and held: "f_held v"
    and s: "after look s (mid v fd (Some p) add acc)" by (auto simp: working_def)
  from posixD(5) [OF P, unfolded read_log_ok_def, rule_format, OF s _ _ n, of fd p] held rd
  show "posix S look intr failed sock \<and> working look v fd add acc s'"
    using P unfolding working_def by auto
next
  fix s rest r e s' and bs :: "byte list"
  assume "posix S look intr failed sock \<and> f_held v \<and>
     (\<exists>p snt. after look s (mid v fd (Some p) add snt) \<and> rest = drop p (f_bytes v @ add))"
    and bs: "bs \<noteq> []" "length bs < 2 ^ 31" and snd_call: "send_sock S sock bs s = Some (r, e, s')"
  then obtain p snt where P: "posix S look intr failed sock" and held: "f_held v"
    and s: "after look s (mid v fd (Some p) add snt)" and rest: "rest = drop p (f_bytes v @ add)" by blast
  from posixD(6) [OF P, unfolded sock_send_ok_def, rule_format, OF s _ bs] held snd_call
  show "posix S look intr failed sock \<and> f_held v \<and>
     (\<exists>p snt. after look s' (mid v fd (Some p) add snt) \<and> rest = drop p (f_bytes v @ add))"
    using P rest by auto
next
  fix s acc e s' and bs :: "byte list"
  assume "posix S look intr failed sock \<and> working look v fd add acc s" and bs: "bs \<noteq> []" "length bs < 2 ^ 31"
    and snd_call: "send_sock S sock bs s = Some (-1, e, s')"
  then obtain p where P: "posix S look intr failed sock" and held: "f_held v"
    and s: "after look s (mid v fd (Some p) add acc)" by (auto simp: working_def)
  from posixD(6) [OF P, unfolded sock_send_ok_def, rule_format, OF s _ bs] held snd_call
  show "broken look failed v fd s'" unfolding broken_def working_def by auto
qed simp_all

definition stamp_or_none :: "byte list \<Rightarrow> bool" where
  "stamp_or_none st \<longleftrightarrow> st = [] \<or> is_timestamp st"

text \<open>The steps of a packet: write it, answer with the whole file, write a timestamp, close.\<close>

lemma packet_written:
  assumes P: "posix S look intr failed sock" and w: "working look v fd [] [] s" and n: "n \<le> length p" "n < 2 ^ 31"
  shows "\<exists>r s'. dump_content (write_fd S fd) p (int n) s = Some (r, s') \<and>
    (r = 0 \<and> working look v fd (take n p) [] s' \<or> r = -1 \<and> broken look failed v fd s')"
  using log_file.dump_content_returns [where S = S and look = look and intr = intr and failed = failed and sock = sock
      and v = v and fd = fd and add = "[]" and snt = "[]" and s = s and acc = "[]" and n = n and string = p] assms by auto

lemma packet_answered:
  assumes P: "posix S look intr failed sock" and s: "working look v fd add [] s"
  shows "\<exists>s1 r s'. lseek_start S fd s = Some s1 \<and>
    echo_file_socket (read_fd S fd) (send_sock S sock) s1 = Some (r, s') \<and>
    (r = 0 \<and> working look v fd add (f_bytes v @ add) s' \<or> r = -1 \<and> broken look failed v fd s')"
proof -
  from s obtain p where held: "f_held v" and a: "after look s (mid v fd (Some p) add [])" by (auto simp: working_def)
  from posixD(4) [OF P, unfolded lseek_ok_def, rule_format, OF a, of fd] held obtain s1 where
    s1: "lseek_start S fd s = Some s1" "after look s1 (mid v fd (Some 0) add [])" by auto
  have src: "posix S look intr failed sock \<and> f_held v \<and>
      (\<exists>p snt. after look s1 (mid v fd (Some p) add snt) \<and> f_bytes v @ add = drop p (f_bytes v @ add))"
    using P held s1(2) by (intro conjI exI [of _ 0]) auto
  have "posix S look intr failed sock \<and> working look v fd add [] s1"
    using P held s1(2) by (auto simp: working_def)
  from log_copy.echo_returns [OF src this] s1(1) show ?thesis by auto
qed

lemma stamp_written:
  assumes P: "posix S look intr failed sock" and w: "working look v fd add snt s"
  shows "\<exists>k s'. write_stamp S fd s = Some (int k, s') \<and>
    ((\<exists>st. stamp_or_none st \<and> working look v fd (add @ st) snt s' \<and> k = length st) \<or> broken look failed v fd s')"
proof -
  obtain q u where s: "s = (q, u)" by fastforce
  obtain r b q1 where de: "dequeue_data_from_circ_buf (replicate 80 NUL) q = (r, b, q1)" by (metis prod_cases3)
  have inv: "tq_stamps q" using w s by (auto simp: working_def after_def)
  show ?thesis
  proof (cases "queue_empty q")
    case True
    then have "write_stamp S fd s = Some (int 0, s)"
      by (simp add: write_stamp_def s dequeue_data)
    moreover have "working look v fd (add @ []) snt s" using w by simp
    moreover have "stamp_or_none []" by (simp add: stamp_or_none_def)
    ultimately show ?thesis by (metis list.size(3))
  next
    case False
    from dequeue_stamps [OF inv False _ de] have r: "r = 0" and inv1: "tq_stamps q1" and len: "length b = 80"
      and "is_timestamp (c_str b)" by auto
    moreover have "take (length (c_str b)) b = c_str b" by (metis c_str_def takeWhile_eq_take)
    ultimately have stamp: "stamp_or_none (take (length (c_str b)) b)" by (simp add: stamp_or_none_def)
    have small: "length (c_str b) \<le> length b" by (simp add: c_str_def length_takeWhile_le)
    have "working look v fd (add @ []) snt (q1, u)" using w s inv1 by (auto simp: working_def after_def)
    with log_file.dump_content_returns [where S = S and look = look and intr = intr and failed = failed and sock = sock
      and v = v and fd = fd and add = add and snt = snt and s = "(q1, u)" and acc = "[]" and n = "length (c_str b)" and string = b]
    obtain k s' where dump: "dump_content (write_fd S fd) b (int (length (c_str b))) (q1, u) = Some (k, s')"
      and res: "k = 0 \<and> working look v fd (add @ take (length (c_str b)) b) snt s' \<or> k = -1 \<and> broken look failed v fd s'"
      using P small len by auto
    have "write_stamp S fd s = Some (if k \<noteq> -1 then int (length (c_str b)) else int 0, s')"
      using de r dump by (simp add: write_stamp_def s)
    then show ?thesis
      using res small stamp by (cases "k = -1") (auto intro!: exI [of _ "take (length (c_str b)) b"])
  qed
qed

lemma log_closed:
  assumes P: "posix S look intr failed sock" and w: "working look v fd add snt s"
  shows "\<exists>s'. close_fd S fd s = Some s' \<and> after look s' (mid v fd None add snt) \<and> (failed (snd s) \<longrightarrow> failed (snd s'))"
proof -
  from w obtain p where held: "f_held v" and a: "after look s (mid v fd (Some p) add snt)" by (auto simp: working_def)
  from posixD(2) [OF P, unfolded log_close_ok_def, rule_format, OF a, of fd] held show ?thesis by auto
qed

section \<open>A packet\<close>

text \<open>
  What a jump out of the packet leaves: a failure, the descriptor still open before
  \<open>close_file_descriptor\<close>, the mutex held before \<open>unlock_mutex\<close>, everything released otherwise.  \<open>offs\<close>
  are the descriptors before the packet.
\<close>

fun gives_up :: "('w \<Rightarrow> fview) \<Rightarrow> ('w \<Rightarrow> bool) \<Rightarrow> (int \<Rightarrow> nat option) \<Rightarrow> label \<Rightarrow> 'w stamped \<Rightarrow> bool" where
  "gives_up look failed offs (Close_file_descriptor fd) s \<longleftrightarrow> failed (snd s) \<and> offs fd = None \<and>
     (\<exists>v p. after look s v \<and> f_held v \<and> f_offs v = offs(fd \<mapsto> p))"
| "gives_up look failed offs Unlock_mutex s \<longleftrightarrow> failed (snd s) \<and> (\<exists>v. after look s v \<and> f_held v \<and> f_offs v = offs)"
| "gives_up look failed offs Free_mem s \<longleftrightarrow> failed (snd s) \<and> (\<exists>v. after look s v \<and> \<not> f_held v \<and> f_offs v = offs)"
| "gives_up look failed offs Free_socket_fd s \<longleftrightarrow> False"

lemma gives_up_failed: "gives_up look failed offs lb s \<Longrightarrow> failed (snd s)"
  by (cases lb) auto

lemma broken_gives_up:
  assumes "broken look failed v fd s" and "f_offs v fd = None"
  shows "gives_up look failed (f_offs v) (Close_file_descriptor fd) s"
proof -
  obtain p add snt where "failed (snd s)" "f_held v" "after look s (mid v fd (Some p) add snt)"
    using assms(1) by (auto simp: broken_def working_def)
  then show ?thesis using assms(2) by (auto intro!: exI [of _ "mid v fd (Some p) add snt"])
qed

text \<open>
  A packet done: others had appended \<open>add\<close> when the mutex was taken; when it is released the thread has
  written the packet and \<open>st\<close>, one timestamp or nothing, and the socket has got the whole file up to the
  packet.
\<close>

definition stored :: "'w stamped sys \<Rightarrow> ('w \<Rightarrow> fview) \<Rightarrow> fview \<Rightarrow> byte list \<Rightarrow> byte list \<Rightarrow> 'w stamped \<Rightarrow> bool" where
  "stored S look v pkt st s' \<longleftrightarrow> (\<exists>add s. pthread_mutex_unlock S s = (0, s') \<and>
     stamp_or_none st \<and> after look s (v\<lparr>f_held := True, f_log := f_log v @ theirs add @ mine (pkt @ st),
       f_sent := f_sent v @ f_bytes v @ add @ pkt\<rparr>))"

definition released :: "('w \<Rightarrow> fview) \<Rightarrow> fview \<Rightarrow> 'w stamped \<Rightarrow> bool" where
  "released look v s \<longleftrightarrow> (\<exists>v'. after look s v' \<and> \<not> f_held v' \<and> f_offs v' = f_offs v \<and> f_inbox v' = f_inbox v)"

lemma packet_unlocked:
  assumes P: "posix S look intr failed sock" and a: "after look s v" "f_held v"
  shows "\<exists>s'. pthread_mutex_unlock S s = (0, s') \<and> (failed (snd s) \<longrightarrow> failed (snd s')) \<and> released look v s'"
proof -
  obtain r s' where u: "pthread_mutex_unlock S s = (r, s')" by (cases "pthread_mutex_unlock S s") simp
  from posixD(9) [OF P, unfolded log_mutex_ok_def, rule_format, OF a(1)] a(2) u obtain v' where
    "r = 0" "failed (snd s) \<longrightarrow> failed (snd s')" "after look s' v'" "by_others (v\<lparr>f_held := False\<rparr>) v'" by blast
  moreover from this(4) have "\<not> f_held v' \<and> f_offs v' = f_offs v \<and> f_inbox v' = f_inbox v"
    by (auto dest: by_others_simps)
  ultimately show ?thesis using u by (auto simp: released_def)
qed


lemma mid_closed: "f_offs v fd = None \<Longrightarrow>
  mid v fd None add snt = v\<lparr>f_log := f_log v @ mine add, f_sent := f_sent v @ snt\<rparr>"
  by (simp add: mid_def fun_upd_idem)

lemma packet_finished:
  assumes P: "posix S look intr failed sock" and w: "working look v fd add snt s" and closed: "f_offs v fd = None"
  shows "\<exists>k s1 s2 s3. write_stamp S fd s = Some (int k, s1) \<and> close_fd S fd s1 = Some s2 \<and>
    pthread_mutex_unlock S s2 = (0, s3) \<and> released look v s3 \<and>
    (failed (snd s3) \<or> (\<exists>st. stamp_or_none st \<and> k = length st \<and>
      after look s2 (v\<lparr>f_log := f_log v @ mine (add @ st), f_sent := f_sent v @ snt\<rparr>)))"
proof -
  obtain k s1 where st: "write_stamp S fd s = Some (int k, s1)"
    and s1: "(\<exists>st. stamp_or_none st \<and> working look v fd (add @ st) snt s1 \<and> k = length st) \<or> broken look failed v fd s1"
    using stamp_written [OF P w] by blast
  then obtain add' snt' where w1: "working look v fd add' snt' s1"
    and k: "(\<exists>st. stamp_or_none st \<and> add' = add @ st \<and> snt' = snt \<and> k = length st) \<or> failed (snd s1)"
    by (auto simp: broken_def)
  from log_closed [OF P w1] obtain s2 where cl: "close_fd S fd s1 = Some s2"
    and s2: "after look s2 (v\<lparr>f_log := f_log v @ mine add', f_sent := f_sent v @ snt'\<rparr>)"
      "failed (snd s1) \<longrightarrow> failed (snd s2)"
    using mid_closed [OF closed] by auto
  have "f_held v" using w by (simp add: working_def)
  then obtain s3 where "pthread_mutex_unlock S s2 = (0, s3)" "failed (snd s2) \<longrightarrow> failed (snd s3)"
    "released look v s3"
    using packet_unlocked [OF P s2(1)] unfolding released_def by (auto, blast)
  then show ?thesis using st cl s2 k by blast
qed

text \<open>The part of a packet after the mutex was taken.\<close>

lemma locked_packet:
  assumes P: "posix S look intr failed sock" and lock: "pthread_mutex_lock S s = (0, s1)"
    and a1: "after look s1 v" and held: "f_held v" and t: "socket_file_descriptor t = sock"
    and b: "buf l = Some b" and n: "nat (start_ptr l) + n \<le> length b" "n < 2 ^ 31"
  defines "pkt \<equiv> take n (drop (nat (start_ptr l)) b)"
  shows "\<exists>lab l' s'. file_packet S t (int n) l s = Some (lab, l', s') \<and>
    (lab = None \<and> (\<exists>k. l' = l\<lparr>start_ptr := int n + int k\<rparr> \<and> released look v s' \<and>
        (failed (snd s') \<or> (\<exists>st s2. pthread_mutex_unlock S s2 = (0, s') \<and> stamp_or_none st \<and> k = length st \<and>
          after look s2 (v\<lparr>f_log := f_log v @ mine (pkt @ st), f_sent := f_sent v @ f_bytes v @ pkt\<rparr>)))) \<or>
     (\<exists>lb. lab = Some lb \<and> l' = l \<and> gives_up look failed (f_offs v) lb s'))"
proof -
  from posixD(1) [OF P, unfolded log_open_ok_def, rule_format, OF a1] obtain fd s2 where
    op: "open_log S s1 = Some (fd, s2)" and
    s2: "fd = -1 \<and> after look s2 v \<and> failed (snd s2) \<or>
      fd \<noteq> -1 \<and> f_offs v fd = None \<and> after look s2 (set_off fd (Some 0) v)" by blast
  show ?thesis
  proof (cases "fd = -1")
    case True
    then show ?thesis using lock op s2 held by (auto simp: file_packet_def)
  next
    case fd: False
    with s2 have closed: "f_offs v fd = None" and w2: "working look v fd [] [] s2"
      using held by (auto simp: working_def mid_open)
    note gives = broken_gives_up [of look failed v fd, OF _ closed]
    have pl: "n \<le> length (drop (nat (start_ptr l)) b)" using n(1) by simp
    from packet_written [OF P w2 pl n(2)] obtain r3 s3 where
      wr: "dump_content (write_fd S fd) (drop (nat (start_ptr l)) b) (int n) s2 = Some (r3, s3)" and
      s3: "r3 = 0 \<and> working look v fd pkt [] s3 \<or> r3 = -1 \<and> broken look failed v fd s3"
      unfolding pkt_def by blast
    note run = file_packet_def lock op fd b wr t
    from s3 show ?thesis
    proof (elim disjE conjE)
      assume r3: "r3 = 0" and "working look v fd pkt [] s3"
      from packet_answered [OF P this(2)] obtain s3' r4 s4 where seek: "lseek_start S fd s3 = Some s3'"
        and echo: "echo_file_socket (read_fd S fd) (send_sock S sock) s3' = Some (r4, s4)"
        and "r4 = 0 \<and> working look v fd pkt (f_bytes v @ pkt) s4 \<or> r4 = -1 \<and> broken look failed v fd s4"
        by blast
      from this(3) show ?thesis
      proof (elim disjE conjE)
        assume r4: "r4 = 0" and "working look v fd pkt (f_bytes v @ pkt) s4"
        from packet_finished [OF P this(2) closed] obtain k s5 s6 s7 where
          "write_stamp S fd s4 = Some (int k, s5)" "close_fd S fd s5 = Some s6"
          and u: "pthread_mutex_unlock S s6 = (0, s7)" and rel: "released look v s7"
          and res: "failed (snd s7) \<or> (\<exists>st. stamp_or_none st \<and> k = length st \<and>
            after look s6 (v\<lparr>f_log := f_log v @ mine (pkt @ st), f_sent := f_sent v @ f_bytes v @ pkt\<rparr>))"
          by (elim exE conjE) (rule that; assumption)
        then have "file_packet S t (int n) l s = Some (None, l\<lparr>start_ptr := int n + int k\<rparr>, s7)"
          using r3 r4 seek echo by (simp add: run)
        then show ?thesis
          using rel res u by (intro exI [of _ None] exI [of _ "l\<lparr>start_ptr := int n + int k\<rparr>"] exI [of _ s7] conjI disjI1) blast+
      qed (use gives [of s4] r3 seek echo in \<open>auto simp: run\<close>)
    qed (use gives [of s3] in \<open>auto simp: run\<close>)
  qed
qed

lemma file_packet_outcome:
  assumes P: "posix S look intr failed sock" and a: "after look s v" "\<not> f_held v" and t: "socket_file_descriptor t = sock"
    and b: "buf l = Some b" and n: "nat (start_ptr l) + n \<le> length b" "n < 2 ^ 31"
  shows "\<exists>lab l' s'. file_packet S t (int n) l s = Some (lab, l', s') \<and>
    (lab = None \<and> (\<exists>k. l' = l\<lparr>start_ptr := int n + int k\<rparr> \<and> released look v s' \<and>
        (failed (snd s') \<or> (\<exists>st. stored S look v (take n (drop (nat (start_ptr l)) b)) st s' \<and> k = length st))) \<or>
     (\<exists>lb. lab = Some lb \<and> l' = l \<and> gives_up look failed (f_offs v) lb s'))"
proof -
  obtain r s1 where lock: "pthread_mutex_lock S s = (r, s1)" by (cases "pthread_mutex_lock S s") simp
  from posixD(9) [OF P, unfolded log_mutex_ok_def, rule_format, OF a(1)] a(2) lock obtain v1 where a1: "after look s1 v1"
    and v1: "r = 0 \<and> by_others (v\<lparr>f_held := True\<rparr>) v1 \<or> r \<noteq> 0 \<and> by_others v v1 \<and> failed (snd s1)" by blast
  show ?thesis
  proof (cases "r = 0")
    case False
    then show ?thesis using lock a1 v1 a(2) by (auto simp: file_packet_def dest: by_others_simps)
  next
    case True
    with v1 have bo: "by_others (v\<lparr>f_held := True\<rparr>) v1" by simp
    then obtain add where eq: "v1 = v\<lparr>f_held := True, f_log := f_log v @ theirs add\<rparr>" by (auto simp: by_others_def)
    note same = by_others_simps [OF bo, simplified]
    have st: "v1\<lparr>f_log := f_log v1 @ mine (pkt @ st), f_sent := f_sent v1 @ f_bytes v1 @ pkt\<rparr> =
        v\<lparr>f_held := True, f_log := f_log v @ theirs add @ mine (pkt @ st),
          f_sent := f_sent v @ f_bytes v @ add @ pkt\<rparr>" for pkt st
      by (simp add: eq f_bytes_def)
    have rel: "released look v1 = released look v" using same by (auto simp: released_def fun_eq_iff)
    from locked_packet [OF P lock [unfolded True] a1 _ t b n] same show ?thesis
      unfolding st rel stored_def by fastforce
  qed
qed


section \<open>The thread\<close>

text \<open>
  Between packets: the mutex is free and the descriptors are those at the start.  \<open>G\<close> is what is known,
  whether or not a call has failed, of the log and of the bytes sent, however much others append.
\<close>

type_synonym file_facts = "bool \<Rightarrow> (bool \<times> byte) list \<Rightarrow> byte list \<Rightarrow> bool"

definition grows :: "file_facts \<Rightarrow> bool" where
  "grows G \<longleftrightarrow> (\<forall>f f' b snt bs. G f b snt \<longrightarrow> (f \<longrightarrow> f') \<longrightarrow> G f' (b @ theirs bs) snt)"

definition at_rest :: "('w \<Rightarrow> fview) \<Rightarrow> ('w \<Rightarrow> bool) \<Rightarrow> (int \<Rightarrow> nat option) \<Rightarrow> file_facts \<times> byte list \<Rightarrow> 'w stamped \<Rightarrow> bool" where
  "at_rest look failed offs gi s \<longleftrightarrow> grows (fst gi) \<and>
     (\<exists>v. after look s v \<and> \<not> f_held v \<and> f_offs v = offs \<and> f_inbox v = snd gi \<and>
        fst gi (failed (snd s)) (f_log v) (f_sent v))"

abbreviation anything :: file_facts where
  "anything \<equiv> \<lambda>f b snt. True"

lemma grows_anything [simp]: "grows anything"
  by (simp add: grows_def)

lemma at_rest_others:
  "after look s' v' \<Longrightarrow> by_others v v' \<Longrightarrow> \<not> f_held v \<Longrightarrow> grows G \<Longrightarrow> G f (f_log v) (f_sent v) \<Longrightarrow>
     (f \<longrightarrow> failed (snd s')) \<Longrightarrow>
     at_rest look failed (f_offs v) (G, f_inbox v) s'"
  by (auto simp: at_rest_def by_others_def grows_def)

lemma at_rest_any: "at_rest look failed offs (G, i) s \<Longrightarrow> at_rest look failed offs (anything, i) s"
  by (auto simp: at_rest_def)

interpretation file_receiver: receiver S
  "\<lambda>s gi. posix S look intr failed sock \<and> at_rest look failed offs gi s"
  "\<lambda>s. failed (snd s) \<and> (\<exists>gi. at_rest look failed offs gi s)" snd "\<lambda>k gi. (fst gi, drop k (snd gi))" sock
  for S look intr failed sock offs
proof
  fix s and n :: nat and gi :: "file_facts \<times> byte list"
  assume "posix S look intr failed sock \<and> at_rest look failed offs gi s" and n: "0 < n"
  then obtain v where P: "posix S look intr failed sock" and a: "after look s v" "\<not> f_held v"
    and v: "f_offs v = offs" "f_inbox v = snd gi" and G: "grows (fst gi)" "fst gi (failed (snd s)) (f_log v) (f_sent v)"
    by (auto simp: at_rest_def)
  from posixD(7) [OF P, unfolded sock_recv_ok_def, rule_format, OF a n] obtain r bs s' v' where
    rc: "recv_sock S sock n s = Some (r, bs, s')" and a': "after look s' v'"
    and bad: "failed (snd s) \<longrightarrow> failed (snd s')" and
    res: "r = -1 \<and> bs = [] \<and> failed (snd s') \<and> by_others v v' \<or> r = 0 \<and> bs = [] \<and> snd gi = [] \<and> by_others v v' \<or>
      0 < r \<and> r \<le> int n \<and> nat r \<le> length (snd gi) \<and> bs = take (nat r) (snd gi) \<and>
        by_others (v\<lparr>f_inbox := drop (nat r) (f_inbox v)\<rparr>) v'"
    unfolding v by blast
  have "at_rest look failed offs gi s'" if "by_others v v'"
    using at_rest_others [where failed = failed, OF a' that a(2) G bad] v by simp
  moreover have "at_rest look failed offs (fst gi, drop (nat r) (snd gi)) s'"
    if "by_others (v\<lparr>f_inbox := drop (nat r) (f_inbox v)\<rparr>) v'"
    using at_rest_others [where failed = failed, OF a' that, of "fst gi" "failed (snd s)"] a(2) G v bad by simp
  ultimately show "\<exists>r bs s'. recv_sock S sock n s = Some (r, bs, s') \<and>
      (r = -1 \<and> bs = [] \<and> (failed (snd s') \<and> (\<exists>gi. at_rest look failed offs gi s')) \<or>
       r = 0 \<and> bs = [] \<and> snd gi = [] \<and> (posix S look intr failed sock \<and> at_rest look failed offs gi s') \<or>
       0 < r \<and> r \<le> int n \<and> nat r \<le> length (snd gi) \<and> bs = take (nat r) (snd gi) \<and>
         (posix S look intr failed sock \<and> at_rest look failed offs (fst gi, drop (nat r) (snd gi)) s'))"
    using rc res P by blast
next
  fix s n res s' and gi :: "file_facts \<times> byte list"
  assume "posix S look intr failed sock \<and> at_rest look failed offs gi s" and m: "malloc S n s = (res, s')"
  then obtain v where P: "posix S look intr failed sock" and a: "after look s v" "\<not> f_held v"
    and v: "f_offs v = offs" "f_inbox v = snd gi" and G: "grows (fst gi)" "fst gi (failed (snd s)) (f_log v) (f_sent v)"
    by (auto simp: at_rest_def)
  from posixD(8) [OF P, unfolded memory_ok_def, rule_format, OF a] m obtain v' where
    "after look s' v'" "by_others v v'" "failed (snd s) \<longrightarrow> failed (snd s')"
    and res: "case res of None \<Rightarrow> failed (snd s') | Some blk \<Rightarrow> length blk = n" by blast
  from this(1-3) have "at_rest look failed offs gi s'"
    using at_rest_others [of look s' v' v "fst gi" "failed (snd s)" failed] a(2) v G by simp
  with res show "case res of None \<Rightarrow> failed (snd s') \<and> (\<exists>gi. at_rest look failed offs gi s')
      | Some blk \<Rightarrow> length blk = n \<and> posix S look intr failed sock \<and> at_rest look failed offs gi s'"
    using P by (auto split: option.splits simp del: split_paired_Ex)
next
  fix s n res s' and gi :: "file_facts \<times> byte list" and old :: "byte list"
  assume "posix S look intr failed sock \<and> at_rest look failed offs gi s" and len: "length old \<le> n"
    and m: "realloc S old n s = (res, s')"
  then obtain v where P: "posix S look intr failed sock" and a: "after look s v" "\<not> f_held v"
    and v: "f_offs v = offs" "f_inbox v = snd gi" and G: "grows (fst gi)" "fst gi (failed (snd s)) (f_log v) (f_sent v)"
    by (auto simp: at_rest_def)
  from posixD(8) [OF P, unfolded memory_ok_def, rule_format, OF a] m len obtain v' where
    "after look s' v'" "by_others v v'" "failed (snd s) \<longrightarrow> failed (snd s')"
    and res: "case res of None \<Rightarrow> True | Some blk \<Rightarrow> length blk = n \<and> take (length old) blk = old" by blast
  from this(1-3) have "at_rest look failed offs gi s'"
    using at_rest_others [of look s' v' v "fst gi" "failed (snd s)" failed] a(2) v G by simp
  with res show "case res of None \<Rightarrow> True | Some blk \<Rightarrow> length blk = n \<and> take (length old) blk = old \<and>
      posix S look intr failed sock \<and> at_rest look failed offs gi s'"
    using P by (auto split: option.splits)
qed (simp_all add: add.commute)

text \<open>Every label leads to the end of the thread, the mutex released and the socket closed.\<close>

lemma free_mem_ends:
  assumes P: "posix S look intr failed sock" and r: "at_rest look failed offs gi s" and t: "socket_file_descriptor t = sock"
    and sock: "offs sock \<noteq> None"
  shows "\<exists>t' s'. free_socket_fd S t l s = Some (t', l, s') \<and> thread_completed t' \<and>
      at_rest look failed (offs(sock := None)) gi s' \<and> (failed (snd s) \<longrightarrow> failed (snd s'))"
    and "buf l \<noteq> None \<Longrightarrow> \<exists>t' l' s'. free_mem S t l s = Some (t', l', s') \<and> thread_completed t' \<and>
      at_rest look failed (offs(sock := None)) gi s' \<and> (failed (snd s) \<longrightarrow> failed (snd s'))"
proof -
  from r obtain v where a: "after look s v" "\<not> f_held v" and v: "f_offs v = offs" "f_inbox v = snd gi"
    and G: "grows (fst gi)" "fst gi (failed (snd s)) (f_log v) (f_sent v)"
    by (auto simp: at_rest_def)
  from posixD(2) [OF P, unfolded log_close_ok_def, rule_format, OF a(1), of sock] sock v a(2) obtain s' v' where
    cl: "close_fd S sock s = Some s'" "after look s' v'" "by_others (set_off sock None v) v'"
      "failed (snd s) \<longrightarrow> failed (snd s')" by auto
  have "at_rest look failed (offs(sock := None)) gi s'"
    using at_rest_others [where failed = failed, OF cl(2,3) _ _ _ cl(4), of "fst gi"] a(2) v G by (simp add: set_off_def)
  with cl(1,4) show 1: "\<exists>t' s'. free_socket_fd S t l s = Some (t', l, s') \<and> thread_completed t' \<and>
      at_rest look failed (offs(sock := None)) gi s' \<and> (failed (snd s) \<longrightarrow> failed (snd s'))" for l
    using t by (auto simp: free_socket_fd_def)
  show "buf l \<noteq> None \<Longrightarrow> \<exists>t' l' s'. free_mem S t l s = Some (t', l', s') \<and> thread_completed t' \<and>
      at_rest look failed (offs(sock := None)) gi s' \<and> (failed (snd s) \<longrightarrow> failed (snd s'))"
    using 1 [of "l\<lparr>buf := None\<rparr>"] by (auto simp: free_mem_def)
qed

lemma unlock_at_rest:
  assumes "posix S look intr failed sock" and "after look s v" and "f_held v"
  shows "at_rest look failed (f_offs v) (anything, f_inbox v) (snd (pthread_mutex_unlock S s)) \<and>
    (failed (snd s) \<longrightarrow> failed (snd (snd (pthread_mutex_unlock S s))))"
  using packet_unlocked [OF assms] by (auto simp: released_def at_rest_def)

text \<open>How the thread ends: the label \<open>free_mem\<close> keeps what is known of the file.\<close>

lemma file_exit_ends:
  assumes P: "posix S look intr failed sock" and t: "socket_file_descriptor t = sock" and sock: "offs sock \<noteq> None"
    and lb: "lb = Free_socket_fd \<or> buf l \<noteq> None"
    and s: "lb \<in> {Free_socket_fd, Free_mem} \<and> at_rest look failed offs gi s \<or> gives_up look failed offs lb s"
  shows "\<exists>t' l' s'. file_exit S lb t l s = Some (t', l', s') \<and> thread_completed t' \<and>
    (\<exists>i. at_rest look failed (offs(sock := None)) (anything, i) s') \<and> (failed (snd s) \<longrightarrow> failed (snd s')) \<and>
    (gives_up look failed offs lb s \<or> at_rest look failed (offs(sock := None)) gi s')"
proof (cases lb)
  note mem = free_mem_ends(2) [where offs = offs and l = l, OF P _ t sock]
  case (Close_file_descriptor fd)
  with s obtain v p where a: "after look s v" "f_held v" and fd: "f_offs v = offs(fd \<mapsto> p)" "offs fd = None"
    and g: "gives_up look failed offs lb s" by auto
  from posixD(2) [OF P, unfolded log_close_ok_def, rule_format, OF a(1), of fd] a(2) fd obtain s1 where
    cl: "close_fd S fd s = Some s1" "failed (snd s) \<longrightarrow> failed (snd s1)" and a1: "after look s1 (set_off fd None v)"
    by auto
  have held: "f_held (set_off fd None v)" and "f_offs (set_off fd None v) = offs"
    using a(2) fd by (simp_all add: set_off_def fun_upd_idem)
  with unlock_at_rest [OF P a1 held] mem [of "(anything, f_inbox (set_off fd None v))"] lb cl g
    Close_file_descriptor show ?thesis by fastforce
next
  case Unlock_mutex
  with s obtain v where a: "after look s v" "f_held v" and "f_offs v = offs" and g: "gives_up look failed offs lb s"
    by auto
  with unlock_at_rest [OF P a] free_mem_ends(2) [where offs = offs and l = l, OF P _ t sock] lb Unlock_mutex
  show ?thesis by fastforce
next
  case Free_mem
  have "\<exists>i. at_rest look failed offs (anything, i) s" if "gives_up look failed offs lb s"
    using that Free_mem by (auto simp: at_rest_def)
  then obtain gi' where r: "at_rest look failed offs gi' s" and gi': "gives_up look failed offs lb s \<or> gi' = gi"
    using s Free_mem by blast
  from free_mem_ends(2) [where offs = offs and l = l, OF P r t sock] lb Free_mem obtain t' l' s'
    where "free_mem S t l s = Some (t', l', s')" "thread_completed t'"
      "at_rest look failed (offs(sock := None)) gi' s'" "failed (snd s) \<longrightarrow> failed (snd s')" by auto
  moreover from this(3) have "\<exists>i. at_rest look failed (offs(sock := None)) (anything, i) s'"
    using at_rest_any by (metis prod.collapse)
  ultimately show ?thesis using Free_mem gi' by auto
next
  case Free_socket_fd
  with s have r: "at_rest look failed offs gi s" by auto
  from free_mem_ends(1) [where offs = offs and l = l, OF P r t sock] obtain t' s'
    where "free_socket_fd S t l s = Some (t', l, s')" "thread_completed t'"
      "at_rest look failed (offs(sock := None)) gi s'" "failed (snd s) \<longrightarrow> failed (snd s')" by auto
  moreover from this(3) have "\<exists>i. at_rest look failed (offs(sock := None)) (anything, i) s'"
    using at_rest_any by (metis prod.collapse)
  ultimately show ?thesis using Free_socket_fd by auto
qed

text \<open>What a packet that is done means for what is known of the file.\<close>

lemma stored_at_rest:
  assumes P: "posix S look intr failed sock" and st: "stored S look v pkt st s'" and G: "grows G"
    and known: "\<And>f add. stamp_or_none st \<Longrightarrow> G f (f_log v @ theirs add @ mine (pkt @ st)) (f_sent v @ f_bytes v @ add @ pkt)"
  shows "at_rest look failed (f_offs v) (G, f_inbox v) s'"
proof -
  obtain add s where u: "pthread_mutex_unlock S s = (0, s')"
    and stamp: "stamp_or_none st"
    and a: "after look s (v\<lparr>f_held := True, f_log := f_log v @ theirs add @ mine (pkt @ st),
       f_sent := f_sent v @ f_bytes v @ add @ pkt\<rparr>)" (is "after look s ?v")
    using st by (auto simp: stored_def)
  have "f_held ?v" by simp
  with posixD(9) [OF P, unfolded log_mutex_ok_def, rule_format, OF a] u obtain v'
    where "after look s' v'" and "by_others (?v\<lparr>f_held := False\<rparr>) v'" by blast
  from at_rest_others [where failed = failed and f = False, OF this _ G] known [OF stamp] show ?thesis by simp
qed

lemma packet_known:
  assumes P: "posix S look intr failed sock" and rest: "at_rest look failed offs (G, i) s"
    and t: "socket_file_descriptor t = sock" and l: "start_ptr l = 0" "buf l = Some b"
    and mem: "take (length pkt) b = pkt" "length pkt \<le> length b" and small: "length pkt < 2 ^ 31"
    and G: "grows G'" "\<And>f b snt. G' True b snt"
    and known: "\<And>f f' b snt add st. G f b snt \<Longrightarrow> stamp_or_none st \<Longrightarrow>
      G' f' (b @ theirs add @ mine (pkt @ st)) (snt @ map snd b @ add @ pkt)"
  shows "\<exists>lab l' s'. file_packet S t (int (length pkt)) l s = Some (lab, l', s') \<and>
    (lab = None \<and> (\<exists>k \<ge> 0. l' = l\<lparr>start_ptr := k\<rparr>) \<and> at_rest look failed offs (G', i) s' \<or>
     (\<exists>lb. lab = Some lb \<and> lb \<noteq> Free_socket_fd \<and> buf l' \<noteq> None \<and> gives_up look failed offs lb s'))"
proof -
  from rest obtain v where a: "after look s v" "\<not> f_held v" and v: "f_offs v = offs" "f_inbox v = i"
    and g: "G (failed (snd s)) (f_log v) (f_sent v)" by (auto simp: at_rest_def)
  have n: "nat (start_ptr l) + length pkt \<le> length b" using l(1) mem(2) by simp
  have pkt: "take (length pkt) (drop (nat (start_ptr l)) b) = pkt" using l(1) mem(1) by simp
  from file_packet_outcome [OF P a t l(2) n small, unfolded pkt v(1)] obtain lab l' s' where
    run: "file_packet S t (int (length pkt)) l s = Some (lab, l', s')" and
    res: "lab = None \<and> (\<exists>k. l' = l\<lparr>start_ptr := int (length pkt) + int k\<rparr>) \<and> released look v s' \<and>
        (failed (snd s') \<or> (\<exists>st. stored S look v pkt st s')) \<or>
      (\<exists>lb. lab = Some lb \<and> l' = l \<and> gives_up look failed offs lb s')"
    by blast
  from res show ?thesis
  proof (elim disjE conjE exE)
    fix k
    assume lab: "lab = None" "l' = l\<lparr>start_ptr := int (length pkt) + int k\<rparr>" and "released look v s'"
      and "failed (snd s')"
    then have "at_rest look failed offs (G', i) s'" using v G by (auto simp: released_def at_rest_def)
    moreover have "0 \<le> int (length pkt) + int k" by simp
    ultimately show ?thesis using run lab by blast
  next
    fix k st
    assume lab: "lab = None" "l' = l\<lparr>start_ptr := int (length pkt) + int k\<rparr>" and "stored S look v pkt st s'"
    from stored_at_rest [OF P this(3) G(1) known [OF g, folded f_bytes_def]] v have "at_rest look failed offs (G', i) s'" by simp
    moreover have "0 \<le> int (length pkt) + int k" by simp
    ultimately show ?thesis using run lab by blast
  next
    fix lb
    assume "lab = Some lb" "l' = l" and g: "gives_up look failed offs lb s'"
    moreover from g have "lb \<noteq> Free_socket_fd" by auto
    ultimately show ?thesis using run l(2) by auto
  qed
qed

lemma file_packet_returns:
  assumes rep: "posix S look intr failed sock \<and> at_rest look failed offs gi s" and b: "buf l = Some b"
    and n: "nat (start_ptr l) + n \<le> length b" "n < 2 ^ 31" and t: "socket_file_descriptor t = sock"
  shows "\<exists>lab l' s'. file_packet S t (int n) l s = Some (lab, l', s') \<and>
    (lab = None \<and> (\<exists>k \<ge> 0. l' = l\<lparr>start_ptr := k\<rparr>) \<and>
       (\<exists>gi'. (posix S look intr failed sock \<and> at_rest look failed offs gi' s') \<and> snd gi' = snd gi) \<or>
     (\<exists>lb. lab = Some lb \<and> lb \<noteq> Free_socket_fd \<and> buf l' \<noteq> None \<and> gives_up look failed offs lb s'))"
proof -
  from rep obtain v where P: "posix S look intr failed sock" and a: "after look s v" "\<not> f_held v"
    and v: "f_offs v = offs" "f_inbox v = snd gi" by (auto simp: at_rest_def)
  from file_packet_outcome [OF P a t b n] obtain lab l' s' where
    run: "file_packet S t (int n) l s = Some (lab, l', s')" and
    res: "lab = None \<and> (\<exists>k. l' = l\<lparr>start_ptr := int n + int k\<rparr>) \<and> released look v s' \<or>
      (\<exists>lb. lab = Some lb \<and> l' = l \<and> gives_up look failed offs lb s')" unfolding v by blast
  from res show ?thesis
  proof (elim disjE conjE exE)
    fix k
    assume "lab = None" "l' = l\<lparr>start_ptr := int n + int k\<rparr>" "released look v s'"
    moreover from this(3) have "at_rest look failed offs (anything, snd gi) s'"
      using v by (simp add: released_def at_rest_def)
    moreover have "0 \<le> int n + int k" "snd (anything, snd gi) = snd gi" by simp_all
    ultimately show ?thesis using run P by blast
  next
    fix lb
    assume "lab = Some lb" "l' = l" and g: "gives_up look failed offs lb s'"
    moreover from g have "lb \<noteq> Free_socket_fd" by auto
    ultimately show ?thesis using run b by auto
  qed
qed

section \<open>Properties\<close>

text \<open>
  C13: as long as \<open>realloc\<close> does not fail (when it does, the buffer is freed twice), \<open>server_thread\<close>
  ends, whatever the client sends, up to 2 ^ 31 bytes, and whichever other call fails: its flag is set,
  it does not hold the mutex, which it unlocks only when it holds it, and every descriptor it opened and
  its socket are closed, each once.  Every call is taken to return, \<open>recv\<close> too, and no alarm to fall
  into a dequeue.
\<close>

theorem server_thread_ends:
  assumes P: "posix S look intr failed sock" and a: "after look s v" and free: "\<not> f_held v" and sock: "f_offs v sock \<noteq> None"
    and t: "curr_state t = Receive_From_Socket" "socket_file_descriptor t = sock"
    and small: "length (f_inbox v) < 2 ^ 31" and re: "\<And>old n s. fst (realloc S old n s) \<noteq> None"
  shows "\<exists>t' l' s' v'. server_thread S t s = Some (t', l', s') \<and> thread_completed t' \<and> after look s' v' \<and>
    \<not> f_held v' \<and> f_offs v' = (f_offs v)(sock := None)"
proof -
  let ?offs = "f_offs v" and ?i = "f_inbox v"
  have rest: "posix S look intr failed sock \<and> at_rest look failed ?offs (anything, ?i) s"
    using P a free by (auto simp: at_rest_def)
  have "length (received t worker_start) + length (snd (anything, ?i)) < 2 ^ 31"
    using small worker_start_inv(2) [OF t(1)] by simp
  from file_receiver.worker_loop_returns [where Q = "gives_up look failed ?offs" and handle = "file_packet S",
      OF _ re rest worker_start_inv(1) [OF t(1)] t(2) this]
  have "\<exists>lb t1 l1 s1. worker_loop (receive_from_socket S) (parse_data (file_packet S)) t worker_start s = Some (lb, t1, l1, s1) \<and>
      socket_file_descriptor t1 = sock \<and> (lb = Free_socket_fd \<or> buf l1 \<noteq> None) \<and>
      (lb \<in> {Free_socket_fd, Free_mem} \<and> ((failed (snd s1) \<and> (\<exists>gi. at_rest look failed ?offs gi s1)) \<or>
         (\<exists>gi. posix S look intr failed sock \<and> at_rest look failed ?offs gi s1)) \<or> lb \<noteq> Free_socket_fd \<and> gives_up look failed ?offs lb s1)"
    using file_packet_returns by blast
  then obtain lb t1 l1 s1 where
    run: "worker_loop (receive_from_socket S) (parse_data (file_packet S)) t worker_start s = Some (lb, t1, l1, s1)"
    and t1: "socket_file_descriptor t1 = sock" and mem: "lb = Free_socket_fd \<or> buf l1 \<noteq> None"
    and "\<exists>gi. lb \<in> {Free_socket_fd, Free_mem} \<and> at_rest look failed ?offs gi s1 \<or> gives_up look failed ?offs lb s1"
    by blast
  then obtain gi where s1: "lb \<in> {Free_socket_fd, Free_mem} \<and> at_rest look failed ?offs gi s1 \<or> gives_up look failed ?offs lb s1"
    by blast
  from file_exit_ends [where offs = ?offs, OF P t1 sock mem s1] run show ?thesis
    by (fastforce simp: server_thread_def at_rest_def)
qed


text \<open>
  A packet is one step for the other threads: unless a call fails, they had appended \<open>add\<close> to the
  file when the thread got the mutex, and the packet and at most one timestamp follow when it unlocks
  it; the client is sent the whole file up to its packet; and \<open>start_ptr\<close> becomes the length of packet
  and timestamp.
\<close>

theorem server_packet_stores:
  assumes P: "posix S look intr failed sock" and a: "after look s v" "\<not> f_held v" and t: "socket_file_descriptor t = sock"
    and b: "buf l = Some b" and n: "nat (start_ptr l) + n \<le> length b" "n < 2 ^ 31"
  shows "\<exists>lab l' s'. file_packet S t (int n) l s = Some (lab, l', s') \<and>
    (failed (snd s') \<or>
     (\<exists>add st s2. lab = None \<and> l' = l\<lparr>start_ptr := int (n + length st)\<rparr> \<and> pthread_mutex_unlock S s2 = (0, s') \<and>
        stamp_or_none st \<and>
        after look s2 (v\<lparr>f_held := True, f_log := f_log v @ theirs add @ mine (take n (drop (nat (start_ptr l)) b) @ st),
          f_sent := f_sent v @ f_bytes v @ add @ take n (drop (nat (start_ptr l)) b)\<rparr>)))"
proof -
  from file_packet_outcome [OF P a t b n] obtain lab l' s' where
    run: "file_packet S t (int n) l s = Some (lab, l', s')" and
    res: "lab = None \<and> (\<exists>k. l' = l\<lparr>start_ptr := int n + int k\<rparr> \<and> released look v s' \<and>
        (failed (snd s') \<or> (\<exists>st. stored S look v (take n (drop (nat (start_ptr l)) b)) st s' \<and> k = length st))) \<or>
      (\<exists>lb. lab = Some lb \<and> l' = l \<and> gives_up look failed (f_offs v) lb s')"
    by (elim exE conjE) (rule that; assumption)
  show ?thesis
  proof (cases "failed (snd s')")
    case True
    then show ?thesis using run by blast
  next
    case False
    with gives_up_failed have "\<not> (\<exists>lb. lab = Some lb \<and> l' = l \<and> gives_up look failed (f_offs v) lb s')" by blast
    with res False obtain k st where lab: "lab = None" and l': "l' = l\<lparr>start_ptr := int n + int k\<rparr>"
      and st: "stored S look v (take n (drop (nat (start_ptr l)) b)) st s'" "k = length st" by blast
    from l' st(2) have "l' = l\<lparr>start_ptr := int (n + length st)\<rparr>" by simp
    with lab st(1) show ?thesis using run unfolding stored_def by blast
  qed
qed

text \<open>
  C14: a client that sends one packet and no more, in whatever pieces it arrives, while other connections
  append to the log; \<open>realloc\<close> does not fail and no alarm falls into a dequeue.  The thread ends, and unless one of its calls failed the mutex is released, its socket closed, and of the
  bytes in the log after the ones at the start the thread has written exactly the packet and then one
  timestamp or nothing (\<open>st\<close>), in one piece; all others, before (\<open>add\<close>) and after (\<open>more\<close>), were
  appended by other connections.  The client has received the whole file up to and with its packet.
\<close>

theorem server_connection_stores_and_answers:
  assumes P: "posix S look intr failed sock" and a: "after look s v" and free: "\<not> f_held v" and sock: "f_offs v sock \<noteq> None"
    and t: "curr_state t = Receive_From_Socket" "socket_file_descriptor t = sock"
    and inbox: "f_inbox v = body @ [nl]" and body: "nl \<notin> set body" and small: "length body < 2 ^ 31 - 1"
    and re: "\<And>old n s. fst (realloc S old n s) \<noteq> None"
  shows "\<exists>t' l' s'. server_thread S t s = Some (t', l', s') \<and> thread_completed t' \<and>
    (failed (snd s') \<or> (\<exists>v' add st more. after look s' v' \<and> \<not> f_held v' \<and> f_offs v' = (f_offs v)(sock := None) \<and>
       f_log v' = f_log v @ theirs add @ mine ((body @ [nl]) @ st) @ theirs more \<and> stamp_or_none st \<and>
       f_sent v' = f_sent v @ f_bytes v @ add @ (body @ [nl])))"
proof -
  let ?offs = "f_offs v" and ?pkt = "body @ [nl]"
  define G where "G = (\<lambda>f :: bool. \<lambda>b snt. (\<exists>add. b = f_log v @ theirs add) \<and> snt = f_sent v)"
  define G' where "G' = (\<lambda>f b snt. f \<or> (\<exists>add st more. b = f_log v @ theirs add @ mine (?pkt @ st) @ theirs more \<and>
      stamp_or_none st \<and> snt = f_sent v @ f_bytes v @ add @ ?pkt))"
  have grows: "grows G" "grows G'"
  proof -
    have "G f' (b @ theirs bs) snt" if G: "G f b snt" for f f' b snt bs
    proof -
      from G obtain add where "b = f_log v @ theirs add" "snt = f_sent v" by (auto simp: G_def)
      then show ?thesis unfolding G_def by (intro conjI exI [of _ "add @ bs"]) simp_all
    qed
    moreover have "G' f' (b @ theirs bs) snt" if G': "G' f b snt" and f: "f \<longrightarrow> f'" for f f' b snt bs
    proof (cases f)
      case False
      with G' obtain add st more where "b = f_log v @ theirs add @ mine (?pkt @ st) @ theirs more"
        "stamp_or_none st" "snt = f_sent v @ f_bytes v @ add @ ?pkt" unfolding G'_def by blast
      then show ?thesis
        unfolding G'_def by (intro disjI2 exI [of _ add] exI [of _ st] exI [of _ "more @ bs"]) simp
    qed (use f in \<open>simp add: G'_def\<close>)
    ultimately show "grows G" "grows G'" unfolding grows_def by blast+
  qed
  have known: "G' f' (b @ theirs add @ mine (?pkt @ st)) (snt @ map snd b @ add @ ?pkt)"
    if "G f b snt" "stamp_or_none st" for f f' b snt add st
  proof -
    from that(1) obtain add0 where "b = f_log v @ theirs add0" "snt = f_sent v" by (auto simp: G_def)
    with that(2) show ?thesis
      unfolding G'_def by (intro disjI2 exI [of _ "add0 @ add"] exI [of _ st] exI [of _ "[]"]) (simp add: f_bytes_def)
  qed
  have rest: "posix S look intr failed sock \<and> at_rest look failed ?offs (G, ?pkt) s"
    using P a free inbox grows by (auto simp: at_rest_def G_def)
  have handler: "\<exists>lab l' s'. file_packet S t (int (length ?pkt)) l s = Some (lab, l', s') \<and>
      (lab = None \<and> (\<exists>k \<ge> 0. l' = l\<lparr>start_ptr := k\<rparr>) \<and>
         (posix S look intr failed sock \<and> at_rest look failed ?offs (G', []) s') \<or>
       (\<exists>lb. lab = Some lb \<and> lb \<noteq> Free_socket_fd \<and> buf l' \<noteq> None \<and> gives_up look failed ?offs lb s'))"
    if "posix S look intr failed sock \<and>
        at_rest look failed ?offs (fst (G, ?pkt), drop (length ?pkt) (snd (G, ?pkt))) s"
      and "socket_file_descriptor t = sock" "start_ptr l = 0" "buf l = Some b" "take (length ?pkt) b = ?pkt"
        "length ?pkt \<le> length b" for t l s b
    using packet_known [where offs = ?offs and i = "[]" and G = G and failed = failed,
        OF P _ that(2-6) _ grows(2) _ known, of s] that(1) P small
    by (simp add: G'_def)
  have "\<exists>lb t1 l1 s1. worker_loop (receive_from_socket S) (parse_data (file_packet S)) t worker_start s
        = Some (lb, t1, l1, s1) \<and>
      socket_file_descriptor t1 = sock \<and> (lb = Free_socket_fd \<or> buf l1 \<noteq> None) \<and>
      (lb = Free_mem \<and> (posix S look intr failed sock \<and> at_rest look failed ?offs (G', []) s1) \<or>
       lb \<in> {Free_socket_fd, Free_mem} \<and> (failed (snd s1) \<and> (\<exists>gi. at_rest look failed ?offs gi s1)) \<or>
       lb \<noteq> Free_socket_fd \<and> gives_up look failed ?offs lb s1)"
    by (rule file_receiver.one_packet [where v = "(G, ?pkt)"]) (use re body rest t handler in auto)
  then obtain lb t1 l1 s1 where
    run: "worker_loop (receive_from_socket S) (parse_data (file_packet S)) t worker_start s = Some (lb, t1, l1, s1)"
    and t1: "socket_file_descriptor t1 = sock" and mem: "lb = Free_socket_fd \<or> buf l1 \<noteq> None"
    and res: "lb = Free_mem \<and> at_rest look failed ?offs (G', []) s1 \<or>
       failed (snd s1) \<and> (\<exists>gi. lb \<in> {Free_socket_fd, Free_mem} \<and> at_rest look failed ?offs gi s1 \<or>
         gives_up look failed ?offs lb s1)"
    using gives_up_failed [of look failed ?offs] by blast
  have "\<exists>gi. (lb \<in> {Free_socket_fd, Free_mem} \<and> at_rest look failed ?offs gi s1 \<or> gives_up look failed ?offs lb s1) \<and>
      (failed (snd s1) \<or> gi = (G', []))"
    using res by blast
  then obtain gi where s1: "lb \<in> {Free_socket_fd, Free_mem} \<and> at_rest look failed ?offs gi s1 \<or> gives_up look failed ?offs lb s1"
    and gi: "failed (snd s1) \<or> gi = (G', [])" by blast
  from file_exit_ends [where offs = ?offs, OF P t1 sock mem s1] obtain t2 l2 s2 where
    exit: "file_exit S lb t1 l1 s1 = Some (t2, l2, s2)" "thread_completed t2" "failed (snd s1) \<longrightarrow> failed (snd s2)"
    and rest2: "gives_up look failed ?offs lb s1 \<or> at_rest look failed (?offs(sock := None)) gi s2"
    by blast
  have "\<exists>v' add st more. after look s2 v' \<and> \<not> f_held v' \<and> f_offs v' = (f_offs v)(sock := None) \<and>
       f_log v' = f_log v @ theirs add @ mine (?pkt @ st) @ theirs more \<and> stamp_or_none st \<and> f_sent v' = f_sent v @ f_bytes v @ add @ ?pkt"
    if ok: "\<not> failed (snd s2)"
  proof -
    have "\<not> failed (snd s1)" using exit(3) ok by blast
    then have "at_rest look failed (?offs(sock := None)) (G', []) s2"
      using gi rest2 gives_up_failed [of look failed ?offs lb s1] by blast
    then show ?thesis using ok by (auto simp: at_rest_def G'_def)
  qed
  then show ?thesis using run exit by (auto simp: server_thread_def)
qed

text \<open>A system with one log file, descriptor 5, on which \<open>recv\<close> gives a line at a time.\<close>

definition one_file :: "(fview \<times> bool) stamped sys" where
  "one_file = \<lparr>
     open_log = (\<lambda>(q, v, f). if f_offs v 5 = None then Some (5, (q, set_off 5 (Some 0) v, f)) else Some (-1, (q, v, True))),
     close_fd = (\<lambda>fd (q, v, f). if f_offs v fd = None then None else Some (q, set_off fd None v, f)),
     write_fd = (\<lambda>fd bs (q, v, f). Some (int (length bs), 0,
        (q, set_off fd (Some (length (f_bytes v) + length bs)) (write_mine bs v), f))),
     read_fd = (\<lambda>fd n (q, v, f). case f_offs v fd of None \<Rightarrow> None
        | Some p \<Rightarrow> let bs = take n (drop p (f_bytes v))
                    in Some (int (length bs), 0, bs, (q, set_off fd (Some (p + length bs)) v, f))),
     lseek_start = (\<lambda>fd (q, v, f). Some (q, set_off fd (Some 0) v, f)),
     ioctl_seekto = (\<lambda>fd c off s. None),
     send_sock = (\<lambda>fd bs (q, v, f). Some (int (length bs), 0, (q, v\<lparr>f_sent := f_sent v @ bs\<rparr>, f))),
     recv_sock = (\<lambda>fd n (q, v, f).
        let bs = take n (take (Suc (length (takeWhile (\<lambda>c. c \<noteq> nl) (f_inbox v)))) (f_inbox v))
        in Some (int (length bs), bs, (q, v\<lparr>f_inbox := drop (length bs) (f_inbox v)\<rparr>, f))),
     malloc = (\<lambda>n s. (Some (replicate n NUL), s)),
     realloc = (\<lambda>old n s. (Some (old @ replicate (n - length old) NUL), s)),
     pthread_mutex_lock = (\<lambda>(q, v, f). (0, (q, v\<lparr>f_held := True\<rparr>, f))),
     pthread_mutex_trylock = (\<lambda>(q, v, f). (0, (q, v\<lparr>f_held := True\<rparr>, f))),
     pthread_mutex_unlock = (\<lambda>(q, v, f). (0, (q, v\<lparr>f_held := False\<rparr>, f)))\<rparr>"

lemma set_off_same: "f_offs v fd = Some p \<Longrightarrow> set_off fd (Some p) v = v"
  by (simp add: set_off_def fun_upd_idem)

lemma by_others_self: "by_others v v"
  unfolding by_others_def by (rule exI [of _ "[]"]) simp

lemma by_others_no_input: "f_inbox v = [] \<Longrightarrow> by_others v (v\<lparr>f_inbox := []\<rparr>)"
  unfolding by_others_def by (rule exI [of _ "[]"]) simp

lemma one_file_simps:
  "open_log one_file (q, v, f) = (if f_offs v 5 = None then Some (5, (q, set_off 5 (Some 0) v, f)) else Some (-1, (q, v, True)))"
  "close_fd one_file fd (q, v, f) = (if f_offs v fd = None then None else Some (q, set_off fd None v, f))"
  "write_fd one_file fd bs (q, v, f) = Some (int (length bs), 0,
     (q, set_off fd (Some (length (f_bytes v) + length bs)) (write_mine bs v), f))"
  "f_offs v fd = Some p \<Longrightarrow> read_fd one_file fd n (q, v, f) =
     Some (int (length (take n (drop p (f_bytes v)))), 0, take n (drop p (f_bytes v)),
       (q, set_off fd (Some (p + length (take n (drop p (f_bytes v))))) v, f))"
  "lseek_start one_file fd (q, v, f) = Some (q, set_off fd (Some 0) v, f)"
  "send_sock one_file fd bs (q, v, f) = Some (int (length bs), 0, (q, v\<lparr>f_sent := f_sent v @ bs\<rparr>, f))"
  "recv_sock one_file fd n (q, v, f) =
     (let bs = take n (take (Suc (length (takeWhile (\<lambda>c. c \<noteq> nl) (f_inbox v)))) (f_inbox v))
      in Some (int (length bs), bs, (q, v\<lparr>f_inbox := drop (length bs) (f_inbox v)\<rparr>, f)))"
  "malloc one_file n (q, v, f) = (Some (replicate n NUL), (q, v, f))"
  "realloc one_file old n (q, v, f) = (Some (old @ replicate (n - length old) NUL), (q, v, f))"
  "pthread_mutex_lock one_file (q, v, f) = (0, (q, v\<lparr>f_held := True\<rparr>, f))"
  "pthread_mutex_unlock one_file (q, v, f) = (0, (q, v\<lparr>f_held := False\<rparr>, f))"
  unfolding one_file_def Let_def by (simp_all only: sys.simps prod.case option.case)

lemma one_file_posix: "posix one_file fst (\<lambda>_. 0) snd 4"
proof -
  have "log_open_ok one_file fst snd"
    unfolding log_open_ok_def after_def
  proof (intro allI impI, goal_cases)
    case (1 s v)
    then obtain q f where "s = (q, v, f)" by (cases s) auto
    with 1 show ?case by (cases "f_offs v 5 = None") (auto simp: one_file_simps)
  qed
  moreover have "log_close_ok one_file fst snd"
    unfolding log_close_ok_def after_def split_paired_All by (simp add: one_file_simps by_others_self)
  moreover have "write_log_ok one_file fst (\<lambda>_. 0) snd"
    unfolding write_log_ok_def after_def split_paired_All by (simp add: one_file_simps)
  moreover have "lseek_ok one_file fst"
    unfolding lseek_ok_def after_def split_paired_All by (simp add: one_file_simps)
  moreover have "sock_send_ok one_file fst (\<lambda>_. 0) snd 4"
    unfolding sock_send_ok_def after_def split_paired_All by (simp add: one_file_simps)
  moreover have "memory_ok one_file fst snd"
    unfolding memory_ok_def after_def by (clarsimp simp: one_file_simps) (use by_others_self in blast)
  moreover have "log_mutex_ok one_file fst snd"
    unfolding log_mutex_ok_def after_def split_paired_All by (simp add: one_file_simps by_others_self)
  moreover have "read_log_ok one_file fst (\<lambda>_. 0) snd"
    unfolding read_log_ok_def after_def
  proof (intro allI impI, goal_cases)
    case (1 s v fd p n)
    then obtain q f where s: "s = (q, v, f)" by (cases s) auto
    let ?bs = "take n (drop p (f_bytes v))"
    have rd: "read_fd one_file fd n s = Some (int (length ?bs), 0, ?bs, (q, set_off fd (Some (p + length ?bs)) v, f))"
      unfolding s using 1 by (intro one_file_simps) simp
    have q: "tq_stamps q" using 1 s by simp
    show ?case
    proof (cases "drop p (f_bytes v) = []")
      case True
      then have bs: "?bs = []" by simp
      have "read_fd one_file fd n s = Some (0, 0, [], (q, v, f))"
        using rd unfolding bs list.size add_0_right set_off_same [OF 1(3)] by simp
      then show ?thesis using q True
        by auto
    next
      case False
      then have "0 < int (length ?bs)" using 1(4) by simp
      moreover have "int (length ?bs) \<le> int n \<and> nat (int (length ?bs)) \<le> length (drop p (f_bytes v)) \<and>
          ?bs = take (nat (int (length ?bs))) (drop p (f_bytes v))" by (auto simp: min_def)
      ultimately show ?thesis using rd q by auto
    qed
  qed
  moreover have "sock_recv_ok one_file fst snd 4"
    unfolding sock_recv_ok_def after_def
  proof (intro allI impI, goal_cases)
    case (1 s v n)
    then obtain q f where "s = (q, v, f)" by (cases s) auto
    with 1 show ?case
      by (cases "f_inbox v = []") (auto simp: one_file_simps by_others_self by_others_no_input Let_def min_def intro: nth_equalityI)
  qed
  ultimately show ?thesis by (simp add: posix_def)
qed


text \<open>A connection that sends \<open>i\<close>, on an empty log, with the timestamps \<open>stamps\<close> waiting.\<close>

definition file_client :: worker_thread_t where
  "file_client = \<lparr>thread_id = 1, thread_completed = False, curr_state = Receive_From_Socket,
     socket_file_descriptor = 4, ip_addr = ''127.0.0.1''\<rparr>"

definition sending :: "byte list \<Rightarrow> fview" where
  "sending i = \<lparr>f_log = [], f_offs = [4 \<mapsto> 0], f_inbox = i, f_sent = [], f_held = False\<rparr>"

fun stamps_waiting :: "byte list list \<Rightarrow> circular_buf_metadata_t" where
  "stamps_waiting [] = initialize_circular_buf static_queue"
| "stamps_waiting (x # xs) = snd (tq_enq (stamps_waiting xs) x)"

lemma sending_simps: "after fst (stamps_waiting [], sending i, False) (sending i)" "\<not> f_held (sending i)"
  "f_offs (sending i) 4 \<noteq> None" "f_inbox (sending i) = i"
  by (simp_all add: after_def sending_def initial_queue initial_stamps)

lemma file_client_simps: "curr_state file_client = Receive_From_Socket" "socket_file_descriptor file_client = 4"
  by (simp_all add: file_client_def)

theorem server_thread_ends_witness:
  "\<exists>t' l' s' v'. server_thread one_file file_client (stamps_waiting [], sending ''ab'', False) = Some (t', l', s') \<and>
    thread_completed t' \<and> after fst s' v' \<and> \<not> f_held v' \<and> f_offs v' = Map.empty"
proof -
  have re: "fst (realloc one_file old n s) \<noteq> None" for old n s by (cases s) (simp add: one_file_simps)
  have "(f_offs (sending ''ab''))(4 := None) = Map.empty" by (simp add: sending_def)
  with server_thread_ends [OF one_file_posix sending_simps(1-3) file_client_simps _ re, of "''ab''"]
  show ?thesis by (simp add: sending_simps)
qed

text \<open>The queue after one alarm.\<close>

definition at_eight :: tm where
  "at_eight = \<lparr>tm_year = 122, tm_mon = 9, tm_mday = 11, tm_hour = 8, tm_min = 5, tm_sec = 0\<rparr>"

definition one_alarm :: circular_buf_metadata_t where
  "one_alarm = (case alarmhandler at_eight (initialize_circular_buf static_queue) of Some q \<Rightarrow> q | None \<Rightarrow> static_queue)"

lemma one_alarm_stamps: "tq_stamps one_alarm"
proof -
  have "tm_valid at_eight" by (simp add: tm_valid_def at_eight_def)
  with alarmhandler_enqueues [OF initial_queue(1) this] alarmhandler_stamps [OF initial_stamps this]
  show ?thesis by (auto simp: one_alarm_def)
qed

theorem server_connection_stores_and_answers_witness:
  "\<exists>t' l' q v'. server_thread one_file file_client (one_alarm, sending (''ab'' @ [nl]), False) = Some (t', l', (q, v', False)) \<and>
    f_log v' = mine ((''ab'' @ [nl]) @ ''timestamp: 2022/10/11 - 08:05:00'' @ [nl]) \<and> f_sent v' = ''ab'' @ [nl]"
proof -
  have re: "fst (realloc one_file old n s) \<noteq> None" for old n s by (cases s) (simp add: one_file_simps)
  have run: "map_option (\<lambda>(t, l, q, v, f). (f, f_log v))
      (server_thread one_file file_client (one_alarm, sending (''ab'' @ [nl]), False)) =
      Some (False, mine ((''ab'' @ [nl]) @ ''timestamp: 2022/10/11 - 08:05:00'' @ [nl]))"
    by code_simp
  have small: "length ''ab'' < 2 ^ 31 - 1" by simp
  have "nl \<notin> set ''ab''" by (simp add: nl_def)
  have "after fst (one_alarm, sending (''ab'' @ [nl]), False) (sending (''ab'' @ [nl]))"
    by (simp add: after_def one_alarm_stamps)
  from server_connection_stores_and_answers [OF one_file_posix this sending_simps(2,3) file_client_simps sending_simps(4)
      \<open>nl \<notin> set ''ab''\<close> small re] obtain t' l' s' where
    srv: "server_thread one_file file_client (one_alarm, sending (''ab'' @ [nl]), False) = Some (t', l', s')"
    and res: "snd (snd s') \<or> (\<exists>v' add st more. after fst s' v' \<and> \<not> f_held v' \<and>
       f_offs v' = (f_offs (sending (''ab'' @ [nl])))(4 := None) \<and>
       f_log v' = f_log (sending (''ab'' @ [nl])) @ theirs add @ mine ((''ab'' @ [nl]) @ st) @ theirs more \<and> stamp_or_none st \<and>
       f_sent v' = f_sent (sending (''ab'' @ [nl])) @ f_bytes (sending (''ab'' @ [nl])) @ add @ (''ab'' @ [nl]))"
    by (elim exE conjE) (rule that; assumption)
  obtain q v' f where s': "s' = (q, v', f)" by (metis prod_cases3)
  with run srv have ok: "f = False"
    "f_log v' = mine ((''ab'' @ [nl]) @ ''timestamp: 2022/10/11 - 08:05:00'' @ [nl])" by auto
  with res s' obtain add st more where "f_log v' = theirs add @ mine ((''ab'' @ [nl]) @ st) @ theirs more"
    and snt: "f_sent v' = add @ ''ab'' @ [nl]"
    by (auto simp: after_def sending_def f_bytes_def)
  moreover from this(1) ok(2) have "add = []" by (cases add) auto
  ultimately show ?thesis using srv s' ok by auto
qed

definition got_line :: worker_locals where
  "got_line = \<lparr>num_bytes_read = 3, start_ptr = 0, buf_len = 0, buf_cap = 4, buf = Some (''ab'' @ [nl, NUL])\<rparr>"

theorem server_packet_stores_witness:
  "\<exists>lab l' s'. file_packet one_file file_client (int 3) got_line (stamps_waiting [], sending [], False) = Some (lab, l', s') \<and>
    (snd (snd s') \<or> (\<exists>B st s2. f_bytes (fst (snd s2)) = B @ (''ab'' @ [nl]) @ st \<and>
       pthread_mutex_unlock one_file s2 = (0, s')))"
proof -
  have b: "buf got_line = Some (''ab'' @ [nl, NUL])" "nat (start_ptr got_line) + 3 \<le> length (''ab'' @ [nl, NUL])"
    "take 3 (drop (nat (start_ptr got_line)) (''ab'' @ [nl, NUL])) = ''ab'' @ [nl]" "(3 :: nat) < 2 ^ 31"
    by (simp_all add: got_line_def)
  have bytes: "f_bytes (fst (snd s2)) = B @ (''ab'' @ [nl]) @ st"
    if "after fst s2 ((sending [])\<lparr>f_held := True,
      f_log := f_log (sending []) @ theirs B @ mine ((''ab'' @ [nl]) @ st), f_sent := x\<rparr>)" for s2 B st x
    using that by (simp add: after_def sending_def f_bytes_def)
  from server_packet_stores [OF one_file_posix sending_simps(1,2) file_client_simps(2) b(1,2,4), of "[]", unfolded b(3)]
  show ?thesis
    by (elim exE conjE disjE) (intro exI conjI, assumption, rule disjI1, assumption,
      intro exI conjI, assumption, intro disjI2 exI conjI, rule bytes, assumption, assumption)
qed

text \<open>
  A timestamp written after a packet shifts \<open>start_ptr\<close> although it never was in the buffer: the
  client's next packet is then looked for too far to the right.  Here the client sends \<open>a\<close> and \<open>b\<close> as
  lines of their own; with a timestamp waiting, the second is neither stored nor answered.
\<close>

theorem stamp_hides_next_packet:
  "map_option (\<lambda>(t, l, q, v, f). (f_bytes v, f_sent v))
     (server_thread one_file file_client (stamps_waiting [], sending (''a'' @ [nl] @ ''b'' @ [nl]), False))
     = Some (''a'' @ [nl] @ ''b'' @ [nl], (''a'' @ [nl]) @ (''a'' @ [nl] @ ''b'' @ [nl])) \<and>
   map_option (\<lambda>(t, l, q, v, f). (f_bytes v, f_sent v))
     (server_thread one_file file_client (stamps_waiting [''time'' @ [nl]], sending (''a'' @ [nl] @ ''b'' @ [nl]), False))
     = Some (''a'' @ [nl] @ ''time'' @ [nl], ''a'' @ [nl])"
  by code_simp

end
