(* ===== verification/SinglyLinked.thy ===== *)
theory SinglyLinked
  imports Links "HOL-Library.Monad_Syntax"
begin

text \<open>
  The singly linked lists of src/server/queue.h (\<open>SLIST\<close>), which the server does not use: a head with a
  forward pointer, nodes with a forward pointer.  Removal of a node in the middle and concatenation walk
  along the list.  All operations are proved to be the operations on lists of nodes.
\<close>

section \<open>Structures\<close>

record 'n slist_head =
  slh_first :: "'n option"

record 'n slist_entry =
  sle_next :: "'n option"

type_synonym ('h, 'n) slist = "('h, 'n, 'n slist_head, 'n slist_entry) links"

definition SLIST_HEAD_INITIALIZER :: "'n slist_head" where
  "SLIST_HEAD_INITIALIZER = \<lparr>slh_first = None\<rparr>"

definition slist_load :: "('h, 'n) slist \<Rightarrow> ('h, 'n) loc \<Rightarrow> 'n option option" where
  "slist_load = load_link slh_first sle_next"

definition slist_store :: "('h, 'n) loc \<Rightarrow> 'n option \<Rightarrow> ('h, 'n) slist \<Rightarrow> ('h, 'n) slist option" where
  "slist_store = store_link slh_first_update sle_next_update"

section \<open>Operations\<close>

definition SLIST_EMPTY :: "'h \<Rightarrow> ('h, 'n) slist \<Rightarrow> bool" where
  "SLIST_EMPTY h m \<longleftrightarrow> slh_first (heads m h) = None"

definition SLIST_FIRST :: "'h \<Rightarrow> ('h, 'n) slist \<Rightarrow> 'n option" where
  "SLIST_FIRST h m = slh_first (heads m h)"

definition SLIST_NEXT :: "'n \<Rightarrow> ('h, 'n) slist \<Rightarrow> 'n option option" where
  "SLIST_NEXT elm m = map_option sle_next (field m elm)"

definition SLIST_INIT :: "'h \<Rightarrow> ('h, 'n) slist \<Rightarrow> ('h, 'n) slist" where
  "SLIST_INIT h m = m\<lparr>heads := (heads m)(h := (heads m h)\<lparr>slh_first := None\<rparr>)\<rparr>"

definition SLIST_CONCAT :: "'h \<Rightarrow> 'h \<Rightarrow> ('h, 'n) slist \<Rightarrow> ('h, 'n) slist option" where
  "SLIST_CONCAT head1 head2 m =
     (case SLIST_FIRST head1 m of
        None \<Rightarrow> do {
          m1 \<leftarrow> slist_store (First head1) (SLIST_FIRST head2 m) m;
          Some (if SLIST_FIRST head1 m1 \<noteq> None then SLIST_INIT head2 m1 else m1)
        }
      | Some curelm \<Rightarrow>
          if SLIST_FIRST head2 m \<noteq> None
          then do {
            curelm \<leftarrow> walk_to_last (slist_load m) curelm;
            m1 \<leftarrow> slist_store (Next curelm) (SLIST_FIRST head2 m) m;
            Some (SLIST_INIT head2 m1)
          }
          else Some m)"

definition SLIST_INSERT_AFTER :: "'n \<Rightarrow> 'n \<Rightarrow> ('h, 'n) slist \<Rightarrow> ('h, 'n) slist option" where
  "SLIST_INSERT_AFTER slistelm elm m = do {
     v \<leftarrow> SLIST_NEXT slistelm m;
     m1 \<leftarrow> slist_store (Next elm) v m;
     slist_store (Next slistelm) (Some elm) m1
   }"

definition SLIST_INSERT_HEAD :: "'h \<Rightarrow> 'n \<Rightarrow> ('h, 'n) slist \<Rightarrow> ('h, 'n) slist option" where
  "SLIST_INSERT_HEAD h elm m = do {
     m1 \<leftarrow> slist_store (Next elm) (SLIST_FIRST h m) m;
     slist_store (First h) (Some elm) m1
   }"

definition SLIST_REMOVE_AFTER :: "'n \<Rightarrow> ('h, 'n) slist \<Rightarrow> ('h, 'n) slist option" where
  "SLIST_REMOVE_AFTER elm m = do {
     v \<leftarrow> SLIST_NEXT elm m;
     n \<leftarrow> v;
     w \<leftarrow> SLIST_NEXT n m;
     slist_store (Next elm) w m
   }"

definition SLIST_REMOVE_HEAD :: "'h \<Rightarrow> ('h, 'n) slist \<Rightarrow> ('h, 'n) slist option" where
  "SLIST_REMOVE_HEAD h m = do {
     n \<leftarrow> SLIST_FIRST h m;
     v \<leftarrow> SLIST_NEXT n m;
     slist_store (First h) v m
   }"

definition SLIST_REMOVE :: "'h \<Rightarrow> 'n \<Rightarrow> ('h, 'n) slist \<Rightarrow> ('h, 'n) slist option" where
  "SLIST_REMOVE h elm m =
     (if SLIST_FIRST h m = Some elm then SLIST_REMOVE_HEAD h m
      else do {
        curelm \<leftarrow> SLIST_FIRST h m;
        curelm \<leftarrow> walk_before (slist_load m) elm curelm;
        SLIST_REMOVE_AFTER curelm m
      })"

definition SLIST_SWAP :: "'h \<Rightarrow> 'h \<Rightarrow> ('h, 'n) slist \<Rightarrow> ('h, 'n) slist option" where
  "SLIST_SWAP head1 head2 m =
     (let swap_first = SLIST_FIRST head1 m
      in do {
        m1 \<leftarrow> slist_store (First head1) (SLIST_FIRST head2 m) m;
        slist_store (First head2) swap_first m1
      })"

text \<open>The loops, over a state \<open>'s\<close> with the lists \<open>q s\<close> in it that the body may change.\<close>

definition SLIST_FOREACH :: "('s \<Rightarrow> ('h, 'n) slist) \<Rightarrow> 'h \<Rightarrow> ('n \<Rightarrow> 's \<Rightarrow> 's option) \<Rightarrow> 's \<Rightarrow> 's option" where
  "SLIST_FOREACH q h body s = foreach (\<lambda>n s. SLIST_NEXT n (q s)) body (SLIST_FIRST h (q s)) s"

definition SLIST_FOREACH_FROM :: "('s \<Rightarrow> ('h, 'n) slist) \<Rightarrow> 'h \<Rightarrow> 'n option \<Rightarrow> ('n \<Rightarrow> 's \<Rightarrow> 's option) \<Rightarrow> 's \<Rightarrow>
    's option" where
  "SLIST_FOREACH_FROM q h var body s =
     foreach (\<lambda>n s. SLIST_NEXT n (q s)) body (if var \<noteq> None then var else SLIST_FIRST h (q s)) s"

definition SLIST_FOREACH_SAFE :: "('s \<Rightarrow> ('h, 'n) slist) \<Rightarrow> 'h \<Rightarrow> ('n \<Rightarrow> 's \<Rightarrow> 's option) \<Rightarrow> 's \<Rightarrow> 's option" where
  "SLIST_FOREACH_SAFE q h body s = foreach_safe (\<lambda>n s. SLIST_NEXT n (q s)) body (SLIST_FIRST h (q s)) s"

definition SLIST_FOREACH_FROM_SAFE :: "('s \<Rightarrow> ('h, 'n) slist) \<Rightarrow> 'h \<Rightarrow> 'n option \<Rightarrow> ('n \<Rightarrow> 's \<Rightarrow> 's option) \<Rightarrow> 's \<Rightarrow>
    's option" where
  "SLIST_FOREACH_FROM_SAFE q h var body s =
     foreach_safe (\<lambda>n s. SLIST_NEXT n (q s)) body (if var \<noteq> None then var else SLIST_FIRST h (q s)) s"

text \<open>\<open>varp\<close> runs over the locations of the pointers, \<open>var\<close> over what they point to.\<close>

partial_function (option) prevptr_loop :: "('s \<Rightarrow> ('h, 'n) slist) \<Rightarrow> (('h, 'n) loc \<Rightarrow> 'n \<Rightarrow> 's \<Rightarrow> 's option) \<Rightarrow>
    ('h, 'n) loc \<Rightarrow> 's \<Rightarrow> 's option" where
  "prevptr_loop q body varp s =
     Option.bind (slist_load (q s) varp) (\<lambda>v.
       case v of None \<Rightarrow> Some s
       | Some var \<Rightarrow> Option.bind (body varp var s) (\<lambda>s1. prevptr_loop q body (Next var) s1))"

definition SLIST_FOREACH_PREVPTR :: "('s \<Rightarrow> ('h, 'n) slist) \<Rightarrow> 'h \<Rightarrow> (('h, 'n) loc \<Rightarrow> 'n \<Rightarrow> 's \<Rightarrow> 's option) \<Rightarrow>
    's \<Rightarrow> 's option" where
  "SLIST_FOREACH_PREVPTR q h body s = prevptr_loop q body (First h) s"

section \<open>What the operations write\<close>

lemma slist_init [simp]:
  "slist_load (SLIST_INIT h m) = (slist_load m)(First h := Some None)" "field (SLIST_INIT h m) = field m"
proof -
  show "slist_load (SLIST_INIT h m) = (slist_load m)(First h := Some None)"
  proof
    show "slist_load (SLIST_INIT h m) k = ((slist_load m)(First h := Some None)) k" for k
      by (cases k) (auto simp: SLIST_INIT_def slist_load_def)
  qed
qed (simp add: SLIST_INIT_def)

lemma slist_store_yields:
  assumes l: "slist_load m l \<noteq> None"
    and P: "\<And>m'. slist_load m' = (slist_load m)(l := Some v) \<Longrightarrow> dom (field m') = dom (field m) \<Longrightarrow> P m'"
  shows "yields (slist_store l v m) P"
proof -
  from store_defined [OF l [unfolded slist_load_def]]
  obtain m' where m': "store_link slh_first_update sle_next_update l v m = Some m'" by blast
  have "P m'" by (rule P) (use load_store [OF m'] store_dom [OF m'] in \<open>simp_all add: slist_load_def\<close>)
  then show ?thesis using m' by (simp add: slist_store_def)
qed

lemma slist_load_yields: "slist_load m l \<noteq> None \<Longrightarrow> P (the (slist_load m l)) \<Longrightarrow> yields (slist_load m l) P"
  by auto

lemma yields_known: "r = Some x \<Longrightarrow> P x \<Longrightarrow> yields r P"
  by simp

lemma SLIST_NEXT_load: "SLIST_NEXT n m = slist_load m (Next n)"
  by (simp add: SLIST_NEXT_def slist_load_def)

lemma SLIST_FIRST_load: "slist_load m (First h) = Some (SLIST_FIRST h m)"
  by (simp add: SLIST_FIRST_def slist_load_def)

lemmas slist_steps = yields_bind slist_store_yields slist_load_yields yields_Some [THEN iffD2]
lemmas slist_reads = SLIST_NEXT_load head_of_simps option.case Option.bind.bind_lunit

section \<open>The lists of nodes\<close>

definition slists :: "('h, 'n) slist \<Rightarrow> ('h \<Rightarrow> 'n list) \<Rightarrow> bool" where
  "slists m L \<longleftrightarrow> apart L \<and> linked (slist_load m) L"

lemma slists_alloc:
  assumes "slists m L" "n \<in> set (L h)"
  shows "slist_load m (Next n) \<noteq> None"
proof -
  have "path (slist_load m) (First h) (L h) None" using assms(1) by (simp add: slists_def linked_def)
  then show ?thesis using assms(2) by (rule path_alloc)
qed

lemma slists_cut:
  assumes "slists m L" "L h = xs @ ys"
  shows "slist_load m (end_loc (First h) xs) = Some (head_of ys)"
proof -
  have "apart L" and "linked (slist_load m) L" using assms(1) by (simp_all add: slists_def)
  then show ?thesis using assms(2) by (rule linked_cut(3))
qed

lemma slists_first: "slists m L \<Longrightarrow> SLIST_FIRST h m = head_of (L h)"
  using slists_cut [of m L h "[]" "L h"] by (simp add: SLIST_FIRST_load)

lemma slists_next: "slists m L \<Longrightarrow> L h = xs @ n # ys \<Longrightarrow> slist_load m (Next n) = Some (head_of ys)"
  using slists_cut [of m L h "xs @ [n]" ys] by simp

lemma slists_empty: "slists m L \<Longrightarrow> SLIST_EMPTY h m \<longleftrightarrow> L h = []"
  using slists_first [of m L h] by (cases "L h") (auto simp: SLIST_EMPTY_def SLIST_FIRST_def)

lemma slists_path: "slists m L \<Longrightarrow> L h = x # xs \<Longrightarrow> path (slist_load m) (Next x) xs None"
  by (auto simp: slists_def linked_def dest: spec [of _ h])

lemma slists_insert:
  assumes q: "slists m L" and h: "L h = xs @ ys" and n: "fresh_in L n"
    and w: "slist_load m' = (slist_load m)(Next n := Some (head_of ys), end_loc (First h) xs := Some (Some n))"
  shows "slists m' (L(h := xs @ n # ys))"
proof -
  have a: "apart L" and c: "linked (slist_load m) L" using q by (simp_all add: slists_def)
  have "apart (L(h := xs @ n # ys))"
    by (rule apart_update [OF a]) (use apart_distinct [OF a, of h] n h in \<open>auto simp: fresh_in_def dest: spec [of _ h]\<close>)
  moreover have "linked (slist_load m') (L(h := xs @ n # ys))"
    using linked_insert [OF a c h n refl] w slists_cut [OF q h] by simp
  ultimately show ?thesis by (simp add: slists_def)
qed

lemma slists_remove:
  assumes q: "slists m L" and h: "L h = xs @ n # ys"
    and w: "slist_load m' = (slist_load m)(end_loc (First h) xs := Some (head_of ys))"
  shows "slists m' (L(h := xs @ ys))"
proof -
  have a: "apart L" and c: "linked (slist_load m) L" using q by (simp_all add: slists_def)
  have "apart (L(h := xs @ ys))"
    by (rule apart_update [OF a]) (use apart_distinct [OF a, of h] h in auto)
  then show ?thesis using linked_remove [OF a c h refl] w slists_next [OF q h] by (simp add: slists_def)
qed

lemma slist_insert_after_law:
  assumes q: "slists m L" and h: "L h = xs @ x # ys" and n: "fresh_in L n" "slist_load m (Next n) \<noteq> None"
  shows "yields (SLIST_INSERT_AFTER x n m) (\<lambda>m'. slists m' (L(h := xs @ x # n # ys)) \<and> dom (field m') = dom (field m))"
proof -
  note x = slists_next [OF q h]
  note fin = slists_insert [OF q, of h "xs @ [x]" ys n, simplified, OF h n(1)]
  show ?thesis
    unfolding SLIST_INSERT_AFTER_def slist_reads x by (intro slist_steps; use n x fin in simp)
qed

lemma slist_insert_head_law:
  assumes q: "slists m L" and n: "fresh_in L n" "slist_load m (Next n) \<noteq> None"
  shows "yields (SLIST_INSERT_HEAD h n m) (\<lambda>m'. slists m' (L(h := n # L h)) \<and> dom (field m') = dom (field m))"
proof -
  note fin = slists_insert [OF q, of h "[]" "L h" n, simplified, OF n(1)]
  show ?thesis
    unfolding SLIST_INSERT_HEAD_def slists_first [OF q]
    by (intro slist_steps; use n fin slists_cut [OF q, of h "[]" "L h"] in simp)
qed

lemma slist_remove_head_law:
  assumes q: "slists m L" and h: "L h = n # ys"
  shows "yields (SLIST_REMOVE_HEAD h m) (\<lambda>m'. slists m' (L(h := ys)) \<and> dom (field m') = dom (field m))"
proof -
  note fin = slists_remove [OF q, of h "[]" n ys, simplified, OF h]
  have x: "slist_load m (Next n) = Some (head_of ys)" using slists_next [OF q, of h "[]" n ys] h by simp
  show ?thesis
    unfolding SLIST_REMOVE_HEAD_def slists_first [OF q] h slist_reads x
    by (intro slist_steps; use fin slists_cut [OF q, of h "[]" "L h"] in simp)
qed

lemma slist_remove_after_law:
  assumes q: "slists m L" and h: "L h = xs @ x # n # ys"
  shows "yields (SLIST_REMOVE_AFTER x m) (\<lambda>m'. slists m' (L(h := xs @ x # ys)) \<and> dom (field m') = dom (field m))"
proof -
  note fin = slists_remove [OF q, of h "xs @ [x]" n ys, simplified, OF h]
  have x: "slist_load m (Next x) = Some (Some n)" "slist_load m (Next n) = Some (head_of ys)"
    using slists_next [OF q h] slists_next [OF q, of h "xs @ [x]" n ys] h by simp_all
  show ?thesis
    unfolding SLIST_REMOVE_AFTER_def slist_reads x by (intro slist_steps; use fin x in simp)
qed

lemma slist_remove_law:
  assumes q: "slists m L" and h: "L h = xs @ n # ys"
  shows "yields (SLIST_REMOVE h n m) (\<lambda>m'. slists m' (L(h := xs @ ys)) \<and> dom (field m') = dom (field m))"
proof (cases xs)
  case Nil
  then show ?thesis using slist_remove_head_law [OF q, of h n ys] h slists_first [OF q, of h] by (simp add: SLIST_REMOVE_def)
next
  case (Cons x zs)
  have d: "distinct (L h)" using q by (simp add: slists_def apart_def)
  obtain us u where u: "xs = us @ [u]" using Cons by (metis list.distinct(1) rev_exhaust)
  then have "last (x # zs) = u" using Cons by (metis last_snoc)
  then have walk: "walk_before (slist_load m) n x = Some u"
    using walk_before [of "slist_load m" x zs n ys None] slists_path [OF q, of h x "zs @ n # ys"] h Cons d by auto
  have first: "SLIST_FIRST h m = Some x" "x \<noteq> n" using slists_first [OF q, of h] h Cons d by auto
  have "L h = us @ u # n # ys" using h u by simp
  from slist_remove_after_law [OF q this] show ?thesis
    unfolding SLIST_REMOVE_def first using first(2) walk u by simp
qed

lemma slist_init_law: "slists m L \<Longrightarrow> slists (SLIST_INIT h m) (L(h := []))"
  by (auto simp: slists_def apart_def intro!: linked_init)

lemma slist_concat_law:
  assumes q: "slists m L" and k: "h \<noteq> k"
  shows "yields (SLIST_CONCAT h k m) (\<lambda>m'. slists m' (L(h := L h @ L k, k := [])) \<and> dom (field m') = dom (field m))"
proof -
  have a: "apart L" and c: "linked (slist_load m) L" using q by (simp_all add: slists_def)
  note first = slists_first [OF q]
  have l: "slist_load m (end_loc (First h) (L h)) = Some None" using slists_cut [OF q, of h "L h" "[]"] by simp
  have f: "slist_load m (First k) = Some (head_of (L k))" using slists_cut [OF q, of k "[]" "L k"] by simp
  have fin: "slists m' (L(h := L h @ L k, k := []))"
    if "slist_load m' = (slist_load m)(end_loc (First h) (L h) := Some (head_of (L k)), First k := Some None)" for m'
    using that linked_concat [OF a c k refl] apart_concat [OF a k] f by (simp add: slists_def)
  show ?thesis
  proof (cases "L h")
    case Nil
    have idle: "(slist_load m)(First h := Some None) = slist_load m" "L k = [] \<Longrightarrow> (slist_load m)(First k := Some None) = slist_load m"
      using l Nil f by (simp_all add: fun_upd_idem)
    have read: "SLIST_FIRST h m' = head_of (L k)" if "slist_load m' = (slist_load m)(First h := Some (head_of (L k)))" for m'
      using SLIST_FIRST_load [of m' h] that by simp
    show ?thesis
      unfolding SLIST_CONCAT_def first Nil slist_reads
      by (intro slist_steps; cases "L k") (use l fin read Nil idle in auto)
  next
    case (Cons x xs)
    have walk: "walk_to_last (slist_load m) x = Some (last (x # xs))"
      by (rule walk_to_last) (rule slists_path [OF q Cons])
    have e: "Next (last (x # xs)) = end_loc (First h) (L h)" unfolding Cons by (rule end_loc_last [symmetric])
    show ?thesis
    proof (cases "L k")
      case Nil
      then show ?thesis using first Cons q by (simp add: SLIST_CONCAT_def fun_upd_idem)
    next
      case (Cons y ys)
      have "yields (Option.bind (slist_store (Next (last (x # xs))) (Some y) m) (\<lambda>m1. Some (SLIST_INIT k m1)))
          (\<lambda>m'. slists m' (L(h := L h @ L k, k := [])) \<and> dom (field m') = dom (field m))"
        unfolding e by (intro slist_steps; use l fin Cons in simp)
      then show ?thesis using first Cons \<open>L h = x # xs\<close> walk by (simp add: SLIST_CONCAT_def)
    qed
  qed
qed

lemma slist_swap_law:
  assumes q: "slists m L"
  shows "yields (SLIST_SWAP h k m) (\<lambda>m'. slists m' (L(h := L k, k := L h)) \<and> dom (field m') = dom (field m))"
proof -
  have a: "apart L" and c: "linked (slist_load m) L" using q by (simp_all add: slists_def)
  have f: "slist_load m (First j) = Some (head_of (L j))" for j using slists_cut [OF q, of j "[]" "L j"] by simp
  have fin: "slists m' (L(h := L k, k := L h))"
    if "slist_load m' = (slist_load m)(First h := Some (head_of (L k)), First k := Some (head_of (L h)))" for m'
    using that linked_swap [OF a c, of h k] apart_swap [OF a] f by (simp add: slists_def)
  show ?thesis
    unfolding SLIST_SWAP_def Let_def slists_first [OF q] by (intro slist_steps; use f fin in simp)
qed

section \<open>Loops over a list\<close>

lemma slist_order:
  assumes "slists (q s) L" "L h = xs @ ys"
  shows "order (\<lambda>n s. SLIST_NEXT n (q s)) s ys"
proof (rule orderI)
  fix us n vs
  assume "ys = us @ n # vs"
  then show "SLIST_NEXT n (q s) = Some (head_of vs)"
    using slists_next [OF assms(1), of h "xs @ us" n vs] assms(2) by (simp add: SLIST_NEXT_load)
qed

fun with_prevptr :: "('h, 'n) loc \<Rightarrow> 'n list \<Rightarrow> (('h, 'n) loc \<times> 'n) list" where
  "with_prevptr l [] = []"
| "with_prevptr l (n # ns) = (l, n) # with_prevptr (Next n) ns"

lemma prevptr_loop_fold:
  assumes "\<And>l n s. I s \<Longrightarrow> body l n s = Some (f l n s) \<and> I (f l n s)" and "\<And>s. I s \<Longrightarrow> path (slist_load (q s)) l ns None"
  shows "I s \<Longrightarrow> prevptr_loop q body l s = Some (fold (\<lambda>(l, n). f l n) (with_prevptr l ns) s)"
  using assms(2)
proof (induction ns arbitrary: l s)
  case Nil
  then show ?case by (simp add: prevptr_loop.simps)
next
  case (Cons n ns)
  have "body l n s = Some (f l n s)" and I: "I (f l n s)" using assms(1) Cons.prems(1) by auto
  moreover have "slist_load (q s) l = Some (Some n)" using Cons.prems(2) [OF Cons.prems(1)] by simp
  moreover have "prevptr_loop q body (Next n) (f l n s) = Some (fold (\<lambda>(l, n). f l n) (with_prevptr (Next n) ns) (f l n s))"
    by (rule Cons.IH [OF I]) (use Cons.prems(2) in auto)
  ultimately show ?case by (subst prevptr_loop.simps) simp
qed

lemma slist_loops_visit:
  assumes q: "\<And>s. I s \<Longrightarrow> slists (q s) L" and h: "L h = xs @ n # ys"
    and body: "\<And>k s. I s \<Longrightarrow> body k s = Some (f k s) \<and> I (f k s)" and s: "I s"
  shows "SLIST_FOREACH q h body s = Some (fold f (xs @ n # ys) s)"
    and "SLIST_FOREACH_SAFE q h body s = Some (fold f (xs @ n # ys) s)"
    and "SLIST_FOREACH_FROM q h (Some n) body s = Some (fold f (n # ys) s)"
    and "SLIST_FOREACH_FROM_SAFE q h (Some n) body s = Some (fold f (n # ys) s)"
    and "SLIST_FOREACH_PREVPTR q h (\<lambda>l. body) s = Some (fold (\<lambda>(l, k). f k) (with_prevptr (First h) (L h)) s)"
proof -
  let ?nxt = "\<lambda>n s. SLIST_NEXT n (q s)"
  have ord: "order ?nxt s (xs @ n # ys)" "order ?nxt s (n # ys)" if "I s" for s
    using slist_order [where q = q and s = s, OF q [OF that], of h "[]"] slist_order [where q = q and s = s, OF q [OF that] h] h
    by simp_all
  note run = foreach_fold [where I = I and body = body and f = f and nxt = ?nxt, OF _ _ s]
    foreach_safe_fold [where I = I and body = body and f = f and nxt = ?nxt, OF _ _ s]
  show "SLIST_FOREACH q h body s = Some (fold f (xs @ n # ys) s)" "SLIST_FOREACH_SAFE q h body s = Some (fold f (xs @ n # ys) s)"
    "SLIST_FOREACH_FROM q h (Some n) body s = Some (fold f (n # ys) s)"
    "SLIST_FOREACH_FROM_SAFE q h (Some n) body s = Some (fold f (n # ys) s)"
    using run [of "xs @ n # ys"] run [of "n # ys"] body ord slists_first [OF q [OF s], of h] h
    by (simp_all add: SLIST_FOREACH_def SLIST_FOREACH_SAFE_def SLIST_FOREACH_FROM_def SLIST_FOREACH_FROM_SAFE_def)
  have path: "path (slist_load (q s)) (First h) (L h) None" if "I s" for s using q [OF that] by (simp add: slists_def linked_def)
  show "SLIST_FOREACH_PREVPTR q h (\<lambda>l. body) s = Some (fold (\<lambda>(l, k). f k) (with_prevptr (First h) (L h)) s)"
    unfolding SLIST_FOREACH_PREVPTR_def by (rule prevptr_loop_fold [where I = I and f = "\<lambda>l. f"]) (use body path s in auto)
qed

section \<open>Properties\<close>

fun slist_step :: "('h, 'n) edit \<Rightarrow> ('h, 'n) slist \<Rightarrow> ('h, 'n) slist option" where
  "slist_step (Init h) m = Some (SLIST_INIT h m)"
| "slist_step (Insert_head h n) m = SLIST_INSERT_HEAD h n m"
| "slist_step (Insert_after h x n) m = SLIST_INSERT_AFTER x n m"
| "slist_step (Remove h n) m = SLIST_REMOVE h n m"
| "slist_step (Remove_head h) m = SLIST_REMOVE_HEAD h m"
| "slist_step (Remove_after h x) m = SLIST_REMOVE_AFTER x m"
| "slist_step (Concat h k) m = SLIST_CONCAT h k m"
| "slist_step (Swap h k) m = SLIST_SWAP h k m"
| "slist_step (Insert_tail h n) m = None" \<comment> \<open>not offered for singly linked lists\<close>
| "slist_step (Insert_before h x n) m = None"

fun slist_offers :: "('h, 'n) edit \<Rightarrow> bool" where
  "slist_offers (Insert_tail h n) \<longleftrightarrow> False"
| "slist_offers (Insert_before h x n) \<longleftrightarrow> False"
| "slist_offers e \<longleftrightarrow> True"

interpretation slist_kind: list_kind slist_step slists "\<lambda>m. dom (field m)" slist_offers
proof
  fix m :: "('h, 'n) slist" and L e L'
  assume q: "slists m L" and offers: "slist_offers e" and ed: "edit_lists (dom (field m)) e L = Some L'"
  have alloc: "n \<in> dom (field m) \<longleftrightarrow> slist_load m (Next n) \<noteq> None" for n by (auto simp: slist_load_def)
  show "yields (slist_step e m) (\<lambda>m'. slists m' L' \<and> dom (field m') = dom (field m))"
  proof (cases e)
    case (Insert_after h x n)
    then obtain xs ys where h: "L h = xs @ x # ys" and x: "x \<notin> set xs"
      using ed by (auto split: if_splits dest: split_list_first)
    then show ?thesis
      using slist_insert_after_law [OF q h, of n] ed Insert_after by (simp add: put_after_split alloc split: if_splits)
  next
    case (Remove h n)
    then obtain xs ys where h: "L h = xs @ n # ys" and n: "n \<notin> set xs"
      using ed by (auto split: if_splits dest: split_list_first)
    then show ?thesis using slist_remove_law [OF q h] ed Remove by (simp add: remove1_append split: if_splits)
  next
    case (Remove_head h)
    then obtain n ys where h: "L h = n # ys" using ed by (auto split: if_splits simp: neq_Nil_conv)
    then show ?thesis using slist_remove_head_law [OF q h] ed Remove_head by auto
  next
    case (Remove_after h x)
    then have "x \<in> set (butlast (L h))" using ed by (auto split: if_splits)
    then obtain xs n ys where h: "L h = xs @ x # n # ys" "x \<notin> set xs" by (rule in_butlast_split)
    then show ?thesis
      using slist_remove_after_law [OF q h(1)] ed Remove_after by (auto simp: drop_after_split split: if_splits)
  qed (use ed offers q slist_init_law [OF q] slist_insert_head_law [OF q] slist_concat_law [OF q] slist_swap_law [OF q] in
    \<open>auto simp: alloc split: if_splits\<close>)
qed

text \<open>
  C31: the singly linked lists refine lists: any sequence of their operations that makes sense on lists
  (new nodes are allocated and in no list, the nodes named are in the list), from empty lists, follows
  only live pointers, returns, and leaves the nodes that the same edits give on lists, in their order.
\<close>

theorem slist_refines_list:
  assumes "\<And>h. heads m h = SLIST_HEAD_INITIALIZER" and "list_all slist_offers es"
    and "run_edits (edit_lists (dom (field m))) es (\<lambda>_. []) = Some L"
  shows "\<exists>m'. run_edits slist_step es m = Some m' \<and> slists m' L \<and>
    (\<forall>h. SLIST_FIRST h m' = head_of (L h) \<and> SLIST_EMPTY h m' = (L h = []))"
proof -
  have "slists m (\<lambda>_. [])"
    using assms(1) by (simp add: slists_def apart_def linked_def slist_load_def SLIST_HEAD_INITIALIZER_def)
  from slist_kind.run_law [OF this assms(2,3)] show ?thesis
    using slists_first slists_empty by (fastforce simp: yields_def)
qed

definition two_slists :: "(bool, nat) slist" where
  "two_slists = \<lparr>heads = (\<lambda>_. SLIST_HEAD_INITIALIZER), field = (\<lambda>n. if n < 5 then Some \<lparr>sle_next = None\<rparr> else None)\<rparr>"

definition slist_edits :: "(bool, nat) edit list" where
  "slist_edits = [Insert_head True 0, Insert_after True 0 1, Insert_after True 1 2, Insert_head False 3, Insert_head False 4,
     Concat True False, Remove True 3, Remove_after True 0, Remove_head True, Swap True False]"

theorem slist_refines_list_witness:
  "\<exists>m L. run_edits slist_step slist_edits two_slists = Some m \<and> slists m L \<and> L False = [2, 4] \<and> L True = [] \<and>
     SLIST_FIRST False m = Some 2"
proof -
  have nodes: "dom (field two_slists) = {0, 1, 2, 3, 4}" by (auto simp: two_slists_def split: if_splits)
  obtain L where L: "run_edits (edit_lists (dom (field two_slists))) slist_edits (\<lambda>_. []) = Some L"
    "L False = [2, 4]" "L True = []" "list_all slist_offers slist_edits"
    by (simp add: nodes slist_edits_def fresh_in_def all_bool_eq)
  from slist_refines_list [OF _ L(4,1)] L(2,3) show ?thesis by (force simp: two_slists_def)
qed

end
