(* ===== verification/SinglyLinkedTail.thy ===== *)
theory SinglyLinkedTail
  imports Links "HOL-Library.Monad_Syntax"
begin

text \<open>
  The singly linked tail queues of src/server/queue.h (\<open>STAILQ\<close>), which the server does not use: singly
  linked lists whose head also has the address of the last forward pointer, so that appending and
  concatenation need no walk.  All operations are proved to be the operations on lists of nodes.
\<close>

section \<open>Structures\<close>

record ('h, 'n) stailq_head =
  stqh_first :: "'n option"
  stqh_last :: "('h, 'n) loc"

record 'n stailq_entry =
  stqe_next :: "'n option"

type_synonym ('h, 'n) stailq = "('h, 'n, ('h, 'n) stailq_head, 'n stailq_entry) links"

definition STAILQ_HEAD_INITIALIZER :: "'h \<Rightarrow> ('h, 'n) stailq_head" where
  "STAILQ_HEAD_INITIALIZER h = \<lparr>stqh_first = None, stqh_last = First h\<rparr>"

definition stailq_load :: "('h, 'n) stailq \<Rightarrow> ('h, 'n) loc \<Rightarrow> 'n option option" where
  "stailq_load = load_link stqh_first stqe_next"

definition stailq_store :: "('h, 'n) loc \<Rightarrow> 'n option \<Rightarrow> ('h, 'n) stailq \<Rightarrow> ('h, 'n) stailq option" where
  "stailq_store = store_link stqh_first_update stqe_next_update"

definition stailq_last :: "('h, 'n) stailq \<Rightarrow> 'h \<Rightarrow> ('h, 'n) loc" where
  "stailq_last m h = stqh_last (heads m h)"

definition set_stqh_last :: "'h \<Rightarrow> ('h, 'n) loc \<Rightarrow> ('h, 'n) stailq \<Rightarrow> ('h, 'n) stailq" where
  "set_stqh_last h l m = m\<lparr>heads := (heads m)(h := (heads m h)\<lparr>stqh_last := l\<rparr>)\<rparr>"

section \<open>Operations\<close>

definition STAILQ_EMPTY :: "'h \<Rightarrow> ('h, 'n) stailq \<Rightarrow> bool" where
  "STAILQ_EMPTY h m \<longleftrightarrow> stqh_first (heads m h) = None"

definition STAILQ_FIRST :: "'h \<Rightarrow> ('h, 'n) stailq \<Rightarrow> 'n option" where
  "STAILQ_FIRST h m = stqh_first (heads m h)"

definition STAILQ_NEXT :: "'n \<Rightarrow> ('h, 'n) stailq \<Rightarrow> 'n option option" where
  "STAILQ_NEXT elm m = map_option stqe_next (field m elm)"

definition STAILQ_INIT :: "'h \<Rightarrow> ('h, 'n) stailq \<Rightarrow> ('h, 'n) stailq" where
  "STAILQ_INIT h m =
     set_stqh_last h (First h) (m\<lparr>heads := (heads m)(h := (heads m h)\<lparr>stqh_first := None\<rparr>)\<rparr>)"

definition STAILQ_CONCAT :: "'h \<Rightarrow> 'h \<Rightarrow> ('h, 'n) stailq \<Rightarrow> ('h, 'n) stailq option" where
  "STAILQ_CONCAT head1 head2 m =
     (if \<not> STAILQ_EMPTY head2 m
      then do {
        m1 \<leftarrow> stailq_store (stailq_last m head1) (STAILQ_FIRST head2 m) m;
        Some (STAILQ_INIT head2 (set_stqh_last head1 (stailq_last m1 head2) m1))
      }
      else Some m)"

definition STAILQ_INSERT_AFTER :: "'h \<Rightarrow> 'n \<Rightarrow> 'n \<Rightarrow> ('h, 'n) stailq \<Rightarrow> ('h, 'n) stailq option" where
  "STAILQ_INSERT_AFTER h tqelm elm m = do {
     v \<leftarrow> STAILQ_NEXT tqelm m;
     m1 \<leftarrow> stailq_store (Next elm) v m;
     let m2 = (if v = None then set_stqh_last h (Next elm) m1 else m1);
     stailq_store (Next tqelm) (Some elm) m2
   }"

definition STAILQ_INSERT_HEAD :: "'h \<Rightarrow> 'n \<Rightarrow> ('h, 'n) stailq \<Rightarrow> ('h, 'n) stailq option" where
  "STAILQ_INSERT_HEAD h elm m = do {
     m1 \<leftarrow> stailq_store (Next elm) (STAILQ_FIRST h m) m;
     let m2 = (if STAILQ_FIRST h m = None then set_stqh_last h (Next elm) m1 else m1);
     stailq_store (First h) (Some elm) m2
   }"

definition STAILQ_INSERT_TAIL :: "'h \<Rightarrow> 'n \<Rightarrow> ('h, 'n) stailq \<Rightarrow> ('h, 'n) stailq option" where
  "STAILQ_INSERT_TAIL h elm m = do {
     m1 \<leftarrow> stailq_store (Next elm) None m;
     m2 \<leftarrow> stailq_store (stailq_last m1 h) (Some elm) m1;
     Some (set_stqh_last h (Next elm) m2)
   }"

text \<open>The node whose forward pointer is at the last location; a head is no node.\<close>

definition STAILQ_LAST :: "'h \<Rightarrow> ('h, 'n) stailq \<Rightarrow> 'n option option" where
  "STAILQ_LAST h m =
     (if STAILQ_EMPTY h m then Some None
      else case stailq_last m h of Next n \<Rightarrow> Some (Some n) | First k \<Rightarrow> None)"

definition STAILQ_REMOVE_AFTER :: "'h \<Rightarrow> 'n \<Rightarrow> ('h, 'n) stailq \<Rightarrow> ('h, 'n) stailq option" where
  "STAILQ_REMOVE_AFTER h elm m = do {
     v \<leftarrow> STAILQ_NEXT elm m;
     n \<leftarrow> v;
     w \<leftarrow> STAILQ_NEXT n m;
     m1 \<leftarrow> stailq_store (Next elm) w m;
     Some (if w = None then set_stqh_last h (Next elm) m1 else m1)
   }"

definition STAILQ_REMOVE_HEAD :: "'h \<Rightarrow> ('h, 'n) stailq \<Rightarrow> ('h, 'n) stailq option" where
  "STAILQ_REMOVE_HEAD h m = do {
     n \<leftarrow> STAILQ_FIRST h m;
     v \<leftarrow> STAILQ_NEXT n m;
     m1 \<leftarrow> stailq_store (First h) v m;
     Some (if v = None then set_stqh_last h (First h) m1 else m1)
   }"

definition STAILQ_REMOVE :: "'h \<Rightarrow> 'n \<Rightarrow> ('h, 'n) stailq \<Rightarrow> ('h, 'n) stailq option" where
  "STAILQ_REMOVE h elm m =
     (if STAILQ_FIRST h m = Some elm then STAILQ_REMOVE_HEAD h m
      else do {
        curelm \<leftarrow> STAILQ_FIRST h m;
        curelm \<leftarrow> walk_before (stailq_load m) elm curelm;
        STAILQ_REMOVE_AFTER h curelm m
      })"

definition STAILQ_SWAP :: "'h \<Rightarrow> 'h \<Rightarrow> ('h, 'n) stailq \<Rightarrow> ('h, 'n) stailq" where
  "STAILQ_SWAP head1 head2 m =
     (let swap_first = STAILQ_FIRST head1 m; swap_last = stailq_last m head1;
          m1 = m\<lparr>heads := (heads m)(head1 := \<lparr>stqh_first = STAILQ_FIRST head2 m, stqh_last = stailq_last m head2\<rparr>)\<rparr>;
          m2 = m1\<lparr>heads := (heads m1)(head2 := \<lparr>stqh_first = swap_first, stqh_last = swap_last\<rparr>)\<rparr>;
          m3 = (if STAILQ_EMPTY head1 m2 then set_stqh_last head1 (First head1) m2 else m2)
      in if STAILQ_EMPTY head2 m3 then set_stqh_last head2 (First head2) m3 else m3)"

text \<open>The loops, over a state \<open>'s\<close> with the queues \<open>q s\<close> in it that the body may change.\<close>

definition STAILQ_FOREACH :: "('s \<Rightarrow> ('h, 'n) stailq) \<Rightarrow> 'h \<Rightarrow> ('n \<Rightarrow> 's \<Rightarrow> 's option) \<Rightarrow> 's \<Rightarrow> 's option" where
  "STAILQ_FOREACH q h body s = foreach (\<lambda>n s. STAILQ_NEXT n (q s)) body (STAILQ_FIRST h (q s)) s"

definition STAILQ_FOREACH_FROM :: "('s \<Rightarrow> ('h, 'n) stailq) \<Rightarrow> 'h \<Rightarrow> 'n option \<Rightarrow> ('n \<Rightarrow> 's \<Rightarrow> 's option) \<Rightarrow> 's \<Rightarrow>
    's option" where
  "STAILQ_FOREACH_FROM q h var body s =
     foreach (\<lambda>n s. STAILQ_NEXT n (q s)) body (if var \<noteq> None then var else STAILQ_FIRST h (q s)) s"

definition STAILQ_FOREACH_SAFE :: "('s \<Rightarrow> ('h, 'n) stailq) \<Rightarrow> 'h \<Rightarrow> ('n \<Rightarrow> 's \<Rightarrow> 's option) \<Rightarrow> 's \<Rightarrow> 's option" where
  "STAILQ_FOREACH_SAFE q h body s = foreach_safe (\<lambda>n s. STAILQ_NEXT n (q s)) body (STAILQ_FIRST h (q s)) s"

definition STAILQ_FOREACH_FROM_SAFE :: "('s \<Rightarrow> ('h, 'n) stailq) \<Rightarrow> 'h \<Rightarrow> 'n option \<Rightarrow> ('n \<Rightarrow> 's \<Rightarrow> 's option) \<Rightarrow>
    's \<Rightarrow> 's option" where
  "STAILQ_FOREACH_FROM_SAFE q h var body s =
     foreach_safe (\<lambda>n s. STAILQ_NEXT n (q s)) body (if var \<noteq> None then var else STAILQ_FIRST h (q s)) s"

section \<open>What the operations write\<close>

lemma stailq_set_last [simp]:
  "stailq_load (set_stqh_last h l m) = stailq_load m" "stailq_last (set_stqh_last h l m) = (stailq_last m)(h := l)"
  "field (set_stqh_last h l m) = field m"
proof -
  show "stailq_load (set_stqh_last h l m) = stailq_load m"
  proof
    show "stailq_load (set_stqh_last h l m) k = stailq_load m k" for k
      by (cases k) (auto simp: stailq_load_def set_stqh_last_def)
  qed
qed (simp_all add: set_stqh_last_def stailq_last_def fun_eq_iff)

lemma stailq_init [simp]:
  "stailq_load (STAILQ_INIT h m) = (stailq_load m)(First h := Some None)"
  "stailq_last (STAILQ_INIT h m) = (stailq_last m)(h := First h)" "field (STAILQ_INIT h m) = field m"
proof -
  show "stailq_load (STAILQ_INIT h m) = (stailq_load m)(First h := Some None)"
  proof
    show "stailq_load (STAILQ_INIT h m) k = ((stailq_load m)(First h := Some None)) k" for k
      by (cases k) (auto simp: stailq_load_def STAILQ_INIT_def set_stqh_last_def)
  qed
qed (simp_all add: STAILQ_INIT_def stailq_last_def fun_eq_iff)

lemma stailq_store_yields:
  assumes l: "stailq_load m l \<noteq> None"
    and P: "\<And>m'. stailq_load m' = (stailq_load m)(l := Some v) \<Longrightarrow> stailq_last m' = stailq_last m \<Longrightarrow>
      dom (field m') = dom (field m) \<Longrightarrow> P m'"
  shows "yields (stailq_store l v m) P"
proof -
  from store_defined [OF l [unfolded stailq_load_def]]
  obtain m' where m': "store_link stqh_first_update stqe_next_update l v m = Some m'" by blast
  have "P m'"
    by (rule P) (use load_store [OF m'] store_heads [OF m', of stqh_last] store_dom [OF m'] in
      \<open>simp_all add: stailq_load_def stailq_last_def fun_eq_iff\<close>)
  then show ?thesis using m' by (simp add: stailq_store_def)
qed

lemma STAILQ_NEXT_load: "STAILQ_NEXT n m = stailq_load m (Next n)"
  by (simp add: STAILQ_NEXT_def stailq_load_def)

lemma STAILQ_FIRST_load: "stailq_load m (First h) = Some (STAILQ_FIRST h m)"
  by (simp add: STAILQ_FIRST_def stailq_load_def)

lemmas stailq_steps = yields_bind stailq_store_yields yields_Some [THEN iffD2]
lemmas stailq_reads = STAILQ_NEXT_load head_of_simps option.case Option.bind.bind_lunit Let_def

section \<open>The queues as lists of nodes\<close>

definition stailqs :: "('h, 'n) stailq \<Rightarrow> ('h \<Rightarrow> 'n list) \<Rightarrow> bool" where
  "stailqs m L \<longleftrightarrow> apart L \<and> linked (stailq_load m) L \<and> ends_at (stailq_last m) L"

lemma stailqs_alloc:
  assumes "stailqs m L" "n \<in> set (L h)"
  shows "stailq_load m (Next n) \<noteq> None"
proof -
  have "path (stailq_load m) (First h) (L h) None" using assms(1) by (simp add: stailqs_def linked_def)
  then show ?thesis using assms(2) by (rule path_alloc)
qed

lemma stailqs_cut:
  assumes "stailqs m L" "L h = xs @ ys"
  shows "stailq_load m (end_loc (First h) xs) = Some (head_of ys)"
proof -
  have "apart L" and "linked (stailq_load m) L" using assms(1) by (simp_all add: stailqs_def)
  then show ?thesis using assms(2) by (rule linked_cut(3))
qed

lemma stailqs_first: "stailqs m L \<Longrightarrow> STAILQ_FIRST h m = head_of (L h)"
  using stailqs_cut [of m L h "[]" "L h"] by (simp add: STAILQ_FIRST_load)

lemma stailqs_next: "stailqs m L \<Longrightarrow> L h = xs @ n # ys \<Longrightarrow> stailq_load m (Next n) = Some (head_of ys)"
  using stailqs_cut [of m L h "xs @ [n]" ys] by simp

lemma stailqs_empty: "stailqs m L \<Longrightarrow> STAILQ_EMPTY h m \<longleftrightarrow> L h = []"
  using stailqs_first [of m L h] by (cases "L h") (auto simp: STAILQ_EMPTY_def STAILQ_FIRST_def)

lemma stailqs_end: "stailqs m L \<Longrightarrow> stailq_last m h = end_loc (First h) (L h)"
  by (simp add: stailqs_def ends_at_def)

lemma stailqs_last: "stailqs m L \<Longrightarrow> STAILQ_LAST h m = Some (head_of (rev (L h)))"
  by (cases "L h" rule: rev_cases) (simp_all add: STAILQ_LAST_def stailqs_empty stailqs_end)

lemma stailqs_path: "stailqs m L \<Longrightarrow> L h = x # xs \<Longrightarrow> path (stailq_load m) (Next x) xs None"
  by (auto simp: stailqs_def linked_def dest: spec [of _ h])

lemma stailqs_insert:
  assumes q: "stailqs m L" and h: "L h = xs @ ys" and n: "fresh_in L n"
    and w: "stailq_load m' = (stailq_load m)(Next n := Some (head_of ys), end_loc (First h) xs := Some (Some n))"
      "stailq_last m' = (if ys = [] then (stailq_last m)(h := Next n) else stailq_last m)"
  shows "stailqs m' (L(h := xs @ n # ys))"
proof -
  have a: "apart L" and c: "linked (stailq_load m) L" and e: "ends_at (stailq_last m) L" using q by (simp_all add: stailqs_def)
  have "apart (L(h := xs @ n # ys))"
    by (rule apart_update [OF a]) (use apart_distinct [OF a, of h] n h in \<open>auto simp: fresh_in_def dest: spec [of _ h]\<close>)
  moreover have "linked (stailq_load m') (L(h := xs @ n # ys))"
    using linked_insert [OF a c h n refl] w(1) stailqs_cut [OF q h] by simp
  moreover have "ends_at (stailq_last m') (L(h := xs @ n # ys))" unfolding w(2) by (rule ends_insert [OF e h])
  ultimately show ?thesis by (simp add: stailqs_def)
qed

lemma stailqs_remove:
  assumes q: "stailqs m L" and h: "L h = xs @ n # ys"
    and w: "stailq_load m' = (stailq_load m)(end_loc (First h) xs := Some (head_of ys))"
      "stailq_last m' = (if ys = [] then (stailq_last m)(h := end_loc (First h) xs) else stailq_last m)"
  shows "stailqs m' (L(h := xs @ ys))"
proof -
  have a: "apart L" and c: "linked (stailq_load m) L" and e: "ends_at (stailq_last m) L" using q by (simp_all add: stailqs_def)
  have "apart (L(h := xs @ ys))"
    by (rule apart_update [OF a]) (use apart_distinct [OF a, of h] h in auto)
  moreover have "linked (stailq_load m') (L(h := xs @ ys))" using linked_remove [OF a c h refl] w(1) stailqs_next [OF q h] by simp
  moreover have "ends_at (stailq_last m') (L(h := xs @ ys))" unfolding w(2) by (rule ends_remove [OF e h])
  ultimately show ?thesis by (simp add: stailqs_def)
qed

lemma stailq_insert_after_law:
  assumes q: "stailqs m L" and h: "L h = xs @ x # ys" and n: "fresh_in L n" "stailq_load m (Next n) \<noteq> None"
  shows "yields (STAILQ_INSERT_AFTER h x n m) (\<lambda>m'. stailqs m' (L(h := xs @ x # n # ys)) \<and> dom (field m') = dom (field m))"
proof -
  note x = stailqs_next [OF q h]
  note fin = stailqs_insert [OF q, of h "xs @ [x]" ys n, simplified, OF h n(1)]
  show ?thesis
    unfolding STAILQ_INSERT_AFTER_def stailq_reads x
    by (intro stailq_steps; cases ys; use n x fin in simp)
qed

lemma stailq_insert_head_law:
  assumes q: "stailqs m L" and n: "fresh_in L n" "stailq_load m (Next n) \<noteq> None"
  shows "yields (STAILQ_INSERT_HEAD h n m) (\<lambda>m'. stailqs m' (L(h := n # L h)) \<and> dom (field m') = dom (field m))"
proof -
  note fin = stailqs_insert [OF q, of h "[]" "L h" n, simplified, OF n(1)]
  show ?thesis
    unfolding STAILQ_INSERT_HEAD_def stailqs_first [OF q] Let_def
    by (intro stailq_steps; cases "L h"; use n fin stailqs_cut [OF q, of h "[]" "L h"] in simp)
qed

lemma stailq_insert_tail_law:
  assumes q: "stailqs m L" and n: "fresh_in L n" "stailq_load m (Next n) \<noteq> None"
  shows "yields (STAILQ_INSERT_TAIL h n m) (\<lambda>m'. stailqs m' (L(h := L h @ [n])) \<and> dom (field m') = dom (field m))"
proof -
  note fin = stailqs_insert [OF q, of h "L h" "[]" n, simplified, OF n(1)]
  have e: "stailq_load m (end_loc (First h) (L h)) = Some None" using stailqs_cut [OF q, of h "L h" "[]"] by simp
  show ?thesis
    unfolding STAILQ_INSERT_TAIL_def by (intro stailq_steps; use stailqs_end [OF q, of h] e n fin in simp)
qed

lemma stailq_remove_head_law:
  assumes q: "stailqs m L" and h: "L h = n # ys"
  shows "yields (STAILQ_REMOVE_HEAD h m) (\<lambda>m'. stailqs m' (L(h := ys)) \<and> dom (field m') = dom (field m))"
proof -
  note fin = stailqs_remove [OF q, of h "[]" n ys, simplified, OF h]
  have x: "stailq_load m (Next n) = Some (head_of ys)" using stailqs_next [OF q, of h "[]" n ys] h by simp
  show ?thesis
    unfolding STAILQ_REMOVE_HEAD_def stailqs_first [OF q] h stailq_reads x
    by (intro stailq_steps; cases ys; use fin stailqs_cut [OF q, of h "[]" "L h"] in simp)
qed

lemma stailq_remove_after_law:
  assumes q: "stailqs m L" and h: "L h = xs @ x # n # ys"
  shows "yields (STAILQ_REMOVE_AFTER h x m) (\<lambda>m'. stailqs m' (L(h := xs @ x # ys)) \<and> dom (field m') = dom (field m))"
proof -
  note fin = stailqs_remove [OF q, of h "xs @ [x]" n ys, simplified, OF h]
  have x: "stailq_load m (Next x) = Some (Some n)" "stailq_load m (Next n) = Some (head_of ys)"
    using stailqs_next [OF q h] stailqs_next [OF q, of h "xs @ [x]" n ys] h by simp_all
  show ?thesis
    unfolding STAILQ_REMOVE_AFTER_def stailq_reads x by (intro stailq_steps; cases ys; use fin x in simp)
qed

lemma stailq_remove_law:
  assumes q: "stailqs m L" and h: "L h = xs @ n # ys"
  shows "yields (STAILQ_REMOVE h n m) (\<lambda>m'. stailqs m' (L(h := xs @ ys)) \<and> dom (field m') = dom (field m))"
proof (cases xs)
  case Nil
  then show ?thesis using stailq_remove_head_law [OF q, of h n ys] h stailqs_first [OF q, of h] by (simp add: STAILQ_REMOVE_def)
next
  case (Cons x zs)
  have d: "distinct (L h)" using q by (simp add: stailqs_def apart_def)
  obtain us u where u: "xs = us @ [u]" using Cons by (metis list.distinct(1) rev_exhaust)
  then have "last (x # zs) = u" using Cons by (metis last_snoc)
  then have walk: "walk_before (stailq_load m) n x = Some u"
    using walk_before [of "stailq_load m" x zs n ys None] stailqs_path [OF q, of h x "zs @ n # ys"] h Cons d by auto
  have first: "STAILQ_FIRST h m = Some x" "x \<noteq> n" using stailqs_first [OF q, of h] h Cons d by auto
  have "L h = us @ u # n # ys" using h u by simp
  from stailq_remove_after_law [OF q this] show ?thesis
    unfolding STAILQ_REMOVE_def first using first(2) walk u by simp
qed

lemma stailq_init_law: "stailqs m L \<Longrightarrow> stailqs (STAILQ_INIT h m) (L(h := []))"
  by (auto simp: stailqs_def apart_def intro!: linked_init ends_init)

lemma stailq_concat_law:
  assumes q: "stailqs m L" and k: "h \<noteq> k"
  shows "yields (STAILQ_CONCAT h k m) (\<lambda>m'. stailqs m' (L(h := L h @ L k, k := [])) \<and> dom (field m') = dom (field m))"
proof (cases "L k")
  case Nil
  then show ?thesis using q stailqs_empty [OF q, of k] by (simp add: STAILQ_CONCAT_def fun_upd_idem)
next
  case (Cons y ys)
  have a: "apart L" and c: "linked (stailq_load m) L" and e: "ends_at (stailq_last m) L" using q by (simp_all add: stailqs_def)
  have f: "stailq_load m (First k) = Some (Some y)" using stailqs_cut [OF q, of k "[]" "L k"] Cons by simp
  have l: "stailq_load m (end_loc (First h) (L h)) = Some None" using stailqs_cut [OF q, of h "L h" "[]"] by simp
  have fin: "stailqs m' (L(h := L h @ y # ys, k := []))"
    if "stailq_load m' = (stailq_load m)(end_loc (First h) (L h) := Some (Some y), First k := Some None)"
      "stailq_last m' = (stailq_last m)(h := stailq_last m k, k := First k)" for m'
    using that linked_concat [OF a c k refl] ends_concat [OF e k] apart_concat [OF a k] f Cons by (simp add: stailqs_def)
  have full: "\<not> STAILQ_EMPTY k m" using stailqs_empty [OF q, of k] Cons by simp
  show ?thesis
    unfolding STAILQ_CONCAT_def if_P [OF full] stailqs_first [OF q] Cons stailq_reads
    by (intro stailq_steps; use l fin stailqs_end [OF q, of h] k in simp)
qed

lemma stailq_swap_law:
  assumes q: "stailqs m L" and k: "h \<noteq> k"
  shows "stailqs (STAILQ_SWAP h k m) (L(h := L k, k := L h)) \<and> dom (field (STAILQ_SWAP h k m)) = dom (field m)"
proof -
  have a: "apart L" and c: "linked (stailq_load m) L" and e: "ends_at (stailq_last m) L" using q by (simp_all add: stailqs_def)
  have f: "stailq_load m (First j) = Some (head_of (L j))" for j using stailqs_cut [OF q, of j "[]" "L j"] by simp
  define m2 where "m2 = m\<lparr>heads := (heads m)(h := \<lparr>stqh_first = STAILQ_FIRST k m, stqh_last = stailq_last m k\<rparr>,
    k := \<lparr>stqh_first = STAILQ_FIRST h m, stqh_last = stailq_last m h\<rparr>)\<rparr>"
  have load: "stailq_load m2 = (stailq_load m)(First h := Some (head_of (L k)), First k := Some (head_of (L h)))"
  proof
    show "stailq_load m2 l = ((stailq_load m)(First h := Some (head_of (L k)), First k := Some (head_of (L h)))) l" for l
      by (cases l) (auto simp: m2_def stailq_load_def stailqs_first [OF q])
  qed
  have m2: "stailq_last m2 = (stailq_last m)(h := stailq_last m k, k := stailq_last m h)" "field m2 = field m"
    by (auto simp: m2_def stailq_last_def fun_eq_iff)
  have empty: "STAILQ_EMPTY h m2 \<longleftrightarrow> L k = []" "STAILQ_EMPTY k m2 \<longleftrightarrow> L h = []"
    "STAILQ_EMPTY k (set_stqh_last h l m2) \<longleftrightarrow> L h = []" for l
    using k by (cases "L h"; cases "L k"; simp add: m2_def STAILQ_EMPTY_def stailqs_first [OF q] set_stqh_last_def)+
  have fin: "stailqs m' (L(h := L k, k := L h))" if "stailq_load m' = stailq_load m2"
    "stailq_last m' = (stailq_last m)(h := if L k = [] then First h else stailq_last m k,
      k := if L h = [] then First k else stailq_last m h)" for m'
    using that load linked_swap [OF a c, of h k] ends_swap [OF e k] apart_swap [OF a] f by (simp add: stailqs_def)
  have swap: "STAILQ_SWAP h k m =
      (let m3 = (if STAILQ_EMPTY h m2 then set_stqh_last h (First h) m2 else m2)
       in if STAILQ_EMPTY k m3 then set_stqh_last k (First k) m3 else m3)"
    by (simp add: STAILQ_SWAP_def Let_def m2_def)
  have "stailqs (STAILQ_SWAP h k m) (L(h := L k, k := L h))"
    by (rule fin) (use m2 k empty in \<open>auto simp: swap fun_eq_iff\<close>)
  moreover have "field (STAILQ_SWAP h k m) = field m" using m2 by (simp add: swap Let_def)
  ultimately show ?thesis by simp
qed

section \<open>Loops over a queue\<close>

lemma stailq_order:
  assumes "stailqs (q s) L" "L h = xs @ ys"
  shows "order (\<lambda>n s. STAILQ_NEXT n (q s)) s ys"
proof (rule orderI)
  fix us n vs
  assume "ys = us @ n # vs"
  then show "STAILQ_NEXT n (q s) = Some (head_of vs)"
    using stailqs_next [OF assms(1), of h "xs @ us" n vs] assms(2) by (simp add: STAILQ_NEXT_load)
qed

lemma stailq_loops_visit:
  assumes q: "\<And>s. I s \<Longrightarrow> stailqs (q s) L" and h: "L h = xs @ n # ys"
    and body: "\<And>k s. I s \<Longrightarrow> body k s = Some (f k s) \<and> I (f k s)" and s: "I s"
  shows "STAILQ_FOREACH q h body s = Some (fold f (xs @ n # ys) s)"
    and "STAILQ_FOREACH_SAFE q h body s = Some (fold f (xs @ n # ys) s)"
    and "STAILQ_FOREACH_FROM q h (Some n) body s = Some (fold f (n # ys) s)"
    and "STAILQ_FOREACH_FROM_SAFE q h (Some n) body s = Some (fold f (n # ys) s)"
proof -
  let ?nxt = "\<lambda>n s. STAILQ_NEXT n (q s)"
  have ord: "order ?nxt s (xs @ n # ys)" "order ?nxt s (n # ys)" if "I s" for s
    using stailq_order [where q = q and s = s, OF q [OF that], of h "[]"] stailq_order [where q = q and s = s, OF q [OF that] h] h
    by simp_all
  note run = foreach_fold [where I = I and body = body and f = f and nxt = ?nxt, OF _ _ s]
    foreach_safe_fold [where I = I and body = body and f = f and nxt = ?nxt, OF _ _ s]
  show "STAILQ_FOREACH q h body s = Some (fold f (xs @ n # ys) s)" "STAILQ_FOREACH_SAFE q h body s = Some (fold f (xs @ n # ys) s)"
    "STAILQ_FOREACH_FROM q h (Some n) body s = Some (fold f (n # ys) s)"
    "STAILQ_FOREACH_FROM_SAFE q h (Some n) body s = Some (fold f (n # ys) s)"
    using run [of "xs @ n # ys"] run [of "n # ys"] body ord stailqs_first [OF q [OF s], of h] h
    by (simp_all add: STAILQ_FOREACH_def STAILQ_FOREACH_SAFE_def STAILQ_FOREACH_FROM_def STAILQ_FOREACH_FROM_SAFE_def)
qed

section \<open>Properties\<close>

fun stailq_step :: "('h, 'n) edit \<Rightarrow> ('h, 'n) stailq \<Rightarrow> ('h, 'n) stailq option" where
  "stailq_step (Init h) m = Some (STAILQ_INIT h m)"
| "stailq_step (Insert_head h n) m = STAILQ_INSERT_HEAD h n m"
| "stailq_step (Insert_tail h n) m = STAILQ_INSERT_TAIL h n m"
| "stailq_step (Insert_after h x n) m = STAILQ_INSERT_AFTER h x n m"
| "stailq_step (Remove h n) m = STAILQ_REMOVE h n m"
| "stailq_step (Remove_head h) m = STAILQ_REMOVE_HEAD h m"
| "stailq_step (Remove_after h x) m = STAILQ_REMOVE_AFTER h x m"
| "stailq_step (Concat h k) m = STAILQ_CONCAT h k m"
| "stailq_step (Swap h k) m = Some (STAILQ_SWAP h k m)"
| "stailq_step (Insert_before h x n) m = None" \<comment> \<open>not offered for singly linked tail queues\<close>

fun stailq_offers :: "('h, 'n) edit \<Rightarrow> bool" where
  "stailq_offers (Insert_before h x n) \<longleftrightarrow> False"
| "stailq_offers e \<longleftrightarrow> True"

interpretation stailq_kind: list_kind stailq_step stailqs "\<lambda>m. dom (field m)" stailq_offers
proof
  fix m :: "('h, 'n) stailq" and L e L'
  assume q: "stailqs m L" and offers: "stailq_offers e" and ed: "edit_lists (dom (field m)) e L = Some L'"
  have alloc: "n \<in> dom (field m) \<longleftrightarrow> stailq_load m (Next n) \<noteq> None" for n by (auto simp: stailq_load_def)
  show "yields (stailq_step e m) (\<lambda>m'. stailqs m' L' \<and> dom (field m') = dom (field m))"
  proof (cases e)
    case (Insert_after h x n)
    then obtain xs ys where h: "L h = xs @ x # ys" and x: "x \<notin> set xs"
      using ed by (auto split: if_splits dest: split_list_first)
    then show ?thesis
      using stailq_insert_after_law [OF q h, of n] ed Insert_after by (simp add: put_after_split alloc split: if_splits)
  next
    case (Remove h n)
    then obtain xs ys where h: "L h = xs @ n # ys" and n: "n \<notin> set xs"
      using ed by (auto split: if_splits dest: split_list_first)
    then show ?thesis using stailq_remove_law [OF q h] ed Remove by (simp add: remove1_append split: if_splits)
  next
    case (Remove_head h)
    then obtain n ys where h: "L h = n # ys" using ed by (auto split: if_splits simp: neq_Nil_conv)
    then show ?thesis using stailq_remove_head_law [OF q h] ed Remove_head by auto
  next
    case (Remove_after h x)
    then have "x \<in> set (butlast (L h))" using ed by (auto split: if_splits)
    then obtain xs n ys where h: "L h = xs @ x # n # ys" "x \<notin> set xs" by (rule in_butlast_split)
    then show ?thesis
      using stailq_remove_after_law [OF q h(1)] ed Remove_after by (auto simp: drop_after_split split: if_splits)
  qed (use ed offers q stailq_init_law [OF q] stailq_insert_head_law [OF q] stailq_insert_tail_law [OF q]
      stailq_concat_law [OF q] stailq_swap_law [OF q] in \<open>auto simp: alloc split: if_splits\<close>)
qed

text \<open>
  C32: the singly linked tail queues refine lists: any sequence of their operations that makes sense on
  lists (new nodes are allocated and in no queue, the nodes named are in the queue), from empty queues,
  follows only live pointers, returns, and leaves the nodes that the same edits give on lists, in their
  order, with the last node where the header says.
\<close>

theorem stailq_refines_list:
  assumes "\<And>h. heads m h = STAILQ_HEAD_INITIALIZER h" and "list_all stailq_offers es"
    and "run_edits (edit_lists (dom (field m))) es (\<lambda>_. []) = Some L"
  shows "\<exists>m'. run_edits stailq_step es m = Some m' \<and> stailqs m' L \<and>
    (\<forall>h. STAILQ_FIRST h m' = head_of (L h) \<and> STAILQ_LAST h m' = Some (head_of (rev (L h))) \<and>
         STAILQ_EMPTY h m' = (L h = []))"
proof -
  have "stailqs m (\<lambda>_. [])"
    using assms(1) by (simp add: stailqs_def apart_def linked_def ends_at_def stailq_load_def stailq_last_def
        STAILQ_HEAD_INITIALIZER_def)
  from stailq_kind.run_law [OF this assms(2,3)] show ?thesis
    using stailqs_first stailqs_last stailqs_empty by (fastforce simp: yields_def)
qed

definition two_stailqs :: "(bool, nat) stailq" where
  "two_stailqs = \<lparr>heads = STAILQ_HEAD_INITIALIZER, field = (\<lambda>n. if n < 5 then Some \<lparr>stqe_next = None\<rparr> else None)\<rparr>"

definition stailq_edits :: "(bool, nat) edit list" where
  "stailq_edits = [Insert_tail True 0, Insert_head True 1, Insert_after True 0 2, Insert_tail False 3, Insert_tail False 4,
     Concat True False, Remove True 4, Remove_after True 0, Remove_head True, Swap True False]"

theorem stailq_refines_list_witness:
  "\<exists>m L. run_edits stailq_step stailq_edits two_stailqs = Some m \<and> stailqs m L \<and> L False = [0, 3] \<and> L True = [] \<and>
     STAILQ_FIRST False m = Some 0 \<and> STAILQ_LAST False m = Some (Some 3)"
proof -
  have nodes: "dom (field two_stailqs) = {0, 1, 2, 3, 4}" by (auto simp: two_stailqs_def split: if_splits)
  obtain L where L: "run_edits (edit_lists (dom (field two_stailqs))) stailq_edits (\<lambda>_. []) = Some L"
    "L False = [0, 3]" "L True = []" "list_all stailq_offers stailq_edits"
    by (simp add: nodes stailq_edits_def fresh_in_def all_bool_eq)
  from stailq_refines_list [OF _ L(4,1)] L(2,3) show ?thesis by (force simp: two_stailqs_def)
qed

end
