(* ===== verification/DoublyLinked.thy ===== *)
theory DoublyLinked
  imports Links "HOL-Library.Monad_Syntax"
begin

text \<open>
  The doubly linked lists of src/server/queue.h (\<open>LIST\<close>), which the server does not use: a node points
  back at the forward pointer to it, the head has the first node only.  All operations are proved to be
  the operations on lists of nodes.  The checking macros (\<open>QMD_LIST_CHECK\<close>), empty outside a
  kernel, are proved never to panic on such a list.
\<close>

section \<open>Structures\<close>

record 'n list_head =
  lh_first :: "'n option"

record ('h, 'n) list_entry =
  le_next :: "'n option"
  le_prev :: "('h, 'n) loc"

type_synonym ('h, 'n) dlist = "('h, 'n, 'n list_head, ('h, 'n) list_entry) links"

definition LIST_HEAD_INITIALIZER :: "'n list_head" where
  "LIST_HEAD_INITIALIZER = \<lparr>lh_first = None\<rparr>"

definition dlist_load :: "('h, 'n) dlist \<Rightarrow> ('h, 'n) loc \<Rightarrow> 'n option option" where
  "dlist_load = load_link lh_first le_next"

definition dlist_store :: "('h, 'n) loc \<Rightarrow> 'n option \<Rightarrow> ('h, 'n) dlist \<Rightarrow> ('h, 'n) dlist option" where
  "dlist_store = store_link lh_first_update le_next_update"

definition dlist_prev :: "('h, 'n) dlist \<Rightarrow> 'n \<Rightarrow> ('h, 'n) loc option" where
  "dlist_prev m n = map_option le_prev (field m n)"

definition set_le_prev :: "'n \<Rightarrow> ('h, 'n) loc \<Rightarrow> ('h, 'n) dlist \<Rightarrow> ('h, 'n) dlist option" where
  "set_le_prev n l m = map_option (\<lambda>e. m\<lparr>field := (field m)(n \<mapsto> e\<lparr>le_prev := l\<rparr>)\<rparr>) (field m n)"

section \<open>Operations\<close>

definition LIST_EMPTY :: "'h \<Rightarrow> ('h, 'n) dlist \<Rightarrow> bool" where
  "LIST_EMPTY h m \<longleftrightarrow> lh_first (heads m h) = None"

definition LIST_FIRST :: "'h \<Rightarrow> ('h, 'n) dlist \<Rightarrow> 'n option" where
  "LIST_FIRST h m = lh_first (heads m h)"

definition LIST_NEXT :: "'n \<Rightarrow> ('h, 'n) dlist \<Rightarrow> 'n option option" where
  "LIST_NEXT elm m = map_option le_next (field m elm)"

definition LIST_INIT :: "'h \<Rightarrow> ('h, 'n) dlist \<Rightarrow> ('h, 'n) dlist" where
  "LIST_INIT h m = m\<lparr>heads := (heads m)(h := (heads m h)\<lparr>lh_first := None\<rparr>)\<rparr>"

definition LIST_CONCAT :: "'h \<Rightarrow> 'h \<Rightarrow> ('h, 'n) dlist \<Rightarrow> ('h, 'n) dlist option" where
  "LIST_CONCAT head1 head2 m =
     (case LIST_FIRST head1 m of
        None \<Rightarrow> do {
          m1 \<leftarrow> dlist_store (First head1) (LIST_FIRST head2 m) m;
          if LIST_FIRST head1 m1 \<noteq> None
          then do {
            n \<leftarrow> LIST_FIRST head2 m1;
            m2 \<leftarrow> set_le_prev n (First head1) m1;
            Some (LIST_INIT head2 m2)
          }
          else Some m1
        }
      | Some curelm \<Rightarrow>
          if LIST_FIRST head2 m \<noteq> None
          then do {
            curelm \<leftarrow> walk_to_last (dlist_load m) curelm;
            m1 \<leftarrow> dlist_store (Next curelm) (LIST_FIRST head2 m) m;
            n \<leftarrow> LIST_FIRST head2 m1;
            m2 \<leftarrow> set_le_prev n (Next curelm) m1;
            Some (LIST_INIT head2 m2)
          }
          else Some m)"

definition LIST_INSERT_AFTER :: "'n \<Rightarrow> 'n \<Rightarrow> ('h, 'n) dlist \<Rightarrow> ('h, 'n) dlist option" where
  "LIST_INSERT_AFTER listelm elm m = do {
     v \<leftarrow> LIST_NEXT listelm m;
     m1 \<leftarrow> dlist_store (Next elm) v m;
     m2 \<leftarrow> (case v of Some x \<Rightarrow> set_le_prev x (Next elm) m1 | None \<Rightarrow> Some m1);
     m3 \<leftarrow> dlist_store (Next listelm) (Some elm) m2;
     set_le_prev elm (Next listelm) m3
   }"

definition LIST_INSERT_BEFORE :: "'n \<Rightarrow> 'n \<Rightarrow> ('h, 'n) dlist \<Rightarrow> ('h, 'n) dlist option" where
  "LIST_INSERT_BEFORE listelm elm m = do {
     l \<leftarrow> dlist_prev m listelm;
     m1 \<leftarrow> set_le_prev elm l m;
     m2 \<leftarrow> dlist_store (Next elm) (Some listelm) m1;
     l2 \<leftarrow> dlist_prev m2 listelm;
     m3 \<leftarrow> dlist_store l2 (Some elm) m2;
     set_le_prev listelm (Next elm) m3
   }"

definition LIST_INSERT_HEAD :: "'h \<Rightarrow> 'n \<Rightarrow> ('h, 'n) dlist \<Rightarrow> ('h, 'n) dlist option" where
  "LIST_INSERT_HEAD h elm m = do {
     m1 \<leftarrow> dlist_store (Next elm) (LIST_FIRST h m) m;
     m2 \<leftarrow> (case LIST_FIRST h m of Some x \<Rightarrow> set_le_prev x (Next elm) m1 | None \<Rightarrow> Some m1);
     m3 \<leftarrow> dlist_store (First h) (Some elm) m2;
     set_le_prev elm (First h) m3
   }"

text \<open>The node whose forward pointer is at \<open>le_prev\<close>; \<open>None\<close> where that is the head of another list.\<close>

definition LIST_PREV :: "'n \<Rightarrow> 'h \<Rightarrow> ('h, 'n) dlist \<Rightarrow> 'n option option" where
  "LIST_PREV elm h m =
     Option.bind (dlist_prev m elm) (\<lambda>l.
       if l = First h then Some None else case l of Next n \<Rightarrow> Some (Some n) | First k \<Rightarrow> None)"

definition LIST_REMOVE :: "'n \<Rightarrow> ('h, 'n) dlist \<Rightarrow> ('h, 'n) dlist option" where
  "LIST_REMOVE elm m = do {
     v \<leftarrow> LIST_NEXT elm m;
     l \<leftarrow> dlist_prev m elm;
     m1 \<leftarrow> (case v of Some x \<Rightarrow> set_le_prev x l m | None \<Rightarrow> Some m);
     l1 \<leftarrow> dlist_prev m1 elm;
     v1 \<leftarrow> LIST_NEXT elm m1;
     dlist_store l1 v1 m1
   }"

text \<open>The second half of \<open>LIST_SWAP\<close>, once for each head.\<close>

definition dlist_adopt :: "'h \<Rightarrow> ('h, 'n) dlist \<Rightarrow> ('h, 'n) dlist option" where
  "dlist_adopt h m =
     (case LIST_FIRST h m of Some swap_tmp \<Rightarrow> set_le_prev swap_tmp (First h) m | None \<Rightarrow> Some m)"

definition LIST_SWAP :: "'h \<Rightarrow> 'h \<Rightarrow> ('h, 'n) dlist \<Rightarrow> ('h, 'n) dlist option" where
  "LIST_SWAP head1 head2 m =
     (let swap_tmp = LIST_FIRST head1 m
      in do {
        m1 \<leftarrow> dlist_store (First head1) (LIST_FIRST head2 m) m;
        m2 \<leftarrow> dlist_store (First head2) swap_tmp m1;
        m3 \<leftarrow> dlist_adopt head1 m2;
        dlist_adopt head2 m3
      })"

text \<open>The loops, over a state \<open>'s\<close> with the lists \<open>q s\<close> in it that the body may change.\<close>

definition LIST_FOREACH :: "('s \<Rightarrow> ('h, 'n) dlist) \<Rightarrow> 'h \<Rightarrow> ('n \<Rightarrow> 's \<Rightarrow> 's option) \<Rightarrow> 's \<Rightarrow> 's option" where
  "LIST_FOREACH q h body s = foreach (\<lambda>n s. LIST_NEXT n (q s)) body (LIST_FIRST h (q s)) s"

definition LIST_FOREACH_FROM :: "('s \<Rightarrow> ('h, 'n) dlist) \<Rightarrow> 'h \<Rightarrow> 'n option \<Rightarrow> ('n \<Rightarrow> 's \<Rightarrow> 's option) \<Rightarrow> 's \<Rightarrow>
    's option" where
  "LIST_FOREACH_FROM q h var body s =
     foreach (\<lambda>n s. LIST_NEXT n (q s)) body (if var \<noteq> None then var else LIST_FIRST h (q s)) s"

definition LIST_FOREACH_SAFE :: "('s \<Rightarrow> ('h, 'n) dlist) \<Rightarrow> 'h \<Rightarrow> ('n \<Rightarrow> 's \<Rightarrow> 's option) \<Rightarrow> 's \<Rightarrow> 's option" where
  "LIST_FOREACH_SAFE q h body s = foreach_safe (\<lambda>n s. LIST_NEXT n (q s)) body (LIST_FIRST h (q s)) s"

definition LIST_FOREACH_FROM_SAFE :: "('s \<Rightarrow> ('h, 'n) dlist) \<Rightarrow> 'h \<Rightarrow> 'n option \<Rightarrow> ('n \<Rightarrow> 's \<Rightarrow> 's option) \<Rightarrow> 's \<Rightarrow>
    's option" where
  "LIST_FOREACH_FROM_SAFE q h var body s =
     foreach_safe (\<lambda>n s. LIST_NEXT n (q s)) body (if var \<noteq> None then var else LIST_FIRST h (q s)) s"

text \<open>
  The conditions that a kernel built with \<open>INVARIANTS\<close> checks before an operation, where they do not
  fail; a failing check panics.
\<close>

definition QMD_LIST_CHECK_HEAD :: "'h \<Rightarrow> ('h, 'n) dlist \<Rightarrow> bool" where
  "QMD_LIST_CHECK_HEAD h m \<longleftrightarrow>
     (case LIST_FIRST h m of None \<Rightarrow> True | Some n \<Rightarrow> dlist_prev m n = Some (First h))"

definition QMD_LIST_CHECK_NEXT :: "'n \<Rightarrow> ('h, 'n) dlist \<Rightarrow> bool" where
  "QMD_LIST_CHECK_NEXT elm m \<longleftrightarrow>
     (case LIST_NEXT elm m of None \<Rightarrow> False
      | Some v \<Rightarrow> (case v of None \<Rightarrow> True | Some n \<Rightarrow> dlist_prev m n = Some (Next elm)))"

definition QMD_LIST_CHECK_PREV :: "'n \<Rightarrow> ('h, 'n) dlist \<Rightarrow> bool" where
  "QMD_LIST_CHECK_PREV elm m \<longleftrightarrow> Option.bind (dlist_prev m elm) (dlist_load m) = Some (Some elm)"

section \<open>What the operations write\<close>

lemma dlist_init [simp]:
  "dlist_load (LIST_INIT h m) = (dlist_load m)(First h := Some None)" "dlist_prev (LIST_INIT h m) = dlist_prev m"
  "field (LIST_INIT h m) = field m"
proof -
  show "dlist_load (LIST_INIT h m) = (dlist_load m)(First h := Some None)"
  proof
    show "dlist_load (LIST_INIT h m) k = ((dlist_load m)(First h := Some None)) k" for k
      by (cases k) (auto simp: dlist_load_def LIST_INIT_def)
  qed
qed (simp_all add: LIST_INIT_def dlist_prev_def fun_eq_iff)

lemma dlist_store_yields:
  assumes l: "dlist_load m l \<noteq> None"
    and P: "\<And>m'. dlist_load m' = (dlist_load m)(l := Some v) \<Longrightarrow> dlist_prev m' = dlist_prev m \<Longrightarrow>
      dom (field m') = dom (field m) \<Longrightarrow> P m'"
  shows "yields (dlist_store l v m) P"
proof -
  from store_defined [OF l [unfolded dlist_load_def]]
  obtain m' where m': "store_link lh_first_update le_next_update l v m = Some m'" by blast
  have "P m'"
    by (rule P) (use load_store [OF m'] store_field [OF m', of le_prev] store_dom [OF m'] in
      \<open>simp_all add: dlist_load_def dlist_prev_def fun_eq_iff\<close>)
  then show ?thesis using m' by (simp add: dlist_store_def)
qed

lemma set_le_prev_yields:
  assumes n: "dlist_load m (Next n) \<noteq> None"
    and P: "\<And>m'. dlist_load m' = dlist_load m \<Longrightarrow> dlist_prev m' = (dlist_prev m)(n := Some l) \<Longrightarrow>
      dom (field m') = dom (field m) \<Longrightarrow> P m'"
  shows "yields (set_le_prev n l m) P"
proof -
  obtain e where e: "field m n = Some e" using n by (auto simp: dlist_load_def)
  let ?m = "m\<lparr>field := (field m)(n \<mapsto> e\<lparr>le_prev := l\<rparr>)\<rparr>"
  have "P ?m"
  proof (rule P)
    show "dlist_load ?m = dlist_load m"
    proof
      show "dlist_load ?m k = dlist_load m k" for k using e by (cases k) (auto simp: dlist_load_def)
    qed
  qed (use e in \<open>auto simp: dlist_prev_def fun_eq_iff\<close>)
  then show ?thesis using e by (simp add: set_le_prev_def)
qed

lemma LIST_NEXT_load: "LIST_NEXT n m = dlist_load m (Next n)"
  by (simp add: LIST_NEXT_def dlist_load_def)

lemma LIST_FIRST_load: "dlist_load m (First h) = Some (LIST_FIRST h m)"
  by (simp add: LIST_FIRST_def dlist_load_def)

lemma dlist_prev_yields: "dlist_prev m n \<noteq> None \<Longrightarrow> P (the (dlist_prev m n)) \<Longrightarrow> yields (dlist_prev m n) P"
  by auto

lemma dlist_load_yields: "dlist_load m l \<noteq> None \<Longrightarrow> P (the (dlist_load m l)) \<Longrightarrow> yields (dlist_load m l) P"
  by auto

lemma dlist_first_yields: "LIST_FIRST h m \<noteq> None \<Longrightarrow> P (the (LIST_FIRST h m)) \<Longrightarrow> yields (LIST_FIRST h m) P"
  by auto

lemmas dlist_steps = yields_bind dlist_first_yields dlist_prev_yields dlist_load_yields dlist_store_yields
  set_le_prev_yields yields_Some [THEN iffD2]
lemmas dlist_reads = LIST_NEXT_load head_of_simps option.case Option.bind.bind_lunit

section \<open>The lists of nodes\<close>

definition dlists :: "('h, 'n) dlist \<Rightarrow> ('h \<Rightarrow> 'n list) \<Rightarrow> bool" where
  "dlists m L \<longleftrightarrow> apart L \<and> linked (dlist_load m) L \<and> linked_back (dlist_prev m) L"

lemma dlists_alloc:
  assumes "dlists m L" "n \<in> set (L h)"
  shows "dlist_load m (Next n) \<noteq> None"
proof -
  have "path (dlist_load m) (First h) (L h) None" using assms(1) by (simp add: dlists_def linked_def)
  then show ?thesis using assms(2) by (rule path_alloc)
qed

lemma dlists_cut:
  assumes "dlists m L" "L h = xs @ ys"
  shows "dlist_load m (end_loc (First h) xs) = Some (head_of ys)"
proof -
  have "apart L" and "linked (dlist_load m) L" using assms(1) by (simp_all add: dlists_def)
  then show ?thesis using assms(2) by (rule linked_cut(3))
qed

lemma dlists_first: "dlists m L \<Longrightarrow> LIST_FIRST h m = head_of (L h)"
  using dlists_cut [of m L h "[]" "L h"] by (simp add: LIST_FIRST_load)

lemma dlists_empty: "dlists m L \<Longrightarrow> LIST_EMPTY h m \<longleftrightarrow> L h = []"
  using dlists_first [of m L h] by (cases "L h") (auto simp: LIST_EMPTY_def LIST_FIRST_def)

lemma dlists_path: "dlists m L \<Longrightarrow> L h = x # xs \<Longrightarrow> path (dlist_load m) (Next x) xs None"
  by (auto simp: dlists_def linked_def dest: spec [of _ h])

lemma dlists_node:
  assumes "dlists m L" "L h = xs @ n # ys"
  shows "dlist_load m (Next n) = Some (head_of ys)" "dlist_prev m n = Some (end_loc (First h) xs)"
    "dlist_load m (end_loc (First h) xs) = Some (Some n)" "\<And>y zs. ys = y # zs \<Longrightarrow> dlist_load m (Next y) \<noteq> None"
proof -
  show "dlist_load m (Next n) = Some (head_of ys)" using dlists_cut [OF assms(1), of h "xs @ [n]" ys] assms(2) by simp
  show "dlist_prev m n = Some (end_loc (First h) xs)"
  proof -
    have "backs (dlist_prev m) (First h) (L h)" using assms(1) by (simp add: dlists_def linked_back_def)
    then show ?thesis using assms(2) by (simp add: backs_append)
  qed
  show "dlist_load m (end_loc (First h) xs) = Some (Some n)" using dlists_cut [OF assms] by simp
  show "dlist_load m (Next y) \<noteq> None" if "ys = y # zs" for y zs
    using that dlists_alloc [OF assms(1), of y h] assms(2) by simp
qed

lemma dlists_neighbours:
  assumes "dlists m L" "L h = xs @ n # ys"
  shows "LIST_NEXT n m = Some (head_of ys)" "LIST_PREV n h m = Some (head_of (rev xs))"
  using dlists_node [OF assms] by (cases xs rule: rev_cases; simp add: LIST_NEXT_load LIST_PREV_def)+

lemma dlist_checks_pass:
  assumes q: "dlists m L" and n: "n \<in> set (L h)"
  shows "QMD_LIST_CHECK_HEAD h m" "QMD_LIST_CHECK_NEXT n m" "QMD_LIST_CHECK_PREV n m"
proof -
  obtain xs ys where h: "L h = xs @ n # ys" using n by (meson split_list)
  obtain y zs where y: "L h = y # zs" using n by (cases "L h") auto
  show "QMD_LIST_CHECK_HEAD h m"
    using dlists_first [OF q, of h] dlists_node(2) [OF q, of h "[]" y zs] y by (simp add: QMD_LIST_CHECK_HEAD_def)
  show "QMD_LIST_CHECK_NEXT n m"
    using dlists_node(1) [OF q h] dlists_node(2) [OF q, of h "xs @ [n]"] h
    by (cases ys) (auto simp: QMD_LIST_CHECK_NEXT_def LIST_NEXT_load)
  show "QMD_LIST_CHECK_PREV n m"
    using dlists_node(2,3) [OF q h] by (simp add: QMD_LIST_CHECK_PREV_def)
qed

lemma dlists_insert:
  assumes q: "dlists m L" and h: "L h = xs @ ys" and n: "fresh_in L n"
    and w: "dlist_load m' = (dlist_load m)(Next n := Some (head_of ys), end_loc (First h) xs := Some (Some n))"
      "dlist_prev m' n = Some (end_loc (First h) xs)" "\<And>y zs. ys = y # zs \<Longrightarrow> dlist_prev m' y = Some (Next n)"
      "\<And>k. k \<noteq> n \<Longrightarrow> Some k \<noteq> head_of ys \<Longrightarrow> dlist_prev m' k = dlist_prev m k"
  shows "dlists m' (L(h := xs @ n # ys))"
proof -
  have a: "apart L" and c: "linked (dlist_load m) L" and b: "linked_back (dlist_prev m) L" using q by (simp_all add: dlists_def)
  have "apart (L(h := xs @ n # ys))"
    by (rule apart_update [OF a]) (use apart_distinct [OF a, of h] n h in \<open>auto simp: fresh_in_def dest: spec [of _ h]\<close>)
  moreover have "linked (dlist_load m') (L(h := xs @ n # ys))"
    using linked_insert [OF a c h n refl] w(1) dlists_cut [OF q h] by simp
  moreover have "linked_back (dlist_prev m') (L(h := xs @ n # ys))" by (rule backs_insert [OF a b h n w(2-4)])
  ultimately show ?thesis by (simp add: dlists_def)
qed

lemma dlist_insert_after_law:
  assumes q: "dlists m L" and h: "L h = xs @ x # ys" and n: "fresh_in L n" "dlist_load m (Next n) \<noteq> None"
  shows "yields (LIST_INSERT_AFTER x n m) (\<lambda>m'. dlists m' (L(h := xs @ x # n # ys)) \<and> dom (field m') = dom (field m))"
proof -
  note x = dlists_node [OF q h]
  have ne: "n \<noteq> x" "\<And>y zs. ys = y # zs \<Longrightarrow> y \<noteq> n" using n(1) h by (auto simp: fresh_in_def dest: spec [of _ h])
  note fin = dlists_insert [OF q, of h "xs @ [x]" ys n, simplified, OF h n(1)]
  show ?thesis
  proof (cases ys)
    case Nil
    show ?thesis
      unfolding LIST_INSERT_AFTER_def dlist_reads x(1) Nil by (intro dlist_steps; use Nil ne n x fin in simp)
  next
    case (Cons y zs)
    show ?thesis
      unfolding LIST_INSERT_AFTER_def dlist_reads x(1) Cons by (intro dlist_steps; use Cons ne n x fin in simp)
  qed
qed

lemma dlist_insert_before_law:
  assumes q: "dlists m L" and h: "L h = xs @ x # ys" and n: "fresh_in L n" "dlist_load m (Next n) \<noteq> None"
  shows "yields (LIST_INSERT_BEFORE x n m) (\<lambda>m'. dlists m' (L(h := xs @ n # x # ys)) \<and> dom (field m') = dom (field m))"
proof -
  note x = dlists_node [OF q h]
  have ne: "n \<noteq> x" "x \<noteq> n" "n \<notin> set xs" using n(1) h by (auto simp: fresh_in_def dest: spec [of _ h])
  then have ne2: "end_loc (First h) xs \<noteq> Next n" by (intro end_loc_not_next) auto
  note fin = dlists_insert [OF q h n(1)]
  show ?thesis
    unfolding LIST_INSERT_BEFORE_def x(2) Option.bind.bind_lunit
    by (intro dlist_steps; use ne ne2 n x fin in simp)
qed

lemma dlist_insert_head_law:
  assumes q: "dlists m L" and n: "fresh_in L n" "dlist_load m (Next n) \<noteq> None"
  shows "yields (LIST_INSERT_HEAD h n m) (\<lambda>m'. dlists m' (L(h := n # L h)) \<and> dom (field m') = dom (field m))"
proof -
  note fin = dlists_insert [OF q, of h "[]" "L h" n, simplified, OF n(1)]
  have f: "dlist_load m (First h) = Some (head_of (L h))" using dlists_cut [OF q, of h "[]" "L h"] by simp
  show ?thesis
  proof (cases "L h")
    case Nil
    show ?thesis
      unfolding LIST_INSERT_HEAD_def dlist_reads dlists_first [OF q] Nil by (intro dlist_steps; use Nil n f fin in simp)
  next
    case (Cons y zs)
    then have "y \<noteq> n" "dlist_load m (Next y) \<noteq> None"
      using n(1) dlists_alloc [OF q, of y h] by (auto simp: fresh_in_def dest: spec [of _ h])
    then show ?thesis
      unfolding LIST_INSERT_HEAD_def dlist_reads dlists_first [OF q] Cons by (intro dlist_steps; use Cons n f fin in simp)
  qed
qed

lemma dlist_remove_law:
  assumes q: "dlists m L" and h: "L h = xs @ n # ys"
  shows "yields (LIST_REMOVE n m) (\<lambda>m'. dlists m' (L(h := xs @ ys)) \<and> dom (field m') = dom (field m))"
proof -
  note x = dlists_node [OF q h]
  have a: "apart L" and c: "linked (dlist_load m) L" and b: "linked_back (dlist_prev m) L" using q by (simp_all add: dlists_def)
  have d: "distinct (L h)" by (rule apart_distinct [OF a])
  have fin: "dlists m' (L(h := xs @ ys))" if
    "dlist_load m' = (dlist_load m)(end_loc (First h) xs := Some (head_of ys))"
    "\<And>y zs. ys = y # zs \<Longrightarrow> dlist_prev m' y = dlist_prev m n"
    "\<And>k. Some k \<noteq> head_of ys \<Longrightarrow> dlist_prev m' k = dlist_prev m k" for m'
  proof -
    have "apart (L(h := xs @ ys))" by (rule apart_update [OF a]) (use d h in auto)
    moreover have "linked (dlist_load m') (L(h := xs @ ys))" using linked_remove [OF a c h refl] that(1) x(1) by simp
    ultimately show ?thesis using backs_remove [OF a b h that(2,3)] by (simp add: dlists_def)
  qed
  show ?thesis
  proof (cases ys)
    case Nil
    show ?thesis
      unfolding LIST_REMOVE_def dlist_reads x(1,2) Nil by (intro dlist_steps; use Nil x fin in simp)
  next
    case (Cons y zs)
    have "y \<noteq> n" using d h Cons by auto
    then show ?thesis
      unfolding LIST_REMOVE_def dlist_reads x(1,2) Cons by (intro dlist_steps; use Cons x fin in simp)
  qed
qed

lemma dlist_init_law: "dlists m L \<Longrightarrow> dlists (LIST_INIT h m) (L(h := []))"
  by (auto simp: dlists_def apart_def intro!: linked_init backs_init)

lemma dlist_concat_law:
  assumes q: "dlists m L" and k: "h \<noteq> k"
  shows "yields (LIST_CONCAT h k m) (\<lambda>m'. dlists m' (L(h := L h @ L k, k := [])) \<and> dom (field m') = dom (field m))"
proof -
  have a: "apart L" and c: "linked (dlist_load m) L" and b: "linked_back (dlist_prev m) L" using q by (simp_all add: dlists_def)
  have l: "dlist_load m (end_loc (First h) (L h)) = Some None" using dlists_cut [OF q, of h "L h" "[]"] by simp
  show ?thesis
  proof (cases "L k")
    case Nil
    then have same: "L(h := L h @ L k, k := []) = L" by (simp add: fun_upd_idem)
    show ?thesis
    proof (cases "L h")
      case Nil
      have idle: "(dlist_load m)(First h := Some None) = dlist_load m" using l Nil by (simp add: fun_upd_idem)
      have read: "LIST_FIRST h m' = None" if "dlist_load m' = dlist_load m" for m'
        using LIST_FIRST_load [of m' h] that l Nil by simp
      have fin: "dlists m' L" if "dlist_load m' = dlist_load m" "dlist_prev m' = dlist_prev m" for m'
        using that q by (simp add: dlists_def)
      show ?thesis
        unfolding LIST_CONCAT_def dlists_first [OF q] \<open>L k = []\<close> Nil dlist_reads
        by (intro dlist_steps; use l fin read Nil idle same \<open>L k = []\<close> in simp)
    next
      case (Cons x xs)
      then show ?thesis using q \<open>L k = []\<close> dlists_first [OF q] same by (simp add: LIST_CONCAT_def)
    qed
  next
    case (Cons y ys)
    have f: "dlist_load m (First k) = Some (Some y)" using dlists_cut [OF q, of k "[]" "L k"] Cons by simp
    have y: "dlist_load m (Next y) \<noteq> None" using dlists_alloc [OF q, of y k] Cons by simp
    have fin: "dlists m' (L(h := L h @ y # ys, k := []))"
      if "dlist_load m' = (dlist_load m)(end_loc (First h) (L h) := Some (Some y), First k := Some None)"
        "dlist_prev m' = (dlist_prev m)(y := Some (end_loc (First h) (L h)))" for m'
      using that linked_concat [OF a c k refl] backs_concat [OF a b k, of "dlist_prev m'"] apart_concat [OF a k] f Cons
      by (simp add: dlists_def)
    have ne: "end_loc (First h) (L h) \<noteq> First k" using end_loc_not_first [of h "L h" k] k by auto
    have read: "LIST_FIRST k m' = Some y" "LIST_FIRST h m' \<noteq> None \<longleftrightarrow> dlist_load m' (First h) \<noteq> Some None"
      if "dlist_load m' = (dlist_load m)(end_loc (First h) (L h) := Some (Some y))" for m'
      using LIST_FIRST_load [of m' k] LIST_FIRST_load [of m' h] that f ne by auto
    show ?thesis
    proof (cases "L h")
      case Nil
      have read: "LIST_FIRST k m' = Some y" "LIST_FIRST h m' = Some y"
        if "dlist_load m' = (dlist_load m)(First h := Some (Some y))" for m'
        using LIST_FIRST_load [of m' k] LIST_FIRST_load [of m' h] that f k by auto
      have "yields (if LIST_FIRST h m' \<noteq> None then r else Some m') P"
        if "dlist_load m' = (dlist_load m)(First h := Some (Some y))" "yields r P" for m' r P
        using read(2) [OF that(1)] that(2) by simp
      note choice = this
      show ?thesis
        unfolding LIST_CONCAT_def dlists_first [OF q] Cons Nil dlist_reads
        by (intro yields_bind dlist_store_yields choice dlist_steps; use l f y fin read Nil in simp)
    next
      case (Cons x xs)
      have walk: "walk_to_last (dlist_load m) x = Some (last (x # xs))"
        by (rule walk_to_last) (rule dlists_path [OF q Cons])
      have e: "Next (last (x # xs)) = end_loc (First h) (L h)" unfolding Cons by (rule end_loc_last [symmetric])
      have some: "Some y \<noteq> None" by simp
      show ?thesis
        unfolding LIST_CONCAT_def dlists_first [OF q] \<open>L k = y # ys\<close> Cons dlist_reads walk if_P [OF some]
        unfolding e unfolding Cons [symmetric] append_Cons [symmetric]
        by (intro dlist_steps; use l f y fin read ne in simp)
    qed
  qed
qed

lemma dlist_adopt_yields:
  assumes first: "LIST_FIRST h m = head_of ns" and y: "\<And>y zs. ns = y # zs \<Longrightarrow> dlist_load m (Next y) \<noteq> None"
    and P: "\<And>m'. dlist_load m' = dlist_load m \<Longrightarrow>
      dlist_prev m' = (case ns of [] \<Rightarrow> dlist_prev m | y # _ \<Rightarrow> (dlist_prev m)(y := Some (First h))) \<Longrightarrow>
      dom (field m') = dom (field m) \<Longrightarrow> P m'"
  shows "yields (dlist_adopt h m) P"
proof (cases ns)
  case Nil
  then show ?thesis using first P by (simp add: dlist_adopt_def)
next
  case (Cons y zs)
  then show ?thesis
    unfolding dlist_adopt_def first Cons head_of_simps option.case
    by (intro set_le_prev_yields P) (use y Cons in auto)
qed

lemma dlist_swap_law:
  assumes q: "dlists m L" and k: "h \<noteq> k"
  shows "yields (LIST_SWAP h k m) (\<lambda>m'. dlists m' (L(h := L k, k := L h)) \<and> dom (field m') = dom (field m))"
proof -
  have a: "apart L" and c: "linked (dlist_load m) L" and b: "linked_back (dlist_prev m) L" using q by (simp_all add: dlists_def)
  have f: "dlist_load m (First j) = Some (head_of (L j))" for j using dlists_cut [OF q, of j "[]" "L j"] by simp
  define ld where "ld = (dlist_load m)(First h := Some (head_of (L k)), First k := Some (head_of (L h)))"
  have first: "LIST_FIRST h m' = head_of (L k)" "LIST_FIRST k m' = head_of (L h)" if "dlist_load m' = ld" for m'
    using k LIST_FIRST_load [of m' h] LIST_FIRST_load [of m' k] that by (auto simp: ld_def)
  have y: "ld (Next y) \<noteq> None" if "L j = y # zs" for j y zs
    using dlists_alloc [OF q, of y j] that by (simp add: ld_def)
  have dist: "y \<noteq> y'" if "L h = y # zs" "L k = y' # zs'" for y zs y' zs'
    using apart_other [OF a, of y h k] k that by auto
  have fin: "dlists m' (L(h := L k, k := L h))" if "dlist_load m' = ld"
    "\<And>y zs. L k = y # zs \<Longrightarrow> dlist_prev m' y = Some (First h)" "\<And>y zs. L h = y # zs \<Longrightarrow> dlist_prev m' y = Some (First k)"
    "\<And>j. Some j \<noteq> head_of (L h) \<Longrightarrow> Some j \<noteq> head_of (L k) \<Longrightarrow> dlist_prev m' j = dlist_prev m j" for m'
    using that(1) linked_swap [OF a c, of h k] backs_swap [OF a b k that(2-4)] apart_swap [OF a] f
    by (simp add: dlists_def ld_def)
  have halves: "yields (dlist_adopt h m2) (\<lambda>m3. yields (dlist_adopt k m3)
      (\<lambda>m'. dlists m' (L(h := L k, k := L h)) \<and> dom (field m') = dom (field m)))"
    if m2: "dlist_load m2 = ld" "dlist_prev m2 = dlist_prev m" "dom (field m2) = dom (field m)" for m2
  proof (rule dlist_adopt_yields [where ns = "L k"])
    show "LIST_FIRST h m2 = head_of (L k)" by (rule first) (rule m2)
    show "dlist_load m2 (Next y) \<noteq> None" if "L k = y # zs" for y zs using y [OF that] m2 by simp
    fix m3
    assume m3: "dlist_load m3 = dlist_load m2"
      "dlist_prev m3 = (case L k of [] \<Rightarrow> dlist_prev m2 | y # _ \<Rightarrow> (dlist_prev m2)(y := Some (First h)))"
      "dom (field m3) = dom (field m2)"
    show "yields (dlist_adopt k m3) (\<lambda>m'. dlists m' (L(h := L k, k := L h)) \<and> dom (field m') = dom (field m))"
    proof (rule dlist_adopt_yields [where ns = "L h"])
      show "LIST_FIRST k m3 = head_of (L h)" by (rule first(2)) (use m2 m3 in simp)
      show "dlist_load m3 (Next y) \<noteq> None" if "L h = y # zs" for y zs using y [OF that] m2 m3 by simp
      fix m4
      assume m4: "dlist_load m4 = dlist_load m3"
        "dlist_prev m4 = (case L h of [] \<Rightarrow> dlist_prev m3 | y # _ \<Rightarrow> (dlist_prev m3)(y := Some (First k)))"
        "dom (field m4) = dom (field m3)"
      have "dlists m4 (L(h := L k, k := L h))"
        by (rule fin) (use m2 m3 m4 k dist in \<open>auto split: list.splits if_splits\<close>)
      then show "dlists m4 (L(h := L k, k := L h)) \<and> dom (field m4) = dom (field m)" using m2 m3 m4 by simp
    qed
  qed
  show ?thesis
    unfolding LIST_SWAP_def Let_def dlists_first [OF q]
    by (intro yields_bind dlist_store_yields halves; use f in \<open>simp add: ld_def\<close>)
qed

section \<open>Loops over a list\<close>

lemma dlist_order:
  assumes "dlists (q s) L" "L h = xs @ ys"
  shows "order (\<lambda>n s. LIST_NEXT n (q s)) s ys"
proof (rule orderI)
  fix us n vs
  assume "ys = us @ n # vs"
  then show "LIST_NEXT n (q s) = Some (head_of vs)"
    using dlists_neighbours(1) [OF assms(1), of h "xs @ us" n vs] assms(2) by simp
qed

lemma dlist_loops_visit:
  assumes q: "\<And>s. I s \<Longrightarrow> dlists (q s) L" and h: "L h = xs @ n # ys"
    and body: "\<And>k s. I s \<Longrightarrow> body k s = Some (f k s) \<and> I (f k s)" and s: "I s"
  shows "LIST_FOREACH q h body s = Some (fold f (xs @ n # ys) s)"
    and "LIST_FOREACH_SAFE q h body s = Some (fold f (xs @ n # ys) s)"
    and "LIST_FOREACH_FROM q h (Some n) body s = Some (fold f (n # ys) s)"
    and "LIST_FOREACH_FROM_SAFE q h (Some n) body s = Some (fold f (n # ys) s)"
proof -
  let ?nxt = "\<lambda>n s. LIST_NEXT n (q s)"
  have ord: "order ?nxt s (xs @ n # ys)" "order ?nxt s (n # ys)" if "I s" for s
    using dlist_order [where q = q and s = s, OF q [OF that], of h "[]"] dlist_order [where q = q and s = s, OF q [OF that] h] h
    by simp_all
  note run = foreach_fold [where I = I and body = body and f = f and nxt = ?nxt, OF _ _ s]
    foreach_safe_fold [where I = I and body = body and f = f and nxt = ?nxt, OF _ _ s]
  show "LIST_FOREACH q h body s = Some (fold f (xs @ n # ys) s)" "LIST_FOREACH_SAFE q h body s = Some (fold f (xs @ n # ys) s)"
    "LIST_FOREACH_FROM q h (Some n) body s = Some (fold f (n # ys) s)"
    "LIST_FOREACH_FROM_SAFE q h (Some n) body s = Some (fold f (n # ys) s)"
    using run [of "xs @ n # ys"] run [of "n # ys"] body ord dlists_first [OF q [OF s], of h] h
    by (simp_all add: LIST_FOREACH_def LIST_FOREACH_SAFE_def LIST_FOREACH_FROM_def LIST_FOREACH_FROM_SAFE_def)
qed

section \<open>Properties\<close>

fun dlist_step :: "('h, 'n) edit \<Rightarrow> ('h, 'n) dlist \<Rightarrow> ('h, 'n) dlist option" where
  "dlist_step (Init h) m = Some (LIST_INIT h m)"
| "dlist_step (Insert_head h n) m = LIST_INSERT_HEAD h n m"
| "dlist_step (Insert_after h x n) m = LIST_INSERT_AFTER x n m"
| "dlist_step (Insert_before h x n) m = LIST_INSERT_BEFORE x n m"
| "dlist_step (Remove h n) m = LIST_REMOVE n m"
| "dlist_step (Concat h k) m = LIST_CONCAT h k m"
| "dlist_step (Swap h k) m = LIST_SWAP h k m"
| "dlist_step (Insert_tail h n) m = None" \<comment> \<open>not offered for doubly linked lists\<close>
| "dlist_step (Remove_head h) m = None"
| "dlist_step (Remove_after h x) m = None"

fun dlist_offers :: "('h, 'n) edit \<Rightarrow> bool" where
  "dlist_offers (Insert_tail h n) \<longleftrightarrow> False"
| "dlist_offers (Remove_head h) \<longleftrightarrow> False"
| "dlist_offers (Remove_after h x) \<longleftrightarrow> False"
| "dlist_offers e \<longleftrightarrow> True"

interpretation dlist_kind: list_kind dlist_step dlists "\<lambda>m. dom (field m)" dlist_offers
proof
  fix m :: "('h, 'n) dlist" and L e L'
  assume q: "dlists m L" and offers: "dlist_offers e" and ed: "edit_lists (dom (field m)) e L = Some L'"
  have alloc: "n \<in> dom (field m) \<longleftrightarrow> dlist_load m (Next n) \<noteq> None" for n by (auto simp: dlist_load_def)
  show "yields (dlist_step e m) (\<lambda>m'. dlists m' L' \<and> dom (field m') = dom (field m))"
  proof (cases e)
    case (Insert_after h x n)
    then obtain xs ys where h: "L h = xs @ x # ys" and x: "x \<notin> set xs"
      using ed by (auto split: if_splits dest: split_list_first)
    then show ?thesis
      using dlist_insert_after_law [OF q h, of n] ed Insert_after by (simp add: put_after_split alloc split: if_splits)
  next
    case (Insert_before h x n)
    then obtain xs ys where h: "L h = xs @ x # ys" and x: "x \<notin> set xs"
      using ed by (auto split: if_splits dest: split_list_first)
    then show ?thesis
      using dlist_insert_before_law [OF q h, of n] ed Insert_before by (simp add: put_before_split alloc split: if_splits)
  next
    case (Remove h n)
    then obtain xs ys where h: "L h = xs @ n # ys" and n: "n \<notin> set xs"
      using ed by (auto split: if_splits dest: split_list_first)
    then show ?thesis using dlist_remove_law [OF q h] ed Remove by (simp add: remove1_append split: if_splits)
  qed (use ed offers q dlist_init_law [OF q] dlist_insert_head_law [OF q] dlist_concat_law [OF q] dlist_swap_law [OF q] in
    \<open>auto simp: alloc split: if_splits\<close>)
qed

text \<open>
  C33: the doubly linked lists refine lists: any sequence of their operations that makes sense on lists
  (new nodes are allocated and in no list, the nodes named are in the list), from empty lists, follows
  only live pointers, returns, and leaves the nodes that the same edits give on lists, in their order,
  each with its successor and its predecessor where the header says.
\<close>

theorem dlist_refines_list:
  assumes "\<And>h. heads m h = LIST_HEAD_INITIALIZER" and "list_all dlist_offers es"
    and "run_edits (edit_lists (dom (field m))) es (\<lambda>_. []) = Some L"
  shows "\<exists>m'. run_edits dlist_step es m = Some m' \<and> dlists m' L \<and>
    (\<forall>h. LIST_FIRST h m' = head_of (L h) \<and> LIST_EMPTY h m' = (L h = [])) \<and>
    (\<forall>h xs n ys. L h = xs @ n # ys \<longrightarrow>
       LIST_NEXT n m' = Some (head_of ys) \<and> LIST_PREV n h m' = Some (head_of (rev xs)))"
proof -
  have "dlists m (\<lambda>_. [])"
    using assms(1) by (simp add: dlists_def apart_def linked_def linked_back_def dlist_load_def LIST_HEAD_INITIALIZER_def)
  from dlist_kind.run_law [OF this assms(2,3)] obtain m' where "run_edits dlist_step es m = Some m'" "dlists m' L"
    by (auto simp: yields_def)
  moreover from this(2) have "LIST_FIRST h m' = head_of (L h)" "LIST_EMPTY h m' = (L h = [])" for h
    by (simp_all add: dlists_first dlists_empty)
  moreover have "LIST_NEXT n m' = Some (head_of ys) \<and> LIST_PREV n h m' = Some (head_of (rev xs))"
    if "L h = xs @ n # ys" for h xs n ys
    using dlists_neighbours [OF \<open>dlists m' L\<close> that] by simp
  ultimately show ?thesis by metis
qed

definition two_dlists :: "(bool, nat) dlist" where
  "two_dlists = \<lparr>heads = (\<lambda>_. LIST_HEAD_INITIALIZER),
     field = (\<lambda>n. if n < 5 then Some \<lparr>le_next = None, le_prev = First False\<rparr> else None)\<rparr>"

definition dlist_edits :: "(bool, nat) edit list" where
  "dlist_edits = [Insert_head True 0, Insert_after True 0 1, Insert_before True 1 2, Insert_head False 3, Insert_head False 4,
     Concat True False, Remove True 4, Remove True 0, Swap True False]"

theorem dlist_refines_list_witness:
  "\<exists>m L. run_edits dlist_step dlist_edits two_dlists = Some m \<and> dlists m L \<and> L False = [2, 1, 3] \<and> L True = [] \<and>
     LIST_FIRST False m = Some 2 \<and> LIST_PREV 3 False m = Some (Some 1)"
proof -
  have nodes: "dom (field two_dlists) = {0, 1, 2, 3, 4}" by (auto simp: two_dlists_def split: if_splits)
  obtain L where L: "run_edits (edit_lists (dom (field two_dlists))) dlist_edits (\<lambda>_. []) = Some L"
    "L False = [2, 1, 3]" "L True = []" "list_all dlist_offers dlist_edits"
    by (simp add: nodes dlist_edits_def fresh_in_def all_bool_eq)
  have "heads two_dlists h = LIST_HEAD_INITIALIZER" for h by (simp add: two_dlists_def)
  from dlist_refines_list [OF this L(4,1)] obtain m where m: "run_edits dlist_step dlist_edits two_dlists = Some m" "dlists m L"
    and first: "LIST_FIRST False m = head_of (L False)"
    and prev: "\<And>xs n ys. L False = xs @ n # ys \<Longrightarrow> LIST_PREV n False m = Some (head_of (rev xs))" by metis
  have "LIST_PREV 3 False m = Some (Some 1)" using prev [of "[2, 1]" 3 "[]"] L(2) by simp
  with m first L(2,3) show ?thesis by auto
qed

end
