(* ===== verification/Writer.thy ===== *)
theory Writer
  imports SocketIo TimeQueue
begin

text \<open>
  The writer utility, src/finder-app/writer.c: \<open>open_file\<close>, \<open>write_string\<close>, \<open>close_file\<close> and \<open>main\<close>.
  A call of \<open>exit\<close> is the value \<open>Inl\<close> of the exit status; \<open>syslog\<close> messages, \<open>usage\<close> among them,
  are left out.  The strings of \<open>argv\<close> are shorter than \<open>2 ^ 31\<close> (Linux bounds them by 128 KiB), so
  \<open>strlen\<close> fits the \<open>int\<close> it is stored in.
\<close>

section \<open>The program\<close>

text \<open>
  The system calls it makes: \<open>open\<close> with \<open>O_WRONLY|O_CREAT|O_TRUNC\<close>, \<open>write\<close> and \<open>close\<close>; \<open>write\<close>
  gives its result, \<open>errno\<close> and the new world.
\<close>

record 'w writer_sys =
  open_trunc :: "byte list \<Rightarrow> 'w \<Rightarrow> int \<times> 'w"
  write_fd :: "int \<Rightarrow> byte list \<Rightarrow> 'w \<Rightarrow> (int \<times> int \<times> 'w) option"
  close_fd :: "int \<Rightarrow> 'w \<Rightarrow> int \<times> 'w"

definition open_file :: "'w writer_sys \<Rightarrow> byte list \<Rightarrow> 'w \<Rightarrow> (int + int) \<times> 'w" where
  "open_file W file_path w =
     (let (fd, w1) = open_trunc W file_path w in if fd = -1 then (Inl 1, w1) else (Inr fd, w1))"

text \<open>The loop of \<open>write_string\<close>.\<close>

partial_function (option) write_loop ::
  "(byte list \<Rightarrow> 'w \<Rightarrow> (int \<times> int \<times> 'w) option) \<Rightarrow> byte list \<Rightarrow> int \<Rightarrow> 'w \<Rightarrow> ((int + unit) \<times> 'w) option" where
  "write_loop wr string write_len w =
     (if write_len \<noteq> 0
      then Option.bind (wr (take (nat write_len) string) w) (\<lambda>(ret, errno, w1).
        if ret = 0 then Some (Inr (), w1)
        else if ret = -1
        then if errno = EINTR then write_loop wr string write_len w1 else Some (Inl 1, w1)
        else write_loop wr (drop (nat ret) string) (write_len - ret) w1)
      else Some (Inr (), w))"

declare write_loop.simps [code]

definition write_string :: "'w writer_sys \<Rightarrow> int \<Rightarrow> byte list \<Rightarrow> 'w \<Rightarrow> ((int + unit) \<times> 'w) option" where
  "write_string W fd string w = write_loop (write_fd W fd) string (int (length (c_str string))) w"

text \<open>A failure is only logged.\<close>

definition close_file :: "'w writer_sys \<Rightarrow> int \<Rightarrow> 'w \<Rightarrow> 'w" where
  "close_file W fd w = snd (close_fd W fd w)"

text \<open>\<open>main\<close> gives the exit status; falling off its end is status 0.\<close>

definition writer_main :: "'w writer_sys \<Rightarrow> byte list list \<Rightarrow> 'w \<Rightarrow> (int \<times> 'w) option" where
  "writer_main W argv w =
     (if length argv < 3 then Some (1, w)
      else case open_file W (argv ! 1) w of
          (Inl status, w1) \<Rightarrow> Some (status, w1)
        | (Inr fd, w1) \<Rightarrow> map_option (\<lambda>(r, w2).
            case r of Inl status \<Rightarrow> (status, w2) | Inr _ \<Rightarrow> (0, close_file W fd w2))
              (write_string W fd (argv ! 2) w1))"

section \<open>The loop is the server's\<close>

definition exit_if_failed :: "int \<Rightarrow> int + unit" where
  "exit_if_failed r = (if r = -1 then Inl 1 else Inr ())"

lemma dump_then_write:
  assumes "dump_content wr string n w = Some res"
  shows "write_loop wr string n w = Some (exit_if_failed (fst res), snd res)"
  using _ assms
proof (rule dump_content.raw_induct)
  fix dump wr string n w res
  assume "\<And>wr string n w res. dump wr string n w = Some res \<Longrightarrow>
      write_loop wr string n w = Some (exit_if_failed (fst res), snd res)"
    and "(if n = 0 then Some (0, w)
      else Option.bind (wr (take (nat n) string) w) (\<lambda>(ret, errno, s1).
        if ret = 0 then Some (0, s1)
        else if ret = - 1 then if errno = EINTR then dump wr string n s1 else Some (- 1, s1)
        else dump wr (drop (nat ret) string) (n - ret) s1)) = Some res"
  then show "write_loop wr string n w = Some (exit_if_failed (fst res), snd res)"
    by (cases res; cases "wr (take (nat n) string) w")
      (auto simp: write_loop.simps [of wr string n w] exit_if_failed_def split: if_splits)
qed

lemma write_then_dump:
  assumes "write_loop wr string n w = Some res"
  shows "dump_content wr string n w \<noteq> None"
  using _ assms
proof (rule write_loop.raw_induct)
  fix loop wr string n w and res :: "(int + unit) \<times> 'b"
  assume "\<And>wr string n w res. loop wr string n w = Some res \<Longrightarrow> dump_content wr string n w \<noteq> None"
    and "(if n \<noteq> 0
      then Option.bind (wr (take (nat n) string) w) (\<lambda>(ret, errno, w1).
        if ret = 0 then Some (Inr (), w1)
        else if ret = - 1 then if errno = EINTR then loop wr string n w1 else Some (Inl 1, w1)
        else loop wr (drop (nat ret) string) (n - ret) w1)
      else Some (Inr (), w)) = Some res"
  then show "dump_content wr string n w \<noteq> None"
    by (cases res; cases "wr (take (nat n) string) w")
      (auto simp: dump_content.simps [of wr string n w] split: if_splits)
qed

lemma write_loop_dump:
  "write_loop wr string n w = map_option (\<lambda>(r, w'). (exit_if_failed r, w')) (dump_content wr string n w)"
proof (cases "dump_content wr string n w")
  case None
  then show ?thesis using write_then_dump [of wr string n w] by (cases "write_loop wr string n w") auto
next
  case (Some a)
  then show ?thesis using dump_then_write [of wr string n w] by (cases a) simp
qed

lemma write_string_all:
  assumes "write_ok (write_fd W fd) content pending failed" and "length s < 2 ^ 31" and "NUL \<notin> set s"
  shows "\<exists>r w'. write_string W fd (s @ [NUL]) w = Some (r, w') \<and>
    (r = Inr () \<and> content w' = content w @ s \<or> r = Inl 1 \<and> failed w')"
proof -
  have "c_str (s @ [NUL]) = s" using assms(3) c_str_pad [of s "[]"] by simp
  then show ?thesis
    using dump_to_file [OF assms(1), of "length s" "s @ [NUL]" w] assms(2)
    by (fastforce simp: write_string_def write_loop_dump exit_if_failed_def)
qed

section \<open>Properties\<close>

text \<open>
  C24: the writer's loop is the loop of the server's \<open>dump_content\<close>, whatever \<open>write\<close> does: same calls,
  same end, and \<open>exit(1)\<close> exactly where the server's loop gives -1.
\<close>

theorem write_string_is_dump_content:
  "write_string W fd string w =
    map_option (\<lambda>(r, w'). (if r = -1 then Inl 1 else Inr (), w'))
      (dump_content (write_fd W fd) string (int (length (c_str string))) w)"
  by (simp add: write_string_def write_loop_dump exit_if_failed_def)

text \<open>
  C23: run with a path and a string shorter than 2^31 bytes, when \<open>open\<close> truncates the file, \<open>write\<close>
  appends what it reports and \<open>close\<close> keeps the content, the writer ends; with status 0 the file holds
  exactly the string, however the writes were cut or interrupted, and any other outcome is status 1
  and a failed \<open>open\<close> or \<open>write\<close>.
\<close>

theorem writer_writes_string:
  assumes "\<And>fd. write_ok (write_fd W fd) content pending failed"
    and "\<And>path w. case open_trunc W path w of (fd, w1) \<Rightarrow> if fd = -1 then failed w1 else content w1 = []"
    and "\<And>fd w. content (snd (close_fd W fd w)) = content w"
    and "length s < 2 ^ 31" and "NUL \<notin> set s"
  shows "\<exists>status w'. writer_main W [prog, path, s @ [NUL]] w = Some (status, w') \<and>
    (status = 0 \<and> content w' = s \<or> status = 1 \<and> failed w')"
proof (cases "open_trunc W path w")
  case (Pair fd w1)
  show ?thesis
  proof (cases "fd = -1")
    case True
    then show ?thesis using assms(2) [of path w] Pair by (simp add: writer_main_def open_file_def)
  next
    case False
    then have "content w1 = []" using assms(2) [of path w] Pair by simp
    with write_string_all [OF assms(1,4,5), of fd w1] show ?thesis
      using Pair False assms(3)
      by (auto simp: writer_main_def open_file_def close_file_def)
  qed
qed

text \<open>A file whose \<open>write\<close> takes two bytes at a time, and is interrupted once.\<close>

definition two_at_a_time :: "(nat \<times> byte list) writer_sys" where
  "two_at_a_time = \<lparr>open_trunc = (\<lambda>path (k, f). (3, (k, []))),
     write_fd = (\<lambda>fd bs (k, f). if k = 0 then Some (int (length (take 2 bs)), 0, (k, f @ take 2 bs))
                                else Some (-1, EINTR, (k - 1, f))),
     close_fd = (\<lambda>fd w. (0, w))\<rparr>"

theorem writer_writes_string_witness:
  "\<exists>w'. writer_main two_at_a_time [''writer'', ''/tmp/f'', ''hello'' @ [NUL]] (1, ''old'') = Some (0, w') \<and> snd w' = ''hello''"
proof -
  have wr: "write_ok (write_fd two_at_a_time fd) snd fst (\<lambda>_. False)" for fd
    by (auto simp: write_ok_def two_at_a_time_def min_def)
  have op: "case open_trunc two_at_a_time path w of (fd, w1) \<Rightarrow> if fd = -1 then False else snd w1 = []" for path w
    by (auto simp: two_at_a_time_def split: prod.splits)
  have cl: "snd (snd (close_fd two_at_a_time fd w)) = snd w" for fd w
    by (simp add: two_at_a_time_def)
  show ?thesis
    using writer_writes_string [OF wr op cl, of "''hello''" "''writer''" "''/tmp/f''" "(1, ''old'')"]
    by (simp add: NUL_def)
qed

end
