(* ===== verification/SystemCalls.thy ===== *)
theory SystemCalls
  imports Prelude
begin

unbundle bit_operations_syntax

text \<open>
  The wrappers of src/examples/systemcalls/systemcalls.c: \<open>do_system\<close>, \<open>do_exec\<close> and
  \<open>do_exec_redirect\<close>.  \<open>fork\<close> gives 0 in the child, so each function models both processes; how a
  process leaves it is an \<open>outcome\<close>.  The library calls are parameters, the \<open>W...\<close> macros of
  \<open>sys/wait.h\<close> are written out, and messages are left out.
\<close>

section \<open>The program\<close>

text \<open>A \<open>char *\<close> that may be NULL is an option.\<close>

type_synonym arg = "byte list option"

text \<open>
  Returning to the caller; \<open>exit\<close>; or the process now runs the image \<open>path\<close> with arguments \<open>argv\<close>.
\<close>

datatype outcome = Returns bool | Exits int | Image arg "arg list"

record 'w proc_sys =
  p_system :: "arg \<Rightarrow> 'w \<Rightarrow> int \<times> 'w"
  p_open :: "byte list \<Rightarrow> 'w \<Rightarrow> int \<times> 'w" \<comment> \<open>\<open>O_WRONLY|O_TRUNC|O_CREAT\<close>\<close>
  p_fork :: "'w \<Rightarrow> int \<times> 'w"
  p_execv :: "arg \<Rightarrow> arg list \<Rightarrow> 'w \<Rightarrow> int option \<times> 'w" \<comment> \<open>\<open>None\<close>: it does not return\<close>
  p_waitpid :: "int \<Rightarrow> 'w \<Rightarrow> int \<times> 32 word \<times> 'w" \<comment> \<open>result and status\<close>
  p_dup2 :: "int \<Rightarrow> int \<Rightarrow> 'w \<Rightarrow> int \<times> 'w"
  p_close :: "int \<Rightarrow> 'w \<Rightarrow> int \<times> 'w"

definition WIFEXITED :: "32 word \<Rightarrow> bool" where
  "WIFEXITED status \<longleftrightarrow> status AND 0x7f = 0"

definition WEXITSTATUS :: "32 word \<Rightarrow> 32 word" where
  "WEXITSTATUS status = drop_bit 8 (status AND 0xff00)"

definition do_system :: "'w proc_sys \<Rightarrow> arg \<Rightarrow> 'w \<Rightarrow> bool \<times> 'w" where
  "do_system P cmd w =
     (let (ret, w1) = p_system P cmd w
      in (if ret = -1 then False
          else if cmd = None then if ret = 0 then False else True
          else if ret > 0 then False else True, w1))"

text \<open>The variable arguments: taking one that was not passed is undefined, \<open>None\<close>.\<close>

fun copy_args :: "nat \<Rightarrow> arg list \<Rightarrow> arg list option" where
  "copy_args 0 args = Some []"
| "copy_args (Suc i) [] = None"
| "copy_args (Suc i) (a # args) = map_option (\<lambda>as. a # as) (copy_args i args)"

text \<open>The array \<open>char *command[count+1]\<close>; a length that is not positive is undefined.\<close>

definition command_vector :: "int \<Rightarrow> arg list \<Rightarrow> arg list option" where
  "command_vector count args =
     (if count < 0 then None else map_option (\<lambda>as. as @ [None]) (copy_args (nat count) args))"

text \<open>What child and parent have in common in the two functions.\<close>

definition exec_child :: "'w proc_sys \<Rightarrow> arg list \<Rightarrow> 'w \<Rightarrow> outcome \<times> 'w" where
  "exec_child P command w =
     (case p_execv P (command ! 0) command w of
        (None, w1) \<Rightarrow> (Image (command ! 0) command, w1)
      | (Some r, w1) \<Rightarrow> (if r = -1 then Exits (-1) else Returns False, w1))"

definition wait_child :: "'w proc_sys \<Rightarrow> int \<Rightarrow> 'w \<Rightarrow> outcome \<times> 'w" where
  "wait_child P pid w =
     (let (r, status, w1) = p_waitpid P pid w
      in (if r = -1 then Returns False
          else if WIFEXITED status then if WEXITSTATUS status \<noteq> 0 then Returns False else Returns True
          else Returns False, w1))"

definition do_exec :: "'w proc_sys \<Rightarrow> int \<Rightarrow> arg list \<Rightarrow> 'w \<Rightarrow> (outcome \<times> 'w) option" where
  "do_exec P count args w =
     map_option (\<lambda>command.
       let (pid, w1) = p_fork P w
       in if pid = -1 then (Returns False, w1)
          else if pid = 0 then exec_child P command w1
          else wait_child P pid w1)
     (command_vector count args)"

definition do_exec_redirect :: "'w proc_sys \<Rightarrow> byte list \<Rightarrow> int \<Rightarrow> arg list \<Rightarrow> 'w \<Rightarrow> (outcome \<times> 'w) option" where
  "do_exec_redirect P outputfile count args w =
     map_option (\<lambda>command.
       let (fd, w1) = p_open P outputfile w
       in if fd < 0 then (Returns False, w1)
          else let (pid, w2) = p_fork P w1
            in if pid = -1 then (Returns False, w2)
               else if pid = 0
               then let (r, w3) = p_dup2 P fd 1 w2
                    in if r < 0 then (Returns False, w3)
                       else exec_child P command (snd (p_close P fd w3))
               else wait_child P pid (snd (p_close P fd w2)))
     (command_vector count args)"

section \<open>Lemmas\<close>

lemma copy_args_all [simp]: "copy_args (length args) args = Some args"
  by (induction args) auto

lemma command_vector_all: "command_vector (int (length args)) args = Some (args @ [None])"
  by (simp add: command_vector_def)

lemma copy_args_length: "copy_args n args = Some as \<Longrightarrow> length as = n"
  by (induction n args arbitrary: as rule: copy_args.induct) auto

text \<open>The wait status of a process that called \<open>exit\<close> with \<open>c\<close>.\<close>

definition exited_with :: "32 word \<Rightarrow> 32 word" where
  "exited_with c = push_bit 8 (c AND 0xff)"

lemma masks: "0x7f = (mask 7 :: 32 word)" "0xff = (mask 8 :: 32 word)" "0xff00 = (push_bit 8 (mask 8) :: 32 word)"
  by (simp_all add: mask_eq_exp_minus_1 push_bit_eq_mult)

lemma exited_with_exited: "WIFEXITED (exited_with c)"
  unfolding WIFEXITED_def exited_with_def masks
  by (rule bit_word_eqI) (auto simp: bit_and_iff bit_push_bit_iff bit_mask_iff)

lemma exited_with_status: "WEXITSTATUS (exited_with c) = c AND 0xff"
  unfolding WEXITSTATUS_def exited_with_def masks
  by (rule bit_word_eqI) (auto simp: bit_and_iff bit_push_bit_iff bit_drop_bit_eq bit_mask_iff)

lemma exited_with_zero: "exited_with c = 0 \<longleftrightarrow> c AND 0xff = 0"
proof
  assume "exited_with c = 0"
  then have "WEXITSTATUS (exited_with c) = 0" by (simp add: WEXITSTATUS_def)
  then show "c AND 0xff = 0" by (simp add: exited_with_status)
qed (simp add: exited_with_def)

lemma success_status:
  "status = exited_with c \<or> \<not> WIFEXITED status \<Longrightarrow> WIFEXITED status \<and> WEXITSTATUS status = 0 \<longleftrightarrow> status = 0"
  using exited_with_zero [of c] exited_with_exited [of c] exited_with_status [of c]
  by (auto simp: WIFEXITED_def WEXITSTATUS_def)

text \<open>\<open>execv\<close>, as documented, returns only when it has failed.\<close>

definition exec_ok :: "'w proc_sys \<Rightarrow> bool" where
  "exec_ok P \<longleftrightarrow> (\<forall>path argv w. fst (p_execv P path argv w) \<in> {None, Some (-1)})"

lemma exec_child_leaves:
  "exec_ok P \<Longrightarrow> fst (exec_child P command w) \<in> {Image (command ! 0) command, Exits (-1)}"
  unfolding exec_ok_def exec_child_def
  by (cases "p_execv P (command ! 0) command w"; drule spec [of _ "command ! 0"], drule spec [of _ command], drule spec [of _ w])
    (auto split: option.splits)

lemma wait_child_true:
  "p_waitpid P pid w = (r, status, w1) \<Longrightarrow>
     wait_child P pid w = (Returns (r \<noteq> -1 \<and> WIFEXITED status \<and> WEXITSTATUS status = 0), w1)"
  by (simp add: wait_child_def)

section \<open>Properties\<close>

text \<open>
  C25: once \<open>fork\<close> has succeeded, \<open>do_exec\<close> returns in the parent, and returns true exactly when
  \<open>waitpid\<close> succeeded, the command ended by itself and its exit status was a multiple of 256, for
  every wait status that is either that of an exit or not one.
\<close>

theorem do_exec_reports_status:
  assumes "p_fork P w = (pid, w1)" and "pid \<noteq> 0" and "pid \<noteq> -1" and "p_waitpid P pid w1 = (r, status, w2)"
    and "status = exited_with c \<or> \<not> WIFEXITED status"
  shows "do_exec P (int (length args)) args w =
    Some (Returns (r \<noteq> -1 \<and> status = exited_with c \<and> c AND 0xff = 0), w2)"
  using assms exited_with_exited
  by (auto simp: do_exec_def command_vector_all wait_child_true [OF assms(4)] exited_with_status)

definition forked :: "nat \<Rightarrow> 32 word \<Rightarrow> unit proc_sys" where
  "forked pid status = \<lparr>p_system = (\<lambda>cmd w. (0, w)), p_open = (\<lambda>path w. (3, w)), p_fork = (\<lambda>w. (int pid, w)),
     p_execv = (\<lambda>path argv w. (None, w)), p_waitpid = (\<lambda>pid w. (pid, status, w)),
     p_dup2 = (\<lambda>a b w. (b, w)), p_close = (\<lambda>fd w. (0, w))\<rparr>"

theorem do_exec_reports_status_witness:
  "do_exec (forked 7 (exited_with 256)) 1 [Some ''/bin/true''] () = Some (Returns True, ())"
  using do_exec_reports_status [of "forked 7 (exited_with 256)" "()" 7 "()" 7 "exited_with 256" "()" 256
      "[Some ''/bin/true'']"]
  by (simp add: forked_def)

text \<open>
  The child of \<open>do_exec\<close> never returns to the caller: it runs the command with its arguments, the
  first of them the path, or exits with -1.
\<close>

theorem do_exec_child_never_returns:
  assumes "p_fork P w = (0, w1)" and "exec_ok P"
  shows "\<exists>out w'. do_exec P (int (length (path # args))) (path # args) w = Some (out, w') \<and>
    out \<in> {Image path (path # args @ [None]), Exits (-1)}"
  using assms(1) exec_child_leaves [OF assms(2), of "path # args @ [None]" w1] command_vector_all [of "path # args"]
  by (cases "exec_child P (path # args @ [None]) w1") (simp add: do_exec_def)

theorem do_exec_child_never_returns_witness:
  "\<exists>w' out. do_exec (forked 0 0) 2 [Some ''/bin/echo'', Some ''hi''] () = Some (out, w') \<and>
     out \<in> {Image (Some ''/bin/echo'') [Some ''/bin/echo'', Some ''hi'', None], Exits (-1)}"
proof -
  have "p_fork (forked 0 0) () = (0, ())" and "exec_ok (forked 0 0)" by (simp_all add: forked_def exec_ok_def)
  from do_exec_child_never_returns [OF this, of "Some ''/bin/echo''" "[Some ''hi'']"] show ?thesis by auto
qed

text \<open>
  C26: \<open>do_system\<close> and \<open>do_exec\<close> judge a command alike: if \<open>fork\<close> succeeds and \<open>system\<close> gives the wait
  status (one that is not negative) that \<open>waitpid\<close> gives, both return true or both false, whether the
  command exited or was killed.
\<close>

theorem system_and_exec_agree:
  assumes "status = exited_with c \<or> \<not> WIFEXITED status" and "0 \<le> sint status"
    and "p_system P (Some cmd) w = (sint status, w1)"
    and "p_fork P v = (pid, v1)" and "pid > 0" and "p_waitpid P pid v1 = (pid, status, v2)"
  shows "do_exec P (int (length args)) args v = Some (Returns (fst (do_system P (Some cmd) w)), v2)"
proof -
  have "sint status \<noteq> -1" and "0 < sint status \<longleftrightarrow> status \<noteq> 0"
    using assms(2) by (linarith, auto simp: less_le signed_eq_0_iff)
  then have "fst (do_system P (Some cmd) w) = (status = 0)"
    using assms(3) by (auto simp: do_system_def)
  moreover have "do_exec P (int (length args)) args v = Some (wait_child P pid v1)"
    using assms(4,5) by (simp add: do_exec_def command_vector_all)
  ultimately show ?thesis
    using success_status [OF assms(1)] assms(5) wait_child_true [OF assms(6)] by simp
qed

theorem system_and_exec_agree_witness:
  "do_exec (forked 7 (exited_with 3)\<lparr>p_system := \<lambda>cmd w. (sint (exited_with 3), w)\<rparr>) 0 [] () = Some (Returns False, ())"
proof -
  let ?P = "forked 7 (exited_with 3)\<lparr>p_system := \<lambda>cmd w. (sint (exited_with 3), w)\<rparr>"
  have "sint (exited_with 3) = 0x300" by (simp add: exited_with_def)
  with system_and_exec_agree [of "exited_with 3" 3 ?P "[]" "()" "()" "()" 7 "()" "()" "[]"]
  show ?thesis by (simp add: forked_def do_system_def)
qed

section \<open>Descriptors\<close>

text \<open>
  What the calls do to the descriptors of a process, as documented: \<open>table w\<close> maps a descriptor to the
  file it stands for.
\<close>

definition descriptors_ok :: "'w proc_sys \<Rightarrow> ('w \<Rightarrow> int \<Rightarrow> byte list option) \<Rightarrow> bool" where
  "descriptors_ok P table \<longleftrightarrow>
     (\<forall>f w fd w1. p_open P f w = (fd, w1) \<longrightarrow> 0 \<le> fd \<longrightarrow> table w1 = (table w)(fd \<mapsto> f)) \<and>
     (\<forall>w. table (snd (p_fork P w)) = table w) \<and>
     (\<forall>a b w r w1. p_dup2 P a b w = (r, w1) \<longrightarrow> table w1 = (if r < 0 then table w else (table w)(b := table w a))) \<and>
     (\<forall>fd w. table (snd (p_close P fd w)) = (table w)(fd := None)) \<and>
     (\<forall>path argv w. table (snd (p_execv P path argv w)) = table w)"

lemma descriptors_okD:
  assumes "descriptors_ok P table"
  shows "p_open P f w = (fd, w1) \<Longrightarrow> 0 \<le> fd \<Longrightarrow> table w1 = (table w)(fd \<mapsto> f)"
    and "p_fork P w = (pid, w1) \<Longrightarrow> table w1 = table w"
    and "p_dup2 P a b w = (r, w1) \<Longrightarrow> table w1 = (if r < 0 then table w else (table w)(b := table w a))"
    and "table (snd (p_close P fd w)) = (table w)(fd := None)"
    and "table (snd (p_execv P path argv w)) = table w"
  using assms unfolding descriptors_ok_def by (simp_all) (metis snd_conv)

lemma exec_child_table: "descriptors_ok P table \<Longrightarrow> table (snd (exec_child P command w)) = table w"
  using descriptors_okD(5) [of P table "command ! 0" command w]
  by (auto simp: exec_child_def split: prod.splits option.splits)

text \<open>
  C27: when the output file can be opened and \<open>fork\<close> and \<open>dup2\<close> succeed, the command \<open>do_exec_redirect\<close>
  runs in the child has its standard output in the file and no other descriptor for it; but if the file
  was opened as descriptor 1, \<open>close\<close> takes it away again.
\<close>

theorem redirect_child_output:
  assumes "descriptors_ok P table" and "exec_ok P" and "p_open P outputfile w = (fd, w1)" and "0 \<le> fd"
    and "p_fork P w1 = (0, w2)" and "0 \<le> fst (p_dup2 P fd 1 w2)"
  shows "\<exists>out w'. do_exec_redirect P outputfile (int (length (path # args))) (path # args) w = Some (out, w') \<and>
    out \<in> {Image path (path # args @ [None]), Exits (-1)} \<and>
    table w' = (if fd = 1 then (table w)(1 := None) else (table w)(1 \<mapsto> outputfile, fd := None))"
proof -
  let ?c = "path # args @ [None]"
  obtain r w3 where dup: "p_dup2 P fd 1 w2 = (r, w3)" by fastforce
  let ?w4 = "snd (p_close P fd w3)"
  obtain out w' where ex: "exec_child P ?c ?w4 = (out, w')" by fastforce
  have "table w1 = (table w)(fd \<mapsto> outputfile)" by (rule descriptors_okD(1) [OF assms(1,3,4)])
  moreover have "table w2 = table w1" by (rule descriptors_okD(2) [OF assms(1,5)])
  moreover have "table w3 = (table w2)(1 := table w2 fd)"
    using descriptors_okD(3) [OF assms(1) dup] assms(6) dup by simp
  moreover have "table ?w4 = (table w3)(fd := None)" by (rule descriptors_okD(4) [OF assms(1)])
  moreover have "table w' = table ?w4" using exec_child_table [OF assms(1), of ?c ?w4] ex by simp
  ultimately have "table w' = (if fd = 1 then (table w)(1 := None) else (table w)(1 \<mapsto> outputfile, fd := None))"
    by auto
  moreover have "out \<in> {Image path ?c, Exits (-1)}"
    using exec_child_leaves [OF assms(2), of ?c ?w4] ex by simp
  moreover have "do_exec_redirect P outputfile (int (length (path # args))) (path # args) w = Some (out, w')"
    using assms(3-6) dup ex command_vector_all [of "path # args"] by (simp add: do_exec_redirect_def)
  ultimately show ?thesis by blast
qed

text \<open>A process with a table of its own.\<close>

definition own_table :: "int \<Rightarrow> int \<Rightarrow> int \<Rightarrow> (int \<Rightarrow> byte list option) proc_sys" where
  "own_table fd pid r = \<lparr>p_system = (\<lambda>cmd w. (0, w)), p_open = (\<lambda>path w. (fd, w(fd \<mapsto> path))),
     p_fork = (\<lambda>w. (pid, w)), p_execv = (\<lambda>path argv w. (None, w)), p_waitpid = (\<lambda>pid w. (pid, 0, w)),
     p_dup2 = (\<lambda>a b w. (r, if r < 0 then w else w(b := w a))), p_close = (\<lambda>fd w. (0, w(fd := None)))\<rparr>"

lemma own_table_ok: "descriptors_ok (own_table fd pid r) (\<lambda>w. w)" "exec_ok (own_table fd pid r)"
  by (auto simp: descriptors_ok_def exec_ok_def own_table_def)

theorem redirect_child_output_witness:
  "\<exists>out w'. do_exec_redirect (own_table 3 0 1) ''out'' 1 [Some ''/bin/ls''] Map.empty = Some (out, w') \<and> w' 1 = Some ''out''"
proof -
  from redirect_child_output [OF own_table_ok, of 3 0 1 "''out''" Map.empty 3 _ _ "Some ''/bin/ls''" "[]"]
  show ?thesis by (fastforce simp: own_table_def)
qed

text \<open>
  Two failures leave something behind.  If \<open>fork\<close> fails, the output file stays open in the caller;
  if \<open>dup2\<close> fails, the child returns false to the caller, whose code then runs in two processes.
\<close>

theorem redirect_failures:
  assumes "descriptors_ok P table" and "p_open P outputfile w = (fd, w1)" and "0 \<le> fd"
    and "p_fork P w1 = (pid, w2)" and "pid = -1 \<or> pid = 0 \<and> fst (p_dup2 P fd 1 w2) < 0"
  shows "\<exists>w'. do_exec_redirect P outputfile (int (length args)) args w = Some (Returns False, w') \<and>
    table w' fd = Some outputfile"
proof -
  obtain r w3 where dup: "p_dup2 P fd 1 w2 = (r, w3)" by fastforce
  have "table w1 = (table w)(fd \<mapsto> outputfile)" by (rule descriptors_okD(1) [OF assms(1-3)])
  moreover have "table w2 = table w1" by (rule descriptors_okD(2) [OF assms(1,4)])
  moreover have "r < 0 \<Longrightarrow> table w3 = table w2" using descriptors_okD(3) [OF assms(1) dup] by simp
  ultimately show ?thesis
    using assms(2-5) dup by (auto simp: do_exec_redirect_def command_vector_all)
qed

theorem redirect_failures_witness:
  "\<exists>w'. do_exec_redirect (own_table 3 0 (-1)) ''out'' 0 [] Map.empty = Some (Returns False, w') \<and> w' 3 = Some ''out''"
proof -
  from redirect_failures [OF own_table_ok(1), of 3 0 "-1" "''out''" Map.empty 3 _ 0 _ "[]"]
  show ?thesis by (fastforce simp: own_table_def)
qed

end
