(* ===== verification/Threading.thy ===== *)
theory Threading
  imports Prelude "HOL-Library.Signed_Division"
begin

text \<open>
  The threading example, src/examples/threading/threading.c: \<open>threadfunc\<close>, which sleeps, holds a mutex
  and releases it, and \<open>start_thread_obtaining_mutex\<close>, which starts it with times in milliseconds.
  \<open>nanosleep\<close>, the mutex, \<open>malloc\<close> and \<open>pthread_create\<close> are parameters.
\<close>

section \<open>The program\<close>

record timespec =
  tv_sec :: int
  tv_nsec :: int

record thread_data =
  wait_before_obtain :: timespec
  wait_before_release :: timespec
  mutex :: ptr
  threadid :: int
  thread_complete_success :: bool

text \<open>\<open>nanosleep req rem w\<close> gives the result and the new contents of \<open>*rem\<close>.\<close>

record 'w thread_sys =
  nanosleep :: "timespec \<Rightarrow> timespec \<Rightarrow> 'w \<Rightarrow> int \<times> timespec \<times> 'w"
  mutex_lock :: "ptr \<Rightarrow> 'w \<Rightarrow> int \<times> 'w"
  mutex_unlock :: "ptr \<Rightarrow> 'w \<Rightarrow> int \<times> 'w"

text \<open>The loop that goes back to sleep for the remaining time.\<close>

partial_function (option) sleep_loop ::
  "(timespec \<Rightarrow> timespec \<Rightarrow> 'w \<Rightarrow> int \<times> timespec \<times> 'w) \<Rightarrow> timespec \<Rightarrow> timespec \<Rightarrow> 'w \<Rightarrow> (timespec \<times> 'w) option" where
  "sleep_loop nap sleep_time remaining_time w =
     (let (ret, remaining, w1) = nap sleep_time remaining_time w
      in if ret = 0 then Some (remaining, w1)
         else if tv_sec remaining > 0 \<or> tv_nsec remaining > 0
         then sleep_loop nap remaining remaining w1
         else Some (remaining, w1))"

declare sleep_loop.simps [code]

text \<open>\<open>junk\<close> is the uninitialised \<open>remaining_time\<close>; the result is the structure \<open>thread_param\<close> points to.\<close>

definition threadfunc :: "'w thread_sys \<Rightarrow> timespec \<Rightarrow> thread_data \<Rightarrow> 'w \<Rightarrow> (thread_data \<times> 'w) option" where
  "threadfunc S junk td w =
     Option.bind (sleep_loop (nanosleep S) (wait_before_obtain td) junk w) (\<lambda>(rem1, w1).
       let (ret, w2) = mutex_lock S (mutex td) w1
       in if ret \<noteq> 0 then Some (td\<lparr>thread_complete_success := False\<rparr>, w2)
          else map_option (\<lambda>(rem2, w3).
            let (ret, w4) = mutex_unlock S (mutex td) w3
            in (td\<lparr>thread_complete_success := (if ret \<noteq> 0 then False else True)\<rparr>, w4))
            (sleep_loop (nanosleep S) (wait_before_release td) rem1 w2))"

definition NSEC_PER_MSEC :: int where "NSEC_PER_MSEC = 1000000"
definition MSEC_PER_SEC :: int where "MSEC_PER_SEC = 1000"

text \<open>The division of C rounds towards 0; the products are computed in an \<open>int\<close>.\<close>

definition timespec_of_ms :: "int \<Rightarrow> timespec" where
  "timespec_of_ms ms = \<lparr>tv_sec = ms sdiv MSEC_PER_SEC,
     tv_nsec = signed_take_bit 31 ((ms smod MSEC_PER_SEC) * NSEC_PER_MSEC)\<rparr>"

text \<open>
  The caller's process: the blocks allocated for threads, the threads started with the address of
  their argument, and the world.
\<close>

record 'w spawner =
  blocks :: "ptr \<Rightarrow> thread_data option"
  threads :: "(int \<times> ptr) list"
  spawn_w :: 'w

record 'w spawn_sys =
  malloc_td :: "(ptr \<Rightarrow> bool) \<Rightarrow> 'w \<Rightarrow> ptr option \<times> thread_data \<times> 'w"
    \<comment> \<open>given those in use: a block with its old contents\<close>
  create_td :: "ptr \<Rightarrow> 'w \<Rightarrow> int \<times> int \<times> 'w" \<comment> \<open>status and thread id\<close>

text \<open>The results are the value returned and what is stored in \<open>*thread\<close>, if anything.\<close>

definition start_thread_obtaining_mutex ::
  "'w spawn_sys \<Rightarrow> ptr \<Rightarrow> int \<Rightarrow> int \<Rightarrow> 'w spawner \<Rightarrow> (bool \<times> int option) \<times> 'w spawner" where
  "start_thread_obtaining_mutex P mtx wait_to_obtain_ms wait_to_release_ms s =
     (let (p, old, w) = malloc_td P (\<lambda>a. blocks s a \<noteq> None) (spawn_w s);
          s1 = s\<lparr>spawn_w := w\<rparr>
      in case p of
           None \<Rightarrow> ((False, None), s1)
         | Some a \<Rightarrow>
             let thread_param = old\<lparr>mutex := mtx,
                   wait_before_obtain := timespec_of_ms wait_to_obtain_ms,
                   wait_before_release := timespec_of_ms wait_to_release_ms\<rparr>;
                 (ret, tid, w1) = create_td P a (spawn_w s1)
             in if ret \<noteq> 0
                then ((False, None), s1\<lparr>blocks := (blocks s1)(a \<mapsto> thread_param), spawn_w := w1\<rparr>)
                else ((True, Some tid), s1\<lparr>blocks := (blocks s1)(a \<mapsto> thread_param\<lparr>threadid := tid\<rparr>),
                        threads := threads s1 @ [(tid, a)], spawn_w := w1\<rparr>))"

section \<open>Times\<close>

definition nanoseconds :: "timespec \<Rightarrow> int" where
  "nanoseconds t = tv_sec t * 1000000000 + tv_nsec t"

definition valid_time :: "timespec \<Rightarrow> bool" where
  "valid_time t \<longleftrightarrow> 0 \<le> tv_sec t \<and> 0 \<le> tv_nsec t \<and> tv_nsec t < 1000000000"

lemma valid_nonneg: "valid_time t \<Longrightarrow> 0 \<le> nanoseconds t"
  by (simp add: valid_time_def nanoseconds_def)

lemma valid_pos: "valid_time t \<Longrightarrow> tv_sec t > 0 \<or> tv_nsec t > 0 \<longleftrightarrow> nanoseconds t > 0"
  by (auto simp: valid_time_def nanoseconds_def)

lemma smod_thousand: "\<bar>ms smod 1000\<bar> \<le> (999 :: int)" "0 \<le> ms \<Longrightarrow> 0 \<le> ms smod (1000 :: int)"
  "ms < 0 \<Longrightarrow> ms smod (1000 :: int) \<le> 0"
  by (auto simp: signed_modulo_int_def sgn_if)

lemma ms_product: "signed_take_bit 31 ((ms smod 1000) * 1000000) = (ms smod 1000) * (1000000 :: int)"
  using smod_thousand(1) [of ms] by (auto simp: signed_take_bit_int_eq_self_iff)

lemma timespec_of_ms_eq: "timespec_of_ms ms = \<lparr>tv_sec = ms sdiv 1000, tv_nsec = (ms smod 1000) * 1000000\<rparr>"
  by (simp add: timespec_of_ms_def MSEC_PER_SEC_def NSEC_PER_MSEC_def ms_product)

lemma nanoseconds_of_ms: "nanoseconds (timespec_of_ms ms) = ms * 1000000"
  using sdiv_mult_smod_eq [of ms 1000] by (simp add: nanoseconds_def timespec_of_ms_eq)

lemma valid_of_ms: "valid_time (timespec_of_ms ms) = (0 \<le> ms)"
proof
  assume "0 \<le> ms"
  then show "valid_time (timespec_of_ms ms)"
    using smod_thousand(1,2) [of ms] by (auto simp: valid_time_def timespec_of_ms_eq signed_divide_int_def sgn_if)
next
  assume "valid_time (timespec_of_ms ms)"
  then show "0 \<le> ms" using valid_nonneg nanoseconds_of_ms by fastforce
qed

section \<open>Sleeping\<close>

text \<open>
  \<open>nanosleep(2)\<close>, as documented: it sleeps the whole time, or is interrupted and leaves what remains
  of it, and interruptions run out; a time that is not valid is refused, and \<open>*rem\<close> is left alone.
\<close>

definition nap_ok ::
  "(timespec \<Rightarrow> timespec \<Rightarrow> 'w \<Rightarrow> int \<times> timespec \<times> 'w) \<Rightarrow> ('w \<Rightarrow> int) \<Rightarrow> ('w \<Rightarrow> nat) \<Rightarrow> bool" where
  "nap_ok nap clock pending \<longleftrightarrow> (\<forall>t rem w ret rem1 w1. nap t rem w = (ret, rem1, w1) \<longrightarrow>
     (if \<not> valid_time t then ret = -1 \<and> rem1 = rem \<and> w1 = w
      else ret = 0 \<and> clock w1 \<ge> clock w + nanoseconds t \<or>
           ret = -1 \<and> valid_time rem1 \<and> clock w1 \<ge> clock w + nanoseconds t - nanoseconds rem1 \<and>
             pending w1 < pending w))"

lemma sleep_loop_sleeps:
  assumes "nap_ok nap clock pending" and "valid_time t"
  shows "\<exists>rem' w'. sleep_loop nap t rem w = Some (rem', w') \<and> clock w' \<ge> clock w + nanoseconds t"
  using assms(2)
proof (induction "pending w" arbitrary: t rem w rule: less_induct)
  case less
  obtain ret rem1 w1 where nap: "nap t rem w = (ret, rem1, w1)" by (metis prod_cases3)
  with assms(1) less.prems have n: "ret = 0 \<and> clock w1 \<ge> clock w + nanoseconds t \<or>
      ret = -1 \<and> valid_time rem1 \<and> clock w1 \<ge> clock w + nanoseconds t - nanoseconds rem1 \<and> pending w1 < pending w"
    by (auto simp: nap_ok_def)
  note step = sleep_loop.simps [of nap t rem w]
  show ?case
  proof (cases "ret = 0")
    case True
    then show ?thesis using n nap step by simp
  next
    case False
    with n have i: "valid_time rem1" "clock w1 \<ge> clock w + nanoseconds t - nanoseconds rem1" "pending w1 < pending w"
      by auto
    show ?thesis
    proof (cases "nanoseconds rem1 > 0")
      case True
      with less.hyps [OF i(3,1), of rem1] show ?thesis
        using i nap step False valid_pos by fastforce
    next
      case zero: False
      then have "nanoseconds rem1 = 0" using valid_nonneg [OF i(1)] by simp
      then show ?thesis using i nap step False zero valid_pos by simp
    qed
  qed
qed

section \<open>Properties\<close>

text \<open>
  C28: for valid times, however often its sleeps are interrupted, the thread ends; it asks for the mutex no earlier than
  the first time asked for, and if it gets it, releases it no earlier than the second time later;
  its flag says whether both calls succeeded, and nothing else of its data changes.
\<close>

theorem threadfunc_holds_mutex:
  assumes "nap_ok (nanosleep S) clock pending"
    and "valid_time (wait_before_obtain td)" and "valid_time (wait_before_release td)"
  shows "\<exists>w1 r w2. clock w1 \<ge> clock w + nanoseconds (wait_before_obtain td) \<and> mutex_lock S (mutex td) w1 = (r, w2) \<and>
    (if r \<noteq> 0 then threadfunc S junk td w = Some (td\<lparr>thread_complete_success := False\<rparr>, w2)
     else \<exists>w3 r' w4. clock w3 \<ge> clock w2 + nanoseconds (wait_before_release td) \<and>
       mutex_unlock S (mutex td) w3 = (r', w4) \<and>
       threadfunc S junk td w = Some (td\<lparr>thread_complete_success := (r' = 0)\<rparr>, w4))"
proof -
  obtain rem1 w1 where s1: "sleep_loop (nanosleep S) (wait_before_obtain td) junk w = Some (rem1, w1)"
    and c1: "clock w1 \<ge> clock w + nanoseconds (wait_before_obtain td)"
    using sleep_loop_sleeps [OF assms(1,2)] by blast
  obtain r w2 where l: "mutex_lock S (mutex td) w1 = (r, w2)" by fastforce
  obtain rem2 w3 where s2: "sleep_loop (nanosleep S) (wait_before_release td) rem1 w2 = Some (rem2, w3)"
    and c2: "clock w3 \<ge> clock w2 + nanoseconds (wait_before_release td)"
    using sleep_loop_sleeps [OF assms(1,3)] by blast
  obtain r' w4 where u: "mutex_unlock S (mutex td) w3 = (r', w4)" by fastforce
  show ?thesis
    using s1 c1 l s2 c2 u by (intro exI [of _ w1] exI [of _ r] exI [of _ w2]) (auto simp: threadfunc_def)
qed

text \<open>A world with a clock; every sleep is interrupted halfway while interruptions are left.\<close>

definition halving :: "(int \<times> nat) thread_sys" where
  "halving = \<lparr>nanosleep = (\<lambda>t rem (c, k).
       if \<not> valid_time t then (-1, rem, (c, k))
       else if k = 0 then (0, rem, (c + nanoseconds t, 0))
       else (-1, \<lparr>tv_sec = 0, tv_nsec = 7\<rparr>, (c + nanoseconds t - 7, k - 1))),
     mutex_lock = (\<lambda>m w. (0, w)), mutex_unlock = (\<lambda>m w. (0, w))\<rparr>"

lemma halving_ok: "nap_ok (nanosleep halving) fst snd"
  by (auto simp: nap_ok_def halving_def valid_time_def nanoseconds_def split: if_splits)

definition one_second :: thread_data where
  "one_second = \<lparr>wait_before_obtain = timespec_of_ms 1000, wait_before_release = timespec_of_ms 2, mutex = 5,
     threadid = 0, thread_complete_success = False\<rparr>"

theorem threadfunc_holds_mutex_witness:
  "\<exists>w'. threadfunc halving (timespec_of_ms 9) one_second (0, 3) = Some (one_second\<lparr>thread_complete_success := True\<rparr>, w') \<and>
     fst w' \<ge> 1002000000"
proof -
  have "valid_time (wait_before_obtain one_second)" "valid_time (wait_before_release one_second)"
    by (simp_all add: one_second_def valid_of_ms)
  from threadfunc_holds_mutex [OF halving_ok this, of "(0, 3)" "timespec_of_ms 9"] show ?thesis
    by (auto simp: halving_def one_second_def nanoseconds_of_ms)
qed

text \<open>\<open>malloc\<close> does not give a block that is in use.\<close>

definition fresh_blocks :: "'w spawn_sys \<Rightarrow> bool" where
  "fresh_blocks P \<longleftrightarrow> (\<forall>used w a old w1. malloc_td P used w = (Some a, old, w1) \<longrightarrow> \<not> used a)"

text \<open>
  A thread that was started has one new block of its own, with the mutex and with exactly the
  times asked for; times that are not negative are valid, and no time overflows.
\<close>

theorem start_thread_starts:
  assumes "start_thread_obtaining_mutex P mtx obtain_ms release_ms s = ((True, r), s')"
    and "fresh_blocks P"
  shows "\<exists>tid a td. r = Some tid \<and> threads s' = threads s @ [(tid, a)] \<and> blocks s a = None \<and>
    blocks s' = (blocks s)(a \<mapsto> td) \<and> mutex td = mtx \<and> threadid td = tid \<and>
    nanoseconds (wait_before_obtain td) = obtain_ms * 1000000 \<and> valid_time (wait_before_obtain td) = (0 \<le> obtain_ms) \<and>
    nanoseconds (wait_before_release td) = release_ms * 1000000 \<and> valid_time (wait_before_release td) = (0 \<le> release_ms)"
proof -
  obtain p old w where m: "malloc_td P (\<lambda>a. blocks s a \<noteq> None) (spawn_w s) = (p, old, w)" by (metis prod_cases3)
  with assms(1) obtain a where p: "p = Some a"
    by (cases p) (auto simp: start_thread_obtaining_mutex_def)
  obtain ret tid w1 where c: "create_td P a w = (ret, tid, w1)" by (metis prod_cases3)
  let ?td = "old\<lparr>mutex := mtx, wait_before_obtain := timespec_of_ms obtain_ms,
    wait_before_release := timespec_of_ms release_ms, threadid := tid\<rparr>"
  have "blocks s a = None" using assms(2) m p unfolding fresh_blocks_def by blast
  moreover have "r = Some tid" "threads s' = threads s @ [(tid, a)]" "blocks s' = (blocks s)(a \<mapsto> ?td)"
    using assms(1) m p c by (auto simp: start_thread_obtaining_mutex_def Let_def split: if_splits)
  ultimately show ?thesis
    by (intro exI [of _ tid] exI [of _ a] exI [of _ ?td]) (simp add: nanoseconds_of_ms valid_of_ms)
qed

definition no_threads :: "nat spawner" where
  "no_threads = \<lparr>blocks = Map.empty, threads = [], spawn_w = 0\<rparr>"

definition spawning :: "int \<Rightarrow> nat spawn_sys" where
  "spawning status = \<lparr>malloc_td = (\<lambda>used w. (if used w then None else Some w, one_second, w + 1)),
     create_td = (\<lambda>a w. (status, int a + 100, w))\<rparr>"

theorem start_thread_starts_witness:
  "\<exists>tid td s'. start_thread_obtaining_mutex (spawning 0) 5 1500 20 no_threads = ((True, Some tid), s') \<and>
     blocks s' 0 = Some td \<and> nanoseconds (wait_before_obtain td) = 1500000000"
proof -
  obtain r s' where r: "start_thread_obtaining_mutex (spawning 0) 5 1500 20 no_threads = ((True, r), s')"
    by (simp add: start_thread_obtaining_mutex_def spawning_def no_threads_def)
  have "fresh_blocks (spawning 0)" by (auto simp: fresh_blocks_def spawning_def split: if_splits)
  from start_thread_starts [OF r this] obtain tid a td where "r = Some tid" "threads s' = [(tid, a)]"
    "blocks s' = [a \<mapsto> td]" "nanoseconds (wait_before_obtain td) = 1500000000"
    by (auto simp: no_threads_def)
  moreover have "map snd (threads s') = [0]"
    using r by (auto simp: start_thread_obtaining_mutex_def spawning_def no_threads_def)
  ultimately show ?thesis using r by auto
qed

text \<open>
  When \<open>pthread_create\<close> fails, the block allocated for the thread is neither handed to a thread nor
  freed.
\<close>

theorem start_thread_leaks:
  assumes "malloc_td P (\<lambda>a. blocks s a \<noteq> None) (spawn_w s) = (Some a, old, w)" and "blocks s a = None"
    and "create_td P a w = (ret, tid, w1)" and "ret \<noteq> 0"
  shows "\<exists>s'. start_thread_obtaining_mutex P mtx obtain_ms release_ms s = ((False, None), s') \<and>
    dom (blocks s') = insert a (dom (blocks s)) \<and> threads s' = threads s"
  using assms by (simp add: start_thread_obtaining_mutex_def)

theorem start_thread_leaks_witness:
  "\<exists>s'. start_thread_obtaining_mutex (spawning 11) 5 1 1 no_threads = ((False, None), s') \<and>
    dom (blocks s') = {0} \<and> threads s' = []"
proof -
  have "malloc_td (spawning 11) (\<lambda>a. blocks no_threads a \<noteq> None) (spawn_w no_threads) = (Some 0, one_second, 1)"
    "blocks no_threads 0 = None" "create_td (spawning 11) 0 1 = (11, 100, 1)"
    by (simp_all add: spawning_def no_threads_def)
  from start_thread_leaks [OF this, of 5 1 1] show ?thesis by (simp add: no_threads_def)
qed

text \<open>
  A time of less than zero milliseconds is refused by \<open>nanosleep\<close>, which leaves \<open>remaining_time\<close>
  uninitialised: the thread then sleeps for whatever it holds, or not at all.
\<close>

theorem negative_wait_sleeps_junk:
  assumes "nap_ok nap clock pending" and "ms < 0"
  shows "sleep_loop nap (timespec_of_ms ms) junk w =
    (if tv_sec junk > 0 \<or> tv_nsec junk > 0 then sleep_loop nap junk junk w else Some (junk, w))"
proof -
  obtain ret rem1 w1 where nap: "nap (timespec_of_ms ms) junk w = (ret, rem1, w1)" by (metis prod_cases3)
  with assms have "ret = -1 \<and> rem1 = junk \<and> w1 = w" by (auto simp: nap_ok_def valid_of_ms)
  then show ?thesis using nap sleep_loop.simps [of nap "timespec_of_ms ms"] by simp
qed

theorem negative_wait_sleeps_junk_witness:
  "\<exists>rem' w'. sleep_loop (nanosleep halving) (timespec_of_ms (-5)) (timespec_of_ms 3600000) (0, 0) = Some (rem', w') \<and>
     fst w' \<ge> 3600000000000"
proof -
  have v: "valid_time (timespec_of_ms 3600000)" by (simp add: valid_of_ms)
  have "tv_sec (timespec_of_ms 3600000) > 0" by (simp add: timespec_of_ms_eq signed_divide_int_def)
  with negative_wait_sleeps_junk [OF halving_ok, of "-5" "timespec_of_ms 3600000" "(0, 0)"]
    sleep_loop_sleeps [OF halving_ok v, of "timespec_of_ms 3600000" "(0, 0)"]
  show ?thesis by (auto simp: nanoseconds_of_ms)
qed

end
