(* ===== verification/Spec2Isabelle.thy ===== *)
theory Spec2Isabelle
  imports ServerSystem CharDriverSystem FileServer SinglyLinked SinglyLinkedTail DoublyLinked Writer SystemCalls Threading
begin

text \<open>
  A verification library for the AESD assignments: the character driver (src/aesd-char-driver), the
  socket server (src/server), the writer utility (src/finder-app) and the two examples
  (src/examples).

  The program.  The driver keeps the last ten lines written to \<open>/dev/aesdchar\<close> in a circular
  buffer of write commands and collects an incomplete line in a working buffer; reads see the
  concatenation of the lines, and seeks address it by position or by line and offset.  The server
  listens on port 9000; its main thread accepts connections, starts a thread for each and keeps the
  threads in a tail queue until they have completed.  A connection thread gathers bytes until a
  newline, appends the packet to the log and sends the whole log back.  By a build switch the log is
  the driver's device (\<open>aesd_char_thread\<close>, where a packet may also be a seek command) or a file
  (\<open>server_thread\<close>, under a mutex, with a timestamp every ten seconds that the alarm handler leaves
  in a queue).  The writer utility writes one string to a file; the examples wrap \<open>system\<close>, \<open>fork\<close>,
  \<open>execv\<close> and \<open>waitpid\<close>, and sleep around a mutex.

  Modelling.  A struct is a record, an enum a datatype, an unsigned integer a word of its width; a
  signed integer is the HOL integer it denotes, with each conversion written out (Prelude).  A
  function of the kernel or of the C library is a parameter, a field of a record (\<open>kernel\<close>, \<open>sys\<close>,
  \<open>os\<close>, \<open>net\<close>, \<open>writer_sys\<close>, \<open>proc_sys\<close>, \<open>thread_sys\<close>, \<open>spawn_sys\<close>), over a world of any type; what is
  documented of it is a named predicate (\<open>kernel_ok\<close>, \<open>net_ok\<close>, \<open>posix\<close>, \<open>write_ok\<close>, \<open>malloc_ok\<close>,
  \<open>exec_ok\<close>, \<open>descriptors_ok\<close>, \<open>nap_ok\<close>, \<open>fresh_blocks\<close>) that the theorems assume and that their
  witnesses discharge on a concrete system.  An operation returns its result and the new state;
  \<open>None\<close> is undefined behaviour (a bad pointer, a double free) or not returning.  Labels that the
  code jumps to are values of a datatype.

  The theories, in the order they build on each other.
    \<^item> Prelude, Lines, Interfaces: machine types and conversions, lists, the abstract log of lines, and
      the interfaces between components as locales (\<open>history_log\<close>, \<open>line_log\<close>, \<open>byte_source\<close>,
      \<open>byte_sink\<close>, \<open>byte_copy\<close>, \<open>bounded_fifo\<close>, \<open>node_list\<close>), each interpreted where it is provided.
    \<^item> CircularBuffer: aesd-circular-buffer.c.  Insertion refines appending to a list of at most ten
      entries; the lookup of a position finds the byte of the concatenation; \<open>ret_offset\<close> and its
      faults; release frees every live entry once.
    \<^item> KernelApi, CharDriver: the kernel calls and the file operations of main.c.  CharDriverRep relates
      the memory of the device to the lines it holds (\<open>dev_rep\<close>); CharDriverWrite and CharDriverRead
      prove write, read, llseek, ioctl, loading and unloading against that view.  CharDriverSystem is the
      driver in use: the module is loaded and unloaded and any number of processes call its table of
      operations in any order (\<open>driver_op\<close>, \<open>driver_run\<close>).  Its invariant, proved per operation
      (\<open>driver_op_post\<close>) and by rule induction, gives progress, what every reader sees, and that no
      memory but the device's is touched or leaked.
    \<^item> TimeQueue: the timestamp queue of aesdsocket.c and the alarm handler.  A dequeue is a list of steps
      (\<open>dequeue_steps\<close>), between any two of which the handler may enqueue (\<open>dequeue_interrupted\<close>); runs of
      alarms, dequeues and interrupted dequeues (\<open>tq_run\<close>) are shown to be those of a bounded queue, up
      to the two places where the interruption does harm.
    \<^item> SocketIo, SocketWorker: \<open>dump_content\<close> and \<open>echo_file_socket\<close>, and the two connection threads.
      Connection proves the receive loop they share, with what it relies on as the locale \<open>receiver\<close>;
      WorkerProofs extends it to the contract of the device (\<open>log_server\<close>) and proves
      \<open>aesd_char_thread\<close>; DriverServer interprets that contract on the driver's own operations, which
      gives properties of server and driver together.  ConcurrentServer runs the same thread over system
      calls that let the threads of other connections make theirs first (\<open>interfered\<close>).  A discipline
      says which calls those are (\<open>disciplined\<close>, \<open>crowd\<close>); they are proved to keep a rely
      (\<open>crowd_relies\<close>), under which the thread is proved to keep the discipline itself, to store its
      packet whole and once, and to be answered by what reading the log piece by piece gives
      (\<open>packet_served\<close>, \<open>reads_out\<close>; locale \<open>shared_log\<close>).
      FileServer proves \<open>server_thread\<close> on files as documented, where every byte of the log is marked with
      whether this thread wrote it (\<open>f_log\<close>): it ends, with the mutex released and every descriptor closed,
      and a packet is one step for the other threads.
    \<^item> Links, TailQueue, SinglyLinked, SinglyLinkedTail, DoublyLinked: all of queue.h.  Links has the
      memory of heads and fields that the four kinds of list share, what it means that a memory holds
      lists, and the edits of lists as the common specification (locale \<open>list_kind\<close>); each theory
      translates the macros of one kind (TAILQ, SLIST, STAILQ, LIST) and interprets the locale on them:
      any sequence of operations on any number of lists returns, follows no bad pointer and leaves what
      the same edits leave on lists, and the loops visit the nodes in order.  TailQueue also interprets
      \<open>node_list\<close>, which the server's list of connections rests on.
    \<^item> SocketMain: the main thread, from start-up (\<open>main_start\<close>) through its two states (\<open>main_turn\<close>) to
      \<open>shutdown_function\<close>, with signals and the timer.  SocketMainProofs makes the process a transition
      system (\<open>server_step\<close>: turns of the main loop, signals, alarms, ends of threads) and proves its
      invariant by rule induction; SocketLifecycle has what follows for the life of the process, and
      what is released twice or never.
    \<^item> ServerSystem: the main thread and the connection threads together.  All that a thread does to its
      node is a step of \<open>server_step\<close> (\<open>threads_end\<close>, \<open>thread_run_reachable\<close>), and a connection is followed from
      \<open>accept\<close> through its thread to \<open>pthread_join\<close>.
    \<^item> Writer, SystemCalls, Threading: the utilities, \<open>write_string\<close> proved equivalent to the server's
      \<open>dump_content\<close>.

  Loops.  Loops over data are structural recursion or \<open>function\<close> with a measure; the loops that
  repeat a system call may run forever and are \<open>partial_function (option)\<close>, and each is proved to
  return where the calls are as documented: interruptions by signals run out, and every other pass
  consumes bytes.  No fuel is used.

  Concurrency.  A turn of the main loop is atomic in \<open>server_step\<close>: the flag \<open>thread_completed\<close> and the
  caught signal are read at one point of a turn, and the threads touch nothing else that the main
  thread reads.  In \<open>posix\<close>, other threads may append to the file whenever this thread does not hold the
  mutex, and the alarm handler may change the timestamp queue during any call.  It does not run during a
  dequeue there: that it may is the subject of TimeQueue alone, with one alarm at most per dequeue, whose
  handler runs to its end (on the dequeuing thread; a handler that runs on another thread at the same
  time, or an alarm during an enqueue, is not modelled).  The driver's
  operations touch the device only under its lock, so a run of the driver is a sequence of whole
  operations; the threads of the device server interleave at every system call.  Of the calls of other
  threads only a write that fails is left out, since the driver may then hold a dangling pointer.
  Under interference a connection sends one packet.

  Findings.  Several theorems show that the code does not do what it means to: a second line of one
  write (CharDriverWrite, CharDriverRead), a seek in a full buffer (CircularBuffer), the third packet
  of a connection and a packet after a timestamp (DriverServer, FileServer), buffers freed twice and
  descriptors never closed or closed twice (DriverServer, SocketLifecycle, SystemCalls, Threading),
  timestamps lost when the alarm interrupts a dequeue (TimeQueue).  The theorems about runs of the driver
  leave out what these faults spoil: writes of several newlines, and the runs after a failed \<open>krealloc\<close>.
  A consequence of the design rather than a mistake: positions count from the oldest line held, so a
  reader that a write overtakes skips as many bytes as the dropped line had (CharDriverSystem).

  Not modelled: messages (\<open>PDEBUG\<close>, \<open>printk\<close>, \<open>syslog\<close>, \<open>printf\<close>, \<open>perror\<close>) and their text, with the read
  past a block that the message of \<open>aesd_read\<close> makes (main.c, line 202); that \<open>sscanf\<close> scans the receive
  buffer, which has no terminating NUL, past its end (the model stops there); the end of the process by
  \<open>SIGPIPE\<close> when a client has gone (\<open>send\<close> gives -1); the
  debugging variants of queue.h (\<open>QUEUE_MACRO_DEBUG\<close>), which no build defines; the course's
  constant-returning autotest examples and unit test; shell scripts, build files and documents.
\<close>

end
